(* ===== verification/Prelude.thy ===== *)
theory Prelude
  imports Main "HOL-Library.Word"
begin

text \<open>
  What every component of the model shares: the C types the sources use
  (\<open>size_t\<close> with its wrap-around, character classes of the C locale, NUL-terminated
  strings in a byte buffer), the C library routines the sources call
  (\<open>strndup\<close>, \<open>strchr\<close>, \<open>strrchr\<close>, \<open>strstr\<close>, \<open>strncmp\<close>, \<open>\<percent>u\<close> printing,
  \<open>reallocarray\<close>) and generic facts on lists.

  A \<open>char *\<close> that is only read is a \<open>string\<close> without NUL; an uninitialised byte
  of a buffer is \<open>None\<close>.  Undefined behaviour of C (a read of an uninitialised or
  unmapped slot, a write outside an allocation, a dereference of NULL) is the value
  \<open>None\<close> of an \<open>option\<close>, so that "the operation is memory safe" is the theorem that
  it returns \<open>Some\<close>.
\<close>

named_theorems size_arith \<open>size_t arithmetic that does not wrap\<close>
named_theorems ub_free \<open>conditions under which an operation is free of undefined behaviour\<close>

section \<open>size_t\<close>

text \<open>\<open>size_t\<close> has 64 bits on the platforms the program builds on (LP64).\<close>

definition SIZE_LIMIT :: nat where
  "SIZE_LIMIT = 2 ^ 64"

definition SIZE_MAX :: nat where
  "SIZE_MAX = SIZE_LIMIT - 1"

definition PTRDIFF_MAX :: nat where
  "PTRDIFF_MAX = 2 ^ 63 - 1"

definition UINT_MAX :: nat where
  "UINT_MAX = 4294967295"

definition sz_add :: "nat \<Rightarrow> nat \<Rightarrow> nat" where
  "sz_add a b = (a + b) mod SIZE_LIMIT"

definition sz_mul :: "nat \<Rightarrow> nat \<Rightarrow> nat" where
  "sz_mul a b = (a * b) mod SIZE_LIMIT"

text \<open>Unsigned subtraction: wraps below zero.\<close>

definition sz_sub :: "nat \<Rightarrow> nat \<Rightarrow> nat" where
  "sz_sub a b = (a + (SIZE_LIMIT - b mod SIZE_LIMIT)) mod SIZE_LIMIT"

lemma size_limits:
  "0 < SIZE_LIMIT" "SIZE_MAX < SIZE_LIMIT" "PTRDIFF_MAX < SIZE_MAX"
  "PTRDIFF_MAX + PTRDIFF_MAX < SIZE_LIMIT" "1 < SIZE_LIMIT"
  by (simp_all add: SIZE_LIMIT_def SIZE_MAX_def PTRDIFF_MAX_def)

lemma sz_add_exact [size_arith]: "a + b < SIZE_LIMIT \<Longrightarrow> sz_add a b = a + b"
  by (simp add: sz_add_def)

lemma sz_mul_exact [size_arith]: "a * b < SIZE_LIMIT \<Longrightarrow> sz_mul a b = a * b"
  by (simp add: sz_mul_def)

lemma sz_sub_exact [size_arith]:
  assumes "b \<le> a" "a < SIZE_LIMIT"
  shows "sz_sub a b = a - b"
proof -
  from assms have "sz_sub a b = (a + (SIZE_LIMIT - b)) mod SIZE_LIMIT"
    by (simp add: sz_sub_def)
  also from assms have "a + (SIZE_LIMIT - b) = (a - b) + SIZE_LIMIT" by simp
  also have "\<dots> mod SIZE_LIMIT = (a - b) mod SIZE_LIMIT" by (rule mod_add_self2)
  also from assms have "\<dots> = a - b" by simp
  finally show ?thesis .
qed

lemma sz_sub_wrap [size_arith]:
  assumes "a < b" "b < SIZE_LIMIT"
  shows "sz_sub a b = SIZE_LIMIT - (b - a)"
  using assms by (simp add: sz_sub_def)

lemma sz_sub_zero_one [simp]: "sz_sub 0 1 = SIZE_MAX" "sz_sub 0 (Suc 0) = SIZE_MAX"
  using size_limits by (simp_all add: sz_sub_wrap SIZE_MAX_def)

lemma sz_sub_one [size_arith]:
  "0 < n \<Longrightarrow> n < SIZE_LIMIT \<Longrightarrow> sz_sub n 1 = n - 1"
  "0 < n \<Longrightarrow> n < SIZE_LIMIT \<Longrightarrow> sz_sub n (Suc 0) = n - 1"
  by (simp_all add: sz_sub_exact)

lemma sz_less: "sz_add a b < SIZE_LIMIT" "sz_mul a b < SIZE_LIMIT" "sz_sub a b < SIZE_LIMIT"
  using size_limits by (simp_all add: sz_add_def sz_mul_def sz_sub_def)

section \<open>Characters of the C locale\<close>

definition NUL :: char where
  "NUL = CHR 0x00"

text \<open>\<open>isspace\<close>: space, \<open>\t\<close>, \<open>\n\<close>, \<open>\v\<close>, \<open>\f\<close>, \<open>\r\<close>.\<close>

definition isspace :: "char \<Rightarrow> bool" where
  "isspace c \<longleftrightarrow> c \<in> set [CHR '' '', CHR 0x09, CHR 0x0A, CHR 0x0B, CHR 0x0C, CHR 0x0D]"

definition isalnum :: "char \<Rightarrow> bool" where
  "isalnum c \<longleftrightarrow> (let n = (of_char c :: nat) in
     48 \<le> n \<and> n \<le> 57 \<or> 65 \<le> n \<and> n \<le> 90 \<or> 97 \<le> n \<and> n \<le> 122)"

definition nul_free :: "string \<Rightarrow> bool" where
  "nul_free s \<longleftrightarrow> NUL \<notin> set s"

lemma nul_free_simps [simp]:
  "nul_free []" "nul_free (c # s) \<longleftrightarrow> c \<noteq> NUL \<and> nul_free s"
  "nul_free (s @ t) \<longleftrightarrow> nul_free s \<and> nul_free t"
  by (auto simp: nul_free_def)

section \<open>Strings\<close>

text \<open>\<open>strchr\<close>/\<open>strrchr\<close> return a pointer into the string: here, the index of the
  first or the last occurrence.\<close>

fun strchr :: "string \<Rightarrow> char \<Rightarrow> nat option" where
  "strchr [] c = None"
| "strchr (x # xs) c = (if x = c then Some 0 else map_option Suc (strchr xs c))"

fun strrchr :: "string \<Rightarrow> char \<Rightarrow> nat option" where
  "strrchr [] c = None"
| "strrchr (x # xs) c =
     (case strrchr xs c of Some i \<Rightarrow> Some (Suc i) | None \<Rightarrow> if x = c then Some 0 else None)"

text \<open>\<open>strncmp s p (strlen p) == 0\<close>: the string starts with \<open>p\<close>.\<close>

definition starts_with :: "string \<Rightarrow> string \<Rightarrow> bool" where
  "starts_with s p \<longleftrightarrow> take (length p) s = p"

text \<open>\<open>strstr\<close>: the suffix that starts at the first occurrence of the needle.\<close>

fun strstr :: "string \<Rightarrow> string \<Rightarrow> string option" where
  "strstr [] p = (if p = [] then Some [] else None)"
| "strstr (x # xs) p = (if starts_with (x # xs) p then Some (x # xs) else strstr xs p)"

lemma starts_with_append [simp]: "starts_with (p @ s) p"
  by (simp add: starts_with_def)

lemma starts_with_iff: "starts_with s p \<longleftrightarrow> (\<exists>t. s = p @ t)"
  by (metis append_eq_conv_conj append_take_drop_id starts_with_def)

lemma strchr_Some: "strchr s c = Some i \<Longrightarrow> i < length s \<and> s ! i = c \<and> c \<notin> set (take i s)"
  by (induction s arbitrary: i) (auto split: if_splits)

lemma strchr_None: "strchr s c = None \<longleftrightarrow> c \<notin> set s"
  by (induction s) auto

lemma strchr_append [simp]:
  "c \<notin> set s \<Longrightarrow> strchr (s @ c # t) c = Some (length s)"
  by (induction s) auto

lemma strrchr_None: "strrchr s c = None \<longleftrightarrow> c \<notin> set s"
  by (induction s) (auto split: option.splits)

lemma strrchr_Some: "strrchr s c = Some i \<Longrightarrow> i < length s \<and> s ! i = c"
  by (induction s arbitrary: i) (auto split: option.splits if_splits)

lemma strrchr_append [simp]:
  "c \<notin> set t \<Longrightarrow> strrchr (s @ c # t) c = Some (length s)"
proof (induction s)
  case Nil
  then have "strrchr t c = None" by (simp add: strrchr_None)
  then show ?case by simp
qed simp

lemma strstr_Some: "strstr s p = Some t \<Longrightarrow> starts_with t p \<and> (\<exists>u. s = u @ t)"
proof (induction s)
  case (Cons x xs)
  then show ?case
    by (cases "starts_with (x # xs) p") (auto intro: exI [of _ "x # _"])
qed (auto simp: starts_with_def split: if_splits)

text \<open>Unsigned decimal printing, the \<open>\<percent>u\<close> and \<open>\<percent>zu\<close> conversions.\<close>

definition digit_char :: "nat \<Rightarrow> char" where
  "digit_char d = char_of (48 + d)"

fun show_nat :: "nat \<Rightarrow> string" where
  "show_nat n = (if n < 10 then [digit_char n] else show_nat (n div 10) @ [digit_char (n mod 10)])"

declare show_nat.simps [simp del]

lemma digit_chars:
  "digit_char 0 = CHR ''0''" "digit_char 1 = CHR ''1''" "digit_char (Suc 0) = CHR ''1''"
  "digit_char 2 = CHR ''2''" "digit_char 3 = CHR ''3''" "digit_char 4 = CHR ''4''"
  "digit_char 5 = CHR ''5''" "digit_char 6 = CHR ''6''" "digit_char 7 = CHR ''7''"
  "digit_char 8 = CHR ''8''" "digit_char 9 = CHR ''9''"
  by (simp_all add: digit_char_def char_of_def bit_0)

fun read_digits :: "nat \<Rightarrow> string \<Rightarrow> nat" where
  "read_digits acc [] = acc"
| "read_digits acc (c # cs) = read_digits (acc * 10 + (of_char c - 48)) cs"

lemma of_char_digit: "d < 10 \<Longrightarrow> (of_char (digit_char d) :: nat) = 48 + d"
  by (simp add: digit_char_def)

lemma read_digits_append: "read_digits acc (s @ t) = read_digits (read_digits acc s) t"
  by (induction s arbitrary: acc) auto

lemma read_show_nat: "read_digits 0 (show_nat n) = n"
proof (induction n rule: show_nat.induct)
  case (1 n)
  show ?case
  proof (cases "n < 10")
    case True
    then show ?thesis by (simp add: show_nat.simps [of n] of_char_digit)
  next
    case False
    with 1 have "read_digits 0 (show_nat (n div 10)) = n div 10" by simp
    with False show ?thesis
      by (simp add: show_nat.simps [of n] read_digits_append of_char_digit)
  qed
qed

lemma show_nat_inj [simp]: "show_nat m = show_nat n \<longleftrightarrow> m = n"
  by (metis read_show_nat)

lemma show_nat_digits: "c \<in> set (show_nat n) \<Longrightarrow> 48 \<le> (of_char c :: nat) \<and> (of_char c :: nat) \<le> 57"
proof (induction n rule: show_nat.induct)
  case (1 n)
  then show ?case
    by (cases "n < 10") (auto simp: show_nat.simps [of n] of_char_digit)
qed

lemma show_nat_no_colon: "CHR '':'' \<notin> set (show_nat n)"
  using show_nat_digits by fastforce

text \<open>Splitting a string at its first separator is unambiguous.\<close>

lemma append_sep_eq:
  assumes "s @ c # t = s' @ c # t'" "c \<notin> set s" "c \<notin> set s'"
  shows "s = s' \<and> t = t'"
  using assms by (induction s arbitrary: s') (auto simp: Cons_eq_append_conv)

text \<open>Updating every position in turn is mapping.\<close>

lemma fold_update_map:
  "n \<le> length xs \<Longrightarrow> fold (\<lambda>i ys. ys[i := f (ys ! i)]) [0..<n] xs = map f (take n xs) @ drop n xs"
proof (induction n)
  case (Suc n)
  then have "drop n xs = xs ! n # drop (Suc n) xs" by (simp add: Cons_nth_drop_Suc)
  with Suc show ?case
    by (simp add: list_update_append nth_append take_Suc_conv_app_nth)
qed simp

lemma fold_update_all: "fold (\<lambda>i ys. ys[i := f (ys ! i)]) [0..<length xs] xs = map f xs"
  by (simp add: fold_update_map)

section \<open>Byte buffers\<close>

text \<open>A C string read from a buffer: up to the first NUL; undefined if an uninitialised
  byte or the end of the allocation comes first.\<close>

fun read_cstr :: "char option list \<Rightarrow> string option" where
  "read_cstr [] = None"
| "read_cstr (None # bs) = None"
| "read_cstr (Some c # bs) = (if c = NUL then Some [] else map_option ((#) c) (read_cstr bs))"

definition cstr_bytes :: "string \<Rightarrow> char option list" where
  "cstr_bytes s = map Some s @ [Some NUL]"

lemma length_cstr_bytes [simp]: "length (cstr_bytes s) = Suc (length s)"
  by (simp add: cstr_bytes_def)

lemma read_cstr_bytes [simp]: "nul_free s \<Longrightarrow> read_cstr (cstr_bytes s @ bs) = Some s"
  by (induction s) (auto simp: cstr_bytes_def)

text \<open>\<open>memcpy\<close> of a string with its terminator to an offset of a buffer.\<close>

definition write_bytes :: "char option list \<Rightarrow> nat \<Rightarrow> char option list \<Rightarrow> char option list option" where
  "write_bytes buf off bs =
     (if off + length bs \<le> length buf
      then Some (take off buf @ bs @ drop (off + length bs) buf) else None)"

section \<open>The allocator\<close>

text \<open>
  The allocator is a parameter: given a number of bytes it answers the address of the
  new block or \<open>None\<close> for NULL.  \<open>reallocarray\<close> also answers NULL when the product of
  its arguments overflows or exceeds \<open>PTRDIFF_MAX\<close>, as the C library documents.
\<close>

type_synonym allocator = "nat \<Rightarrow> int option"

definition reallocarray :: "allocator \<Rightarrow> nat \<Rightarrow> nat \<Rightarrow> int option" where
  "reallocarray al n sz = (if n * sz \<le> PTRDIFF_MAX then al (n * sz) else None)"

lemma reallocarray_Some: "reallocarray al n sz = Some b \<Longrightarrow> n * sz \<le> PTRDIFF_MAX \<and> al (n * sz) = Some b"
  by (auto simp: reallocarray_def split: if_splits)

text \<open>The allocator that never fails below \<open>PTRDIFF_MAX\<close>.\<close>

definition never_fails :: "allocator \<Rightarrow> bool" where
  "never_fails al \<longleftrightarrow> (\<forall>n. al n \<noteq> None)"

lemma reallocarray_never_fails:
  "never_fails al \<Longrightarrow> n * sz \<le> PTRDIFF_MAX \<Longrightarrow> \<exists>b. reallocarray al n sz = Some b"
  by (auto simp: never_fails_def reallocarray_def)

end
