(* ===== verification/Types.thy ===== *)
theory Types
  imports Prelude
begin

text \<open>
  The data types of \<open>inc/types.h\<close> that several components share: error codes, the kinds
  of variable access, the \<open>VarAccess\<close> record and the lock primitive pair.

  A \<open>char *\<close> field that is compared by address somewhere (\<open>memcmp\<close> of whole
  structures) is a \<open>char_ptr\<close>: NULL or an address with the string stored there.
  Strings are immutable once duplicated, so an address and its contents travel together.
\<close>

section \<open>Error codes\<close>

datatype prong_error =
    ERR_OK | ERR_NOT_FOUND | ERR_TU | ERR_SYNTAX | ERR_INVALID_ARG
  | ERR_OUT_OF_MEMORY | ERR_AOS_EMPTY | ERR_IO

section \<open>Kinds of variable access\<close>

datatype var_access_type =
    VarAccess_Null | VarAccess_Read | VarAccess_Write | VarAccess_PtrRead | VarAccess_PtrWrite
  | VarAccess_Escape | VarAccess_LockAcquire | VarAccess_LockRelease | VarAccess_Call
  | VarAccess_IfStmt | VarAccess_ThenBlock | VarAccess_ElseStmt | VarAccess_EndIf

text \<open>The enumerators carry the numbers the source gives them; comparisons are on them.\<close>

fun va_type_code :: "var_access_type \<Rightarrow> nat" where
  "va_type_code VarAccess_Null = 0"
| "va_type_code VarAccess_Read = 1"
| "va_type_code VarAccess_Write = 2"
| "va_type_code VarAccess_PtrRead = 3"
| "va_type_code VarAccess_PtrWrite = 4"
| "va_type_code VarAccess_Escape = 5"
| "va_type_code VarAccess_LockAcquire = 6"
| "va_type_code VarAccess_LockRelease = 7"
| "va_type_code VarAccess_Call = 8"
| "va_type_code VarAccess_IfStmt = 9"
| "va_type_code VarAccess_ThenBlock = 10"
| "va_type_code VarAccess_ElseStmt = 11"
| "va_type_code VarAccess_EndIf = 12"

lemma va_type_code_inj: "va_type_code s = va_type_code t \<longleftrightarrow> s = t"
  by (cases s; cases t) auto

instantiation var_access_type :: linorder
begin

definition less_eq_var_access_type :: "var_access_type \<Rightarrow> var_access_type \<Rightarrow> bool" where
  "s \<le> t \<longleftrightarrow> va_type_code s \<le> va_type_code t"

definition less_var_access_type :: "var_access_type \<Rightarrow> var_access_type \<Rightarrow> bool" where
  "s < t \<longleftrightarrow> va_type_code s < va_type_code t"

instance
proof
  fix s t u :: var_access_type
  show "s < t \<longleftrightarrow> s \<le> t \<and> \<not> t \<le> s" and "s \<le> s" and "s \<le> t \<or> t \<le> s"
    by (auto simp: less_eq_var_access_type_def less_var_access_type_def)
  show "s \<le> t \<Longrightarrow> t \<le> u \<Longrightarrow> s \<le> u"
    by (simp add: less_eq_var_access_type_def)
  show "s \<le> t \<Longrightarrow> t \<le> s \<Longrightarrow> s = t"
    by (simp add: less_eq_var_access_type_def flip: va_type_code_inj)
qed

end

section \<open>Pointers to strings\<close>

datatype cstr = CStr (cstr_addr: nat) (cstr_chars: string)

type_synonym char_ptr = "cstr option"

text \<open>\<open>strdup\<close> hands out a block no other live string has: the heap counter.  NULL is
  duplicated to NULL by every caller in the sources (they test before the call).\<close>

definition strdup :: "nat \<Rightarrow> string \<Rightarrow> cstr \<times> nat" where
  "strdup h s = (CStr h s, Suc h)"

fun strdup_opt :: "nat \<Rightarrow> string option \<Rightarrow> char_ptr \<times> nat" where
  "strdup_opt h None = (None, h)"
| "strdup_opt h (Some s) = (Some (CStr h s), Suc h)"

text \<open>\<open>strcmp(a, b) == 0\<close>: undefined when an argument is NULL.\<close>

fun strcmp_eq :: "char_ptr \<Rightarrow> char_ptr \<Rightarrow> bool option" where
  "strcmp_eq (Some p) (Some q) = Some (cstr_chars p = cstr_chars q)"
| "strcmp_eq _ _ = None"

definition same_ptr :: "char_ptr \<Rightarrow> char_ptr \<Rightarrow> bool" where
  "same_ptr p q \<longleftrightarrow> map_option cstr_addr p = map_option cstr_addr q"

section \<open>Variable accesses\<close>

record var_access =
  va_usr :: char_ptr
  va_name :: char_ptr
  va_parent_func_name :: char_ptr
  va_esc_func_spelling :: char_ptr
  va_esc_func_usr :: char_ptr
  va_esc_param_idx :: nat
  va_line :: nat
  va_column :: nat
  va_type :: var_access_type
  va_is_ptr_type :: bool

definition NO_IDX :: nat where
  "NO_IDX = UINT_MAX"

section \<open>Lock primitives\<close>

record lock_primitive_pair =
  lock_func :: "string option"
  unlock_func :: "string option"

record lock_pair_arr =
  lpair_data :: "lock_primitive_pair list"
  lpair_size :: nat

end
