(* ===== verification/Dyn_Aos.thy ===== *)
theory Dyn_Aos
  imports Types
begin

text \<open>
  The dynamic array of strings (\<open>src/dyn_aos.c\<close>): strings packed one after the other
  with their terminators in one growing buffer \<open>data\<close>, and a growing array \<open>strings\<close>
  of pointers into it.  Growing the buffer may move it, which is why the pointers are
  shifted.  The abstract value of a \<open>DynamicAOS\<close> is the list of its strings
  (\<open>aos_repr\<close>); the other components use that value.

  Addresses are integers.  A slot that was never written is \<open>None\<close>; a NULL or freed
  block has no slots.  An operation that would read or write outside its blocks returns
  \<open>None\<close>.
\<close>

section \<open>State\<close>

record dyn_aos =
  capacity :: nat
  aos_size :: nat
  count :: nat
  strings_cap :: nat
  data :: "char option list"
  data_addr :: int
  strings :: "int option list"

definition AOS_INITIAL_CAP :: nat where
  "AOS_INITIAL_CAP = 64"

definition AOS_MAX_STR_COUNT :: nat where
  "AOS_MAX_STR_COUNT = 64"

text \<open>The size of a pointer.\<close>

definition PTR_SIZE :: nat where
  "PTR_SIZE = 8"

lemmas aos_consts = AOS_INITIAL_CAP_def AOS_MAX_STR_COUNT_def PTR_SIZE_def

section \<open>Operations\<close>

definition init_aos :: "int \<Rightarrow> dyn_aos" where
  "init_aos addr =
     \<lparr>capacity = AOS_INITIAL_CAP, aos_size = 0, count = 0, strings_cap = AOS_MAX_STR_COUNT,
      data = replicate AOS_INITIAL_CAP None, data_addr = addr,
      strings = replicate AOS_MAX_STR_COUNT None\<rparr>"

definition free_aos :: "dyn_aos \<Rightarrow> dyn_aos" where
  "free_aos a = a\<lparr>data := [], data_addr := 0, strings := [], capacity := 0\<rparr>"

definition reset_aos :: "int \<Rightarrow> dyn_aos \<Rightarrow> dyn_aos" where
  "reset_aos addr a = (let _ = free_aos a in init_aos addr)"

text \<open>Every pointer to a stored string moves by as much as the buffer moved.\<close>

definition aos_update_old_strings :: "dyn_aos \<Rightarrow> int \<Rightarrow> dyn_aos" where
  "aos_update_old_strings a old_data =
     (let diff = data_addr a - old_data
      in a\<lparr>strings := map (map_option (\<lambda>p. p + diff)) (take (count a) (strings a))
                       @ drop (count a) (strings a)\<rparr>)"

text \<open>First check of \<open>aos_push_string\<close>: room for one more pointer.\<close>

definition aos_reserve_strings :: "allocator \<Rightarrow> dyn_aos \<Rightarrow> prong_error \<times> dyn_aos" where
  "aos_reserve_strings al a =
     (if strings_cap a < sz_add (count a) 1
      then let new_strings_cap =
                 (if strings_cap a \<noteq> 0 then sz_mul (strings_cap a) 2 else AOS_MAX_STR_COUNT)
           in case reallocarray al new_strings_cap PTR_SIZE of
                None \<Rightarrow> (ERR_OUT_OF_MEMORY, a\<lparr>strings := []\<rparr>)
              | Some _ \<Rightarrow> (ERR_OK, a\<lparr>strings := take new_strings_cap (strings a)
                              @ replicate (new_strings_cap - length (strings a)) None,
                            strings_cap := new_strings_cap\<rparr>)
      else (ERR_OK, a))"

text \<open>The \<open>bounds_check_data\<close> loop: the buffer doubles until the string fits, and after
  every move the pointers are shifted.\<close>

definition aos_next_cap :: "dyn_aos \<Rightarrow> nat" where
  "aos_next_cap a = (if capacity a \<noteq> 0 then sz_mul (capacity a) 2 else AOS_INITIAL_CAP)"

definition aos_grow_data :: "dyn_aos \<Rightarrow> nat \<Rightarrow> int \<Rightarrow> dyn_aos" where
  "aos_grow_data a new_cap addr =
     aos_update_old_strings
       (a\<lparr>data := take new_cap (data a) @ replicate (new_cap - length (data a)) None,
          data_addr := addr, capacity := new_cap\<rparr>) (data_addr a)"

lemma capacity_grow [simp]: "capacity (aos_grow_data a n b) = n"
  by (simp add: aos_grow_data_def aos_update_old_strings_def Let_def)

function aos_reserve_data :: "allocator \<Rightarrow> dyn_aos \<Rightarrow> nat \<Rightarrow> prong_error \<times> dyn_aos" where
  "aos_reserve_data al a str_size =
     (if capacity a < sz_add (aos_size a) str_size
      then (case reallocarray al (aos_next_cap a) 1 of
              None \<Rightarrow> (ERR_OUT_OF_MEMORY, a\<lparr>data := [], data_addr := 0\<rparr>)
            | Some addr \<Rightarrow> aos_reserve_data al (aos_grow_data a (aos_next_cap a) addr) str_size)
      else (ERR_OK, a))"
  by pat_completeness auto
termination
proof (relation "measure (\<lambda>(al, a, n).
    if PTRDIFF_MAX < capacity a then Suc PTRDIFF_MAX else PTRDIFF_MAX - capacity a)",
    goal_cases)
  case (2 al a str_size addr)
  then have le: "aos_next_cap a \<le> PTRDIFF_MAX"
    by (auto dest!: reallocarray_Some)
  have "capacity a < aos_next_cap a" if "capacity a \<le> PTRDIFF_MAX"
    using that size_limits
    by (auto simp: aos_next_cap_def aos_consts sz_mul_exact)
  with le show ?case by auto
qed simp

declare aos_reserve_data.simps [simp del]

definition aos_push_string :: "allocator \<Rightarrow> dyn_aos \<Rightarrow> string \<Rightarrow> (prong_error \<times> dyn_aos) option" where
  "aos_push_string al a str =
     (let str_size = length str + 1;
          (e1, a1) = aos_reserve_strings al a
      in if e1 \<noteq> ERR_OK then Some (e1, a1)
         else let (e2, a2) = aos_reserve_data al a1 str_size
         in if e2 \<noteq> ERR_OK then Some (e2, a2)
         else case write_bytes (data a2) (aos_size a2) (cstr_bytes str) of
             None \<Rightarrow> None
           | Some d \<Rightarrow>
               if count a2 < length (strings a2)
               then Some (ERR_OK, a2\<lparr>data := d,
                      strings := (strings a2)[count a2 := Some (data_addr a2 + int (aos_size a2))],
                      aos_size := sz_add (aos_size a2) str_size,
                      count := sz_add (count a2) 1\<rparr>)
               else None)"

text \<open>The C string a pointer into the buffer points to.\<close>

definition aos_cstr :: "dyn_aos \<Rightarrow> int \<Rightarrow> string option" where
  "aos_cstr a p =
     (if data_addr a \<le> p then read_cstr (drop (nat (p - data_addr a)) (data a)) else None)"

definition aos_slot :: "dyn_aos \<Rightarrow> nat \<Rightarrow> int option" where
  "aos_slot a i = (if i < length (strings a) then strings a ! i else None)"

definition aos_string :: "dyn_aos \<Rightarrow> nat \<Rightarrow> string option" where
  "aos_string a i = Option.bind (aos_slot a i) (aos_cstr a)"

text \<open>\<open>Some None\<close> is the NULL the function returns, \<open>None\<close> the read of a slot that was
  never written.\<close>

definition aos_string_at :: "dyn_aos \<Rightarrow> nat \<Rightarrow> int option option" where
  "aos_string_at a idx =
     (if sz_sub (count a) 1 < idx then Some None else map_option Some (aos_slot a idx))"

definition aos_pop_string :: "dyn_aos \<Rightarrow> (prong_error \<times> dyn_aos) option" where
  "aos_pop_string a =
     (if count a = 0 then Some (ERR_AOS_EMPTY, a)
      else case aos_string_at a (sz_sub (count a) 1) of
             Some (Some last_str) \<Rightarrow>
               (case aos_cstr a last_str of
                  None \<Rightarrow> None
                | Some s \<Rightarrow> Some (ERR_OK, a\<lparr>aos_size := sz_sub (aos_size a) (length s + 1),
                                          count := sz_sub (count a) 1\<rparr>))
           | _ \<Rightarrow> None)"

definition aos_string_count :: "dyn_aos \<Rightarrow> nat" where
  "aos_string_count a = count a"

text \<open>The loop of the three lookups: the first index whose string equals the needle.\<close>

fun aos_scan :: "dyn_aos \<Rightarrow> string \<Rightarrow> nat list \<Rightarrow> nat option option" where
  "aos_scan a needle [] = Some None"
| "aos_scan a needle (i # is) =
     (case aos_string a i of
        None \<Rightarrow> None
      | Some s \<Rightarrow> if s = needle then Some (Some i) else aos_scan a needle is)"

definition aos_find_string :: "dyn_aos \<Rightarrow> string \<Rightarrow> int option option" where
  "aos_find_string a needle =
     map_option (\<lambda>r. Option.bind r (aos_slot a)) (aos_scan a needle [0..<count a])"

definition aos_contains_string :: "dyn_aos \<Rightarrow> string \<Rightarrow> bool option" where
  "aos_contains_string a needle = map_option (\<lambda>r. r \<noteq> None) (aos_scan a needle [0..<count a])"

definition aos_find_string_idx :: "dyn_aos \<Rightarrow> string \<Rightarrow> int option" where
  "aos_find_string_idx a needle =
     map_option (\<lambda>r. case r of None \<Rightarrow> -1 | Some i \<Rightarrow> int i) (aos_scan a needle [0..<count a])"

text \<open>The result of each \<open>aos_push_string\<close> of the loop is ignored.\<close>

fun aos_append_loop :: "allocator \<Rightarrow> dyn_aos \<Rightarrow> dyn_aos \<Rightarrow> nat list \<Rightarrow> dyn_aos option" where
  "aos_append_loop al a1 a2 [] = Some a1"
| "aos_append_loop al a1 a2 (i # is) =
     (case aos_string a2 i of
        None \<Rightarrow> None
      | Some s \<Rightarrow> (case aos_push_string al a1 s of
            None \<Rightarrow> None
          | Some (_, a1') \<Rightarrow> aos_append_loop al a1' a2 is))"

definition aos_append_strings ::
  "allocator \<Rightarrow> dyn_aos option \<Rightarrow> dyn_aos option \<Rightarrow> (prong_error \<times> dyn_aos option) option" where
  "aos_append_strings al array1 array2 =
     (case (array1, array2) of
        (Some a1, Some a2) \<Rightarrow>
          if count a1 = 0 \<or> count a2 = 0 then Some (ERR_INVALID_ARG, array1)
          else map_option (\<lambda>a1'. (ERR_OK, Some a1')) (aos_append_loop al a1 a2 [0..<count a2])
      | _ \<Rightarrow> Some (ERR_INVALID_ARG, array1))"

text \<open>What \<open>aos_print_strings\<close> writes to the standard output.\<close>

fun aos_print_loop :: "dyn_aos \<Rightarrow> nat list \<Rightarrow> string option" where
  "aos_print_loop a [] = Some ''''"
| "aos_print_loop a (i # is) =
     (case aos_string a i of
        None \<Rightarrow> None
      | Some s \<Rightarrow> map_option (\<lambda>out. [CHR 0x22] @ s @ [CHR 0x22] @ '', '' @ out) (aos_print_loop a is))"

definition aos_print_strings :: "dyn_aos \<Rightarrow> string option" where
  "aos_print_strings a =
     (if count a = 0 then Some ''[ empty ]''
      else map_option (\<lambda>out. ''[ '' @ out @ '']'') (aos_print_loop a [0..<count a]))"

section \<open>The strings an array holds\<close>

definition packed :: "string list \<Rightarrow> char option list" where
  "packed xs = concat (map cstr_bytes xs)"

text \<open>The data structure invariant and the abstract value: the first \<open>size\<close> bytes are the
  strings packed in order, the first \<open>count\<close> pointers point to their starts.\<close>

definition aos_repr :: "dyn_aos \<Rightarrow> string list \<Rightarrow> bool" where
  "aos_repr a xs \<longleftrightarrow>
     length (data a) = capacity a \<and> length (strings a) = strings_cap a \<and>
     capacity a \<le> PTRDIFF_MAX \<and> strings_cap a * PTR_SIZE \<le> PTRDIFF_MAX \<and>
     count a = length xs \<and> count a \<le> strings_cap a \<and>
     aos_size a = length (packed xs) \<and> aos_size a \<le> capacity a \<and>
     take (aos_size a) (data a) = packed xs \<and>
     (\<forall>i < count a. strings a ! i = Some (data_addr a + int (length (packed (take i xs))))) \<and>
     (\<forall>s \<in> set xs. nul_free s)"

lemma packed_simps [simp]:
  "packed [] = []" "packed (x # xs) = cstr_bytes x @ packed xs"
  "packed (xs @ ys) = packed xs @ packed ys"
  by (simp_all add: packed_def)

lemma packed_split:
  "i < length xs \<Longrightarrow>
    packed xs = packed (take i xs) @ cstr_bytes (xs ! i) @ packed (drop (Suc i) xs)"
  by (metis id_take_nth_drop packed_simps(2,3))

lemma length_packed_ge: "length xs \<le> length (packed xs)"
  by (induction xs) auto

lemma aos_repr_lengths:
  assumes "aos_repr a xs"
  shows "length (data a) = capacity a" "length (strings a) = strings_cap a"
    "capacity a \<le> PTRDIFF_MAX" "strings_cap a * PTR_SIZE \<le> PTRDIFF_MAX"
    "count a = length xs" "count a \<le> strings_cap a"
    "aos_size a = length (packed xs)" "aos_size a \<le> capacity a"
  using assms by (simp_all add: aos_repr_def)

lemma aos_repr_limits:
  assumes "aos_repr a xs"
  shows "count a < SIZE_LIMIT" "aos_size a < SIZE_LIMIT"
  using aos_repr_lengths [OF assms] size_limits by (auto simp: aos_consts)

lemma aos_repr_data:
  assumes "aos_repr a xs"
  shows "data a = packed xs @ drop (aos_size a) (data a)"
  using assms by (metis append_take_drop_id aos_repr_def)

lemma init_aos_repr: "aos_repr (init_aos addr) []"
  by (simp add: aos_repr_def init_aos_def aos_consts PTRDIFF_MAX_def)

lemma reset_aos_repr: "aos_repr (reset_aos addr a) []"
  by (simp add: reset_aos_def init_aos_repr)

text \<open>Reading: every stored string is found where its pointer points.\<close>

lemma aos_slot_repr:
  "aos_repr a xs \<Longrightarrow> i < length xs \<Longrightarrow>
    aos_slot a i = Some (data_addr a + int (length (packed (take i xs))))"
  by (auto simp: aos_repr_def aos_slot_def)

lemma aos_cstr_repr:
  assumes "aos_repr a xs" "i < length xs"
  shows "aos_cstr a (data_addr a + int (length (packed (take i xs)))) = Some (xs ! i)"
proof -
  have "data a = packed (take i xs) @ cstr_bytes (xs ! i) @ packed (drop (Suc i) xs)
          @ drop (aos_size a) (data a)"
    using aos_repr_data [OF assms(1)] packed_split [OF assms(2)] by simp
  then have "drop (length (packed (take i xs))) (data a)
      = cstr_bytes (xs ! i) @ packed (drop (Suc i) xs) @ drop (aos_size a) (data a)"
    by (metis append_eq_conv_conj)
  moreover have "nul_free (xs ! i)"
    using assms by (simp add: aos_repr_def)
  ultimately show ?thesis by (simp add: aos_cstr_def)
qed

lemma aos_string_repr [ub_free]:
  "aos_repr a xs \<Longrightarrow> i < length xs \<Longrightarrow> aos_string a i = Some (xs ! i)"
  by (simp add: aos_string_def aos_slot_repr aos_cstr_repr)

subsection \<open>Growing\<close>

lemma update_old_strings_frame:
  "data (aos_update_old_strings a p) = data a" "capacity (aos_update_old_strings a p) = capacity a"
  "count (aos_update_old_strings a p) = count a" "aos_size (aos_update_old_strings a p) = aos_size a"
  "data_addr (aos_update_old_strings a p) = data_addr a"
  "strings_cap (aos_update_old_strings a p) = strings_cap a"
  "length (strings (aos_update_old_strings a p)) = length (strings a)"
  by (simp_all add: aos_update_old_strings_def Let_def)

lemma update_old_strings_nth:
  "i < count a \<Longrightarrow> i < length (strings a) \<Longrightarrow>
    strings (aos_update_old_strings a p) ! i
      = map_option (\<lambda>q. q + (data_addr a - p)) (strings a ! i)"
  by (simp add: aos_update_old_strings_def Let_def nth_append)

lemma aos_grow_data_repr:
  assumes "aos_repr a xs" "capacity a \<le> n" "n \<le> PTRDIFF_MAX"
  shows "aos_repr (aos_grow_data a n addr) xs"
  using assms
  by (auto simp: aos_repr_def aos_grow_data_def update_old_strings_frame update_old_strings_nth)

lemma aos_reserve_strings_repr:
  assumes "aos_repr a xs" "aos_reserve_strings al a = (e, a')"
  shows "(e = ERR_OK \<and> aos_repr a' xs \<and> count a' < strings_cap a' \<and>
            data a' = data a \<and> capacity a' = capacity a \<and> aos_size a' = aos_size a)
         \<or> e = ERR_OUT_OF_MEMORY"
proof -
  note len = aos_repr_lengths [OF assms(1)]
  have wrap: "sz_add (count a) 1 = Suc (count a)" "sz_mul (strings_cap a) 2 = strings_cap a * 2"
    using len size_limits by (auto simp: sz_add_exact sz_mul_exact aos_consts)
  show ?thesis
    using assms wrap len
    by (auto simp: aos_reserve_strings_def Let_def aos_repr_def nth_append aos_consts
             dest!: reallocarray_Some split: if_splits option.splits)
qed

lemma aos_reserve_data_repr:
  assumes "aos_repr a xs" "n \<le> PTRDIFF_MAX" "aos_reserve_data al a n = (e, a')"
  shows "(e = ERR_OK \<and> aos_repr a' xs \<and> aos_size a' + n \<le> capacity a' \<and>
            strings_cap a' = strings_cap a)
         \<or> e = ERR_OUT_OF_MEMORY"
  using assms
proof (induction al a n rule: aos_reserve_data.induct)
  case (1 al a n)
  note len = aos_repr_lengths [OF "1.prems"(1)]
  note unf = aos_reserve_data.simps [of al a n]
  have add: "sz_add (aos_size a) n = aos_size a + n"
    using len size_limits "1.prems"(2) by (simp add: sz_add_exact)
  show ?case
  proof (cases "capacity a < aos_size a + n")
    case False
    with "1.prems"(3) add have "e = ERR_OK" "a' = a" by (auto simp: unf)
    with False "1.prems"(1) show ?thesis by simp
  next
    case True
    show ?thesis
    proof (cases "reallocarray al (aos_next_cap a) 1")
      case None
      with "1.prems"(3) add True show ?thesis by (simp add: unf)
    next
      case (Some addr)
      have le: "capacity a \<le> aos_next_cap a"
        using len size_limits by (auto simp: aos_next_cap_def sz_mul_exact)
      have "aos_repr (aos_grow_data a (aos_next_cap a) addr) xs"
        using "1.prems"(1) le reallocarray_Some [OF Some] by (simp add: aos_grow_data_repr)
      moreover have "aos_reserve_data al (aos_grow_data a (aos_next_cap a) addr) n = (e, a')"
        using "1.prems"(3) add True Some by (simp add: unf)
      ultimately have "(e = ERR_OK \<and> aos_repr a' xs \<and> aos_size a' + n \<le> capacity a' \<and>
            strings_cap a' = strings_cap (aos_grow_data a (aos_next_cap a) addr))
         \<or> e = ERR_OUT_OF_MEMORY"
        using "1.IH" add True Some "1.prems"(2) by simp
      then show ?thesis
        by (simp add: aos_grow_data_def update_old_strings_frame)
    qed
  qed
qed

subsection \<open>Push and pop\<close>

lemma nth_offset_snoc:
  "i < length xs \<Longrightarrow> packed (take i (xs @ [x])) = packed (take i xs)"
  by simp

lemma aos_store_repr:
  assumes r: "aos_repr a xs" and room: "aos_size a + Suc (length s) \<le> capacity a"
    and slot: "count a < strings_cap a" and s: "nul_free s"
  shows "\<exists>d. write_bytes (data a) (aos_size a) (cstr_bytes s) = Some d \<and>
    aos_repr (a\<lparr>data := d, strings := (strings a)[count a := Some (data_addr a + int (aos_size a))],
       aos_size := sz_add (aos_size a) (length s + 1), count := sz_add (count a) 1\<rparr>) (xs @ [s])"
proof -
  note len = aos_repr_lengths [OF r]
  have exact: "sz_add (aos_size a) (length s + 1) = aos_size a + Suc (length s)"
    "sz_add (count a) 1 = Suc (count a)"
    using len room slot size_limits by (auto simp: sz_add_exact aos_consts)
  obtain d where d: "write_bytes (data a) (aos_size a) (cstr_bytes s) = Some d"
    and d_eq: "d = packed xs @ cstr_bytes s @ drop (aos_size a + Suc (length s)) (data a)"
    using r room len by (auto simp: write_bytes_def aos_repr_def)
  have "strings a ! i = Some (data_addr a + int (length (packed (take i xs))))"
    if "i < length xs" for i
    using r that by (simp add: aos_repr_def)
  then show ?thesis
    using d d_eq exact room slot len s r
    by (auto simp: aos_repr_def nth_list_update less_Suc_eq)
qed

lemma aos_push_cases:
  assumes r: "aos_repr a xs" and s: "nul_free s" and small: "length s < PTRDIFF_MAX"
  obtains (ok) a' where "aos_push_string al a s = Some (ERR_OK, a')" "aos_repr a' (xs @ [s])"
  | (oom) a' where "aos_push_string al a s = Some (ERR_OUT_OF_MEMORY, a')"
proof -
  obtain e1 a1 where 1: "aos_reserve_strings al a = (e1, a1)" by force
  obtain e2 a2 where 2: "aos_reserve_data al a1 (length s + 1) = (e2, a2)" by force
  show thesis
  proof (cases "e1 = ERR_OK")
    case False
    with aos_reserve_strings_repr [OF r 1] have "e1 = ERR_OUT_OF_MEMORY" by auto
    with 1 show thesis by (intro oom [of a1]) (simp add: aos_push_string_def)
  next
    case e1: True
    then have r1: "aos_repr a1 xs" and slot: "count a1 < strings_cap a1"
      using aos_reserve_strings_repr [OF r 1] by auto
    show thesis
    proof (cases "e2 = ERR_OK")
      case False
      with aos_reserve_data_repr [OF r1 _ 2] small have "e2 = ERR_OUT_OF_MEMORY" by auto
      with 1 2 e1 show thesis by (intro oom [of a2]) (simp add: aos_push_string_def)
    next
      case e2: True
      then have r2: "aos_repr a2 xs" and "aos_size a2 + Suc (length s) \<le> capacity a2"
        and "strings_cap a2 = strings_cap a1"
        using aos_reserve_data_repr [OF r1 _ 2] small by auto
      moreover have "count a2 = count a1"
        using aos_repr_lengths(5) [OF r1] aos_repr_lengths(5) [OF r2] by simp
      ultimately obtain d where "write_bytes (data a2) (aos_size a2) (cstr_bytes s) = Some d"
        and "aos_repr (a2\<lparr>data := d,
          strings := (strings a2)[count a2 := Some (data_addr a2 + int (aos_size a2))],
          aos_size := sz_add (aos_size a2) (length s + 1), count := sz_add (count a2) 1\<rparr>) (xs @ [s])"
        using aos_store_repr [OF r2 _ _ s] slot by auto
      with 1 2 e1 e2 slot r2 \<open>count a2 = count a1\<close> \<open>strings_cap a2 = strings_cap a1\<close>
      show thesis by (intro ok) (auto simp: aos_push_string_def aos_repr_def)
    qed
  qed
qed

lemma aos_push_repr:
  "aos_repr a xs \<Longrightarrow> nul_free s \<Longrightarrow> length s < PTRDIFF_MAX \<Longrightarrow>
    (\<exists>a'. aos_push_string al a s = Some (ERR_OK, a') \<and> aos_repr a' (xs @ [s])) \<or>
    (\<exists>a'. aos_push_string al a s = Some (ERR_OUT_OF_MEMORY, a'))"
  by (rule aos_push_cases [of a xs s]) auto

lemma aos_pop_repr:
  assumes r: "aos_repr a (xs @ [s])"
  shows "\<exists>a'. aos_pop_string a = Some (ERR_OK, a') \<and> aos_repr a' xs"
proof -
  note len = aos_repr_lengths [OF r]
  have exact: "sz_sub (count a) 1 = length xs"
    "sz_sub (aos_size a) (Suc (length s)) = length (packed xs)"
    using len aos_repr_limits [OF r] by (auto simp: sz_sub_one sz_sub_exact)
  obtain p where p: "aos_slot a (length xs) = Some p" "aos_cstr a p = Some s"
    using aos_string_repr [OF r, of "length xs"] by (auto simp: aos_string_def bind_eq_Some_conv)
  let ?a' = "a\<lparr>aos_size := length (packed xs), count := length xs\<rparr>"
  have "aos_repr ?a' xs"
    using r len by (auto simp: aos_repr_def append_eq_conv_conj dest: arg_cong [of _ _ "take (length (packed xs))"])
  moreover have "aos_pop_string a = Some (ERR_OK, ?a')"
    using len p exact by (simp add: aos_pop_string_def aos_string_at_def)
  ultimately show ?thesis by blast
qed

lemma aos_pop_empty: "aos_repr a [] \<Longrightarrow> aos_pop_string a = Some (ERR_AOS_EMPTY, a)"
  by (simp add: aos_repr_def aos_pop_string_def)

subsection \<open>Lookups\<close>

lemma aos_scan_repr:
  assumes r: "aos_repr a xs"
  shows "\<forall>i \<in> set is. i < length xs \<Longrightarrow>
    aos_scan a s is = Some (List.find (\<lambda>i. xs ! i = s) is)"
  by (induction "is") (auto simp: aos_string_repr [OF r])

lemma find_nth_None: "List.find (\<lambda>i. xs ! i = s) [0..<length xs] = None \<longleftrightarrow> s \<notin> set xs"
  by (auto simp: find_None_iff in_set_conv_nth)

lemma find_nth_Some:
  assumes "List.find (\<lambda>i. xs ! i = s) [0..<length xs] = Some i"
  shows "i < length xs \<and> xs ! i = s \<and> (\<forall>j < i. xs ! j \<noteq> s)"
  using assms by (auto simp: find_Some_iff)

lemma aos_contains_repr [ub_free]:
  "aos_repr a xs \<Longrightarrow> aos_contains_string a s = Some (s \<in> set xs)"
  using find_nth_None [of xs s]
  by (auto simp: aos_contains_string_def aos_scan_repr aos_repr_lengths)

lemma aos_find_idx_repr [ub_free]:
  "aos_repr a xs \<Longrightarrow> aos_find_string_idx a s =
    Some (case List.find (\<lambda>i. xs ! i = s) [0..<length xs] of None \<Rightarrow> -1 | Some i \<Rightarrow> int i)"
  by (simp add: aos_find_string_idx_def aos_scan_repr aos_repr_lengths)

lemma aos_find_string_repr:
  assumes r: "aos_repr a xs"
  shows "aos_find_string a s = Some p \<Longrightarrow>
    (case p of None \<Rightarrow> s \<notin> set xs | Some q \<Rightarrow> s \<in> set xs \<and> aos_cstr a q = Some s)"
proof -
  assume f: "aos_find_string a s = Some p"
  have len: "count a = length xs" by (rule aos_repr_lengths(5) [OF r])
  show ?thesis
  proof (cases "List.find (\<lambda>i. xs ! i = s) [0..<length xs]")
    case None
    with f len show ?thesis
      using find_nth_None [of xs s] by (auto simp: aos_find_string_def aos_scan_repr [OF r])
  next
    case (Some i)
    with f len find_nth_Some [OF Some] show ?thesis
      by (auto simp: aos_find_string_def aos_scan_repr [OF r] aos_slot_repr [OF r] aos_cstr_repr [OF r])
  qed
qed

lemma aos_string_at_repr:
  assumes r: "aos_repr a xs" and ne: "xs \<noteq> []"
  shows "i < length xs \<Longrightarrow> \<exists>p. aos_string_at a i = Some (Some p) \<and> aos_cstr a p = Some (xs ! i)"
    and "length xs \<le> i \<Longrightarrow> aos_string_at a i = Some None"
proof -
  note len = aos_repr_lengths [OF r]
  have "sz_sub (count a) 1 = length xs - 1"
    using len ne aos_repr_limits [OF r] by (simp add: sz_sub_one)
  moreover have "length xs \<le> i \<Longrightarrow> length xs - 1 < i"
    using ne by (cases xs) auto
  ultimately show "i < length xs \<Longrightarrow> \<exists>p. aos_string_at a i = Some (Some p) \<and> aos_cstr a p = Some (xs ! i)"
    and "length xs \<le> i \<Longrightarrow> aos_string_at a i = Some None"
    using aos_slot_repr [OF r] aos_cstr_repr [OF r] by (auto simp: aos_string_at_def)
qed

subsection \<open>Pushes that do not fail\<close>

text \<open>A sufficient bound for every reallocation of a push to stay below \<open>PTRDIFF_MAX\<close>.\<close>

definition aos_fits :: "string list \<Rightarrow> bool" where
  "aos_fits xs \<longleftrightarrow> 16 * length (packed xs) + 1024 \<le> PTRDIFF_MAX"

lemma aos_fits_append: "aos_fits (xs @ ys) \<Longrightarrow> aos_fits xs"
  by (simp add: aos_fits_def)

lemma aos_reserve_strings_succeeds:
  assumes r: "aos_repr a xs" and al: "never_fails al" and fits: "aos_fits xs"
  shows "fst (aos_reserve_strings al a) = ERR_OK"
proof -
  note len = aos_repr_lengths [OF r]
  have le: "16 * count a + 1024 \<le> PTRDIFF_MAX"
    using fits length_packed_ge [of xs] len by (simp add: aos_fits_def)
  have "(if strings_cap a \<noteq> 0 then sz_mul (strings_cap a) 2 else AOS_MAX_STR_COUNT) * PTR_SIZE
      \<le> PTRDIFF_MAX" if "strings_cap a < sz_add (count a) 1"
  proof -
    have "sz_add (count a) 1 = Suc (count a)"
      using le size_limits by (simp add: sz_add_exact)
    with that len have "strings_cap a = count a" by simp
    with le size_limits show ?thesis by (simp add: sz_mul_exact aos_consts)
  qed
  then show ?thesis
    using reallocarray_never_fails [OF al]
    by (fastforce simp: aos_reserve_strings_def Let_def)
qed

lemma aos_reserve_data_succeeds:
  assumes "aos_repr a xs" "never_fails al" "2 * (length (packed xs) + n) + 64 \<le> PTRDIFF_MAX"
  shows "fst (aos_reserve_data al a n) = ERR_OK"
  using assms
proof (induction al a n rule: aos_reserve_data.induct)
  case (1 al a n)
  note len = aos_repr_lengths [OF "1.prems"(1)]
  note unf = aos_reserve_data.simps [of al a n]
  have add: "sz_add (aos_size a) n = aos_size a + n"
    using len size_limits "1.prems"(3) by (simp add: sz_add_exact)
  show ?case
  proof (cases "capacity a < aos_size a + n")
    case False
    with add show ?thesis by (simp add: unf)
  next
    case True
    then have "aos_next_cap a \<le> PTRDIFF_MAX" "capacity a \<le> aos_next_cap a"
      using "1.prems"(3) len size_limits
      by (auto simp: aos_next_cap_def sz_mul_exact aos_consts)
    moreover from this obtain addr where addr: "reallocarray al (aos_next_cap a) 1 = Some addr"
      using reallocarray_never_fails [OF "1.prems"(2), of "aos_next_cap a" 1] by auto
    ultimately have "aos_repr (aos_grow_data a (aos_next_cap a) addr) xs"
      using "1.prems"(1) by (simp add: aos_grow_data_repr)
    then show ?thesis
      using "1.IH" True add addr "1.prems" by (simp add: unf)
  qed
qed

lemma aos_push_succeeds:
  assumes r: "aos_repr a xs" and s: "nul_free s" and al: "never_fails al"
    and fits: "aos_fits (xs @ [s])"
  shows "\<exists>a'. aos_push_string al a s = Some (ERR_OK, a') \<and> aos_repr a' (xs @ [s])"
proof -
  have le: "16 * (length (packed xs) + length s + 1) + 1024 \<le> PTRDIFF_MAX"
    using fits by (simp add: aos_fits_def)
  obtain e1 a1 where 1: "aos_reserve_strings al a = (e1, a1)" by force
  with aos_reserve_strings_succeeds [OF r al aos_fits_append [OF fits]] have "e1 = ERR_OK" by simp
  with aos_reserve_strings_repr [OF r 1] have r1: "aos_repr a1 xs" by auto
  have "fst (aos_reserve_data al a1 (length s + 1)) = ERR_OK"
    using r1 al le by (intro aos_reserve_data_succeeds) auto
  with 1 \<open>e1 = ERR_OK\<close> have "aos_push_string al a s \<noteq> Some (ERR_OUT_OF_MEMORY, b)" for b
    by (auto simp: aos_push_string_def split: prod.splits option.splits if_splits)
  with aos_push_repr [OF r s, of al] le show ?thesis by auto
qed

lemma aos_append_loop_succeeds:
  assumes al: "never_fails al" and r2: "aos_repr a2 ys"
  shows "aos_repr a1 xs \<Longrightarrow> \<forall>i \<in> set is. i < length ys \<Longrightarrow>
    aos_fits (xs @ map ((!) ys) is) \<Longrightarrow>
    \<exists>a'. aos_append_loop al a1 a2 is = Some a' \<and> aos_repr a' (xs @ map ((!) ys) is)"
proof (induction "is" arbitrary: a1 xs)
  case (Cons i "is")
  from Cons.prems have i: "i < length ys" by simp
  have "nul_free (ys ! i)" using r2 i by (simp add: aos_repr_def)
  moreover have "aos_fits (xs @ [ys ! i])"
    using Cons.prems(3) aos_fits_append [of "xs @ [ys ! i]"] by simp
  ultimately obtain a' where a': "aos_push_string al a1 (ys ! i) = Some (ERR_OK, a')"
    "aos_repr a' (xs @ [ys ! i])"
    using aos_push_succeeds [OF Cons.prems(1) _ al] by blast
  with Cons.IH [OF a'(2)] Cons.prems aos_string_repr [OF r2 i] show ?case by simp
qed simp

section \<open>The interface other components rely on\<close>

text \<open>A store of strings: what a client may assume of \<open>aos_push_string\<close> and
  \<open>aos_contains_string\<close>.\<close>

locale string_store =
  fixes repr :: "'s \<Rightarrow> string list \<Rightarrow> bool"
    and push :: "'s \<Rightarrow> string \<Rightarrow> (prong_error \<times> 's) option"
    and contains :: "'s \<Rightarrow> string \<Rightarrow> bool option"
  assumes push_law: "repr s xs \<Longrightarrow> nul_free x \<Longrightarrow> length x < PTRDIFF_MAX \<Longrightarrow>
      (\<exists>s'. push s x = Some (ERR_OK, s') \<and> repr s' (xs @ [x])) \<or>
      (\<exists>s'. push s x = Some (ERR_OUT_OF_MEMORY, s'))"
    and contains_law: "repr s xs \<Longrightarrow> contains s x = Some (x \<in> set xs)"
begin

lemma push_ok:
  "repr s xs \<Longrightarrow> nul_free x \<Longrightarrow> length x < PTRDIFF_MAX \<Longrightarrow> push s x = Some (ERR_OK, s') \<Longrightarrow>
    repr s' (xs @ [x])"
  using push_law by fastforce

text \<open>The guard against visiting a function twice: push only what is not contained.\<close>

lemma guarded_push_distinct:
  assumes "repr s xs" "distinct xs" "nul_free x" "length x < PTRDIFF_MAX"
    and "contains s x = Some False" "push s x = Some (ERR_OK, s')"
  shows "repr s' (xs @ [x]) \<and> distinct (xs @ [x]) \<and> contains s' x = Some True"
proof -
  have "repr s' (xs @ [x])" using assms by (intro push_ok)
  moreover from assms have "x \<notin> set xs" by (simp add: contains_law)
  ultimately show ?thesis using assms(2) by (simp add: contains_law)
qed

end

text \<open>A store that also pops: the call trace of the overlap search.\<close>

locale string_stack = string_store repr push contains
  for repr :: "'s \<Rightarrow> string list \<Rightarrow> bool"
    and push :: "'s \<Rightarrow> string \<Rightarrow> (prong_error \<times> 's) option"
    and contains :: "'s \<Rightarrow> string \<Rightarrow> bool option" +
  fixes pop :: "'s \<Rightarrow> (prong_error \<times> 's) option"
  assumes pop_law: "repr s (xs @ [x]) \<Longrightarrow> \<exists>s'. pop s = Some (ERR_OK, s') \<and> repr s' xs"
    and pop_empty: "repr s [] \<Longrightarrow> pop s = Some (ERR_AOS_EMPTY, s)"
begin

lemma push_pop:
  assumes "repr s xs" "nul_free x" "length x < PTRDIFF_MAX" "push s x = Some (ERR_OK, s')"
  shows "\<exists>s''. pop s' = Some (ERR_OK, s'') \<and> repr s'' xs"
  using push_ok [OF assms] by (rule pop_law)

end

interpretation aos: string_stack aos_repr "aos_push_string al" aos_contains_string aos_pop_string
  for al
  by unfold_locales (simp_all add: aos_push_repr aos_contains_repr aos_pop_repr aos_pop_empty)

section \<open>Properties\<close>

text \<open>C24: pushing onto a well-formed array never touches memory outside its blocks; it ends
  with the string appended (moved buffer and shifted pointers included) or reports
  \<open>ERR_OUT_OF_MEMORY\<close>, and it does append when the allocator serves every request.
\<close>
theorem aos_push_appends:
  assumes "aos_repr a xs" "nul_free s" "length s < PTRDIFF_MAX"
  shows "((\<exists>a'. aos_push_string al a s = Some (ERR_OK, a') \<and> aos_repr a' (xs @ [s])) \<or>
      (\<exists>a'. aos_push_string al a s = Some (ERR_OUT_OF_MEMORY, a'))) \<and>
    (never_fails al \<and> aos_fits (xs @ [s]) \<longrightarrow>
      (\<exists>a'. aos_push_string al a s = Some (ERR_OK, a') \<and> aos_repr a' (xs @ [s])))"
  using aos.push_law [OF assms, of al] aos_push_succeeds [OF assms(1,2), of al] by blast

theorem aos_push_appends_witness:
  "\<exists>a'. aos_push_string (\<lambda>n. Some (int n)) (init_aos 4096) ''foo'' = Some (ERR_OK, a') \<and>
    aos_repr a' [''foo'']"
  using aos_push_appends [OF init_aos_repr, of "''foo''" "\<lambda>n. Some (int n)" 4096]
  by (simp add: NUL_def PTRDIFF_MAX_def never_fails_def aos_fits_def)

text \<open>C25: popping undoes a push: the array holds the strings it held before, whatever
  reallocation the push made.
\<close>
theorem aos_pop_undoes_push:
  assumes "aos_repr a xs" "nul_free s" "length s < PTRDIFF_MAX"
    and "aos_push_string al a s = Some (ERR_OK, a')"
  shows "\<exists>a''. aos_pop_string a' = Some (ERR_OK, a'') \<and> aos_repr a'' xs"
  using assms by (rule aos.push_pop)

theorem aos_pop_undoes_push_witness:
  "\<exists>a' a''. aos_push_string (\<lambda>n. Some (int n)) (init_aos 4096) ''foo'' = Some (ERR_OK, a') \<and>
    aos_pop_string a' = Some (ERR_OK, a'') \<and> aos_repr a'' []"
proof -
  obtain a' where "aos_push_string (\<lambda>n. Some (int n)) (init_aos 4096) ''foo'' = Some (ERR_OK, a')"
    using aos_push_succeeds [OF init_aos_repr, of "''foo''" "\<lambda>n. Some (int n)" 4096]
    by (auto simp: NUL_def PTRDIFF_MAX_def never_fails_def aos_fits_def)
  with aos_pop_undoes_push [OF init_aos_repr _ _ this] show ?thesis
    by (auto simp: NUL_def PTRDIFF_MAX_def)
qed

text \<open>Appending the strings of one array to another works when both hold something and
  the allocator serves every request.
\<close>
theorem aos_append_appends:
  assumes "aos_repr a1 xs" "aos_repr a2 ys" "xs \<noteq> []" "ys \<noteq> []"
    and "never_fails al" "aos_fits (xs @ ys)"
  shows "\<exists>a. aos_append_strings al (Some a1) (Some a2) = Some (ERR_OK, Some a) \<and> aos_repr a (xs @ ys)"
proof -
  have "map ((!) ys) [0..<count a2] = ys"
    using assms(2) by (simp add: aos_repr_lengths map_nth)
  then show ?thesis
    using aos_append_loop_succeeds [OF assms(5,2,1), of "[0..<count a2]"] assms
    by (auto simp: aos_append_strings_def aos_repr_lengths)
qed

lemma one_string_repr: "\<exists>a. aos_repr a [''x'']"
  using aos_push_succeeds [OF init_aos_repr, of "''x''" "\<lambda>n. Some 0" 0]
  by (auto simp: NUL_def PTRDIFF_MAX_def never_fails_def aos_fits_def)

theorem aos_append_appends_witness:
  "\<exists>a1 a. aos_repr a1 [''x''] \<and>
    aos_append_strings (\<lambda>n. Some 0) (Some a1) (Some a1) = Some (ERR_OK, Some a) \<and>
    aos_repr a [''x'', ''x'']"
proof -
  obtain a1 where "aos_repr a1 [''x'']" using one_string_repr by blast
  with aos_append_appends [OF this this, of "\<lambda>n. Some 0"] show ?thesis
    by (auto simp: never_fails_def aos_fits_def PTRDIFF_MAX_def)
qed

text \<open>Appending to an array that holds nothing yet appends nothing: the call returns
  \<open>ERR_INVALID_ARG\<close> and the array is left empty, however many strings the second one
  holds.  (The parsing threads append the compiler arguments of the command line this way,
  to an array that is empty unless a compilation database filled it.)
\<close>
theorem aos_append_to_empty_appends_nothing:
  assumes "aos_repr a1 []"
  shows "aos_append_strings al (Some a1) a2 = Some (ERR_INVALID_ARG, Some a1)"
  using assms by (cases a2) (auto simp: aos_append_strings_def aos_repr_lengths)

theorem aos_append_to_empty_appends_nothing_witness:
  "\<exists>a2. aos_repr a2 [''x''] \<and>
    aos_append_strings (\<lambda>n. Some 0) (Some (init_aos 4096)) (Some a2)
      = Some (ERR_INVALID_ARG, Some (init_aos 4096))"
  using one_string_repr aos_append_to_empty_appends_nothing [OF init_aos_repr] by blast

text \<open>C33: \<open>aos_string_at\<close> returns NULL for every index at or past the count of a non-empty
  array, and a pointer to the right string below it; on a fresh array the test
  \<open>idx > count - 1\<close> wraps around, no index is out of range and the function reads a
  pointer that was never written.
\<close>
theorem aos_string_at_bounds:
  "(aos_repr a xs \<and> xs \<noteq> [] \<and> length xs \<le> i \<longrightarrow> aos_string_at a i = Some None) \<and>
   (aos_repr a xs \<and> i < length xs \<longrightarrow>
      (\<exists>p. aos_string_at a i = Some (Some p) \<and> aos_cstr a p = Some (xs ! i))) \<and>
   (i \<le> SIZE_MAX \<longrightarrow> aos_string_at (init_aos addr) i = None)"
proof -
  have "xs \<noteq> []" if "i < length xs" using that by auto
  then show ?thesis
    using aos_string_at_repr [of a xs i]
    by (auto simp: aos_string_at_def init_aos_def aos_slot_def)
qed

theorem aos_string_at_bounds_witness:
  "\<exists>a p. aos_repr a [''x''] \<and> aos_string_at a 1 = Some None \<and>
    aos_string_at a 0 = Some (Some p) \<and> aos_cstr a p = Some ''x'' \<and>
    aos_string_at (init_aos 4096) 0 = None"
proof -
  obtain a where a: "aos_repr a [''x'']" using one_string_repr by blast
  with aos_string_at_bounds [of a "[''x'']" 1 0] aos_string_at_bounds [of a "[''x'']" 0 4096]
  show ?thesis by auto
qed

end
