(* ===== verification/Dyn_Array.thy ===== *)
theory Dyn_Array
  imports Types
begin

text \<open>
  The growing arrays of structures: \<open>VarAccessArr\<close>, \<open>FuncInfoArr\<close> and
  \<open>CXCursorArr\<close> share one layout (size, capacity, block) and one push (grow by doubling
  when a test says so, store behind the last element) and differ in the test and in the
  size of an element.  Here is the layout, the two steps of a push over an arbitrary test,
  and the contract of a growth test under which a push is memory safe and appends.
\<close>

record 'a c_array =
  arr_size :: nat
  arr_capacity :: nat
  arr_data :: "'a option list"

text \<open>The elements below \<open>arr_size\<close>.\<close>

definition arr_elems :: "'a c_array \<Rightarrow> 'a option list" where
  "arr_elems arr = take (arr_size arr) (arr_data arr)"

definition arr_contents :: "'a c_array \<Rightarrow> 'a list" where
  "arr_contents arr = map the (arr_elems arr)"

text \<open>\<open>arr->capacity *= 2; arr->data = reallocarray(arr->data, arr->capacity, elem)\<close>: the
  result is not tested, NULL has no slots.\<close>

definition arr_double :: "nat \<Rightarrow> allocator \<Rightarrow> 'a c_array \<Rightarrow> 'a c_array" where
  "arr_double elem al arr =
     (let cap = sz_mul (arr_capacity arr) 2
      in arr\<lparr>arr_capacity := cap,
             arr_data := (case reallocarray al cap elem of
                 None \<Rightarrow> []
               | Some _ \<Rightarrow> take cap (arr_data arr) @ replicate (cap - length (arr_data arr)) None)\<rparr>)"

text \<open>\<open>arr->data[arr->size] = x; arr->size++\<close>.\<close>

definition arr_store :: "'a c_array \<Rightarrow> 'a \<Rightarrow> 'a c_array option" where
  "arr_store arr x =
     (if arr_size arr < length (arr_data arr)
      then Some (arr\<lparr>arr_data := (arr_data arr)[arr_size arr := Some x],
                     arr_size := sz_add (arr_size arr) 1\<rparr>)
      else None)"

definition arr_push :: "(nat \<Rightarrow> nat \<Rightarrow> bool) \<Rightarrow> nat \<Rightarrow> allocator \<Rightarrow> 'a c_array \<Rightarrow> 'a \<Rightarrow> 'a c_array option" where
  "arr_push full elem al arr x =
     arr_store (if full (arr_size arr) (arr_capacity arr) then arr_double elem al arr else arr) x"

text \<open>A series of pushes.\<close>

fun push_list :: "('s \<Rightarrow> 'a \<Rightarrow> 's option) \<Rightarrow> 's \<Rightarrow> 'a list \<Rightarrow> 's option" where
  "push_list psh s [] = Some s"
| "push_list psh s (x # xs) = Option.bind (psh s x) (\<lambda>s'. push_list psh s' xs)"

text \<open>Sizes far beyond what any input reaches, for which no byte count wraps.\<close>

definition ARR_LIMIT :: nat where
  "ARR_LIMIT = 2 ^ 40"

text \<open>
  The contract of a growth test \<open>full size capacity\<close> with element size \<open>elem\<close>: when it
  does not ask for room there is room, and it asks only for arrays whose capacity is below
  a fixed multiple \<open>factor\<close> of the size.
\<close>

locale growth_test =
  fixes full :: "nat \<Rightarrow> nat \<Rightarrow> bool" and elem :: nat and factor :: nat
  assumes room: "s < ARR_LIMIT \<Longrightarrow> 0 < c \<Longrightarrow> c < SIZE_LIMIT \<Longrightarrow> \<not> full s c \<Longrightarrow> s < c"
    and lazy: "s < ARR_LIMIT \<Longrightarrow> 0 < c \<Longrightarrow> c < SIZE_LIMIT \<Longrightarrow> full s c \<Longrightarrow> c \<le> factor * Suc s"
    and sizes: "0 < elem" "elem \<le> 128" "factor \<le> 128"
begin

text \<open>Every slot the test can promise exists, and every element below the size is set.\<close>

definition ok :: "'a c_array \<Rightarrow> bool" where
  "ok arr \<longleftrightarrow> arr_size arr \<le> length (arr_data arr) \<and> None \<notin> set (arr_elems arr) \<and>
     0 < arr_capacity arr \<and> arr_capacity arr < SIZE_LIMIT \<and>
     arr_size arr \<le> arr_capacity arr \<and> length (arr_data arr) \<le> arr_capacity arr \<and>
     (\<forall>s < ARR_LIMIT. \<not> full s (arr_capacity arr) \<longrightarrow> s < length (arr_data arr))"

lemma double_ok:
  assumes ok: "ok arr" and lim: "arr_size arr < ARR_LIMIT"
    and full: "full (arr_size arr) (arr_capacity arr)" and al: "never_fails al"
  shows "ok (arr_double elem al arr) \<and> arr_size arr < length (arr_data (arr_double elem al arr)) \<and>
    arr_elems (arr_double elem al arr) = arr_elems arr \<and>
    arr_size (arr_double elem al arr) = arr_size arr"
proof -
  let ?c = "arr_capacity arr"
  have le: "?c \<le> factor * Suc (arr_size arr)"
    using ok lim full by (intro lazy) (auto simp: ok_def)
  also have "\<dots> \<le> 128 * 2 ^ 40"
    using lim sizes by (intro mult_le_mono) (auto simp: ARR_LIMIT_def)
  finally have c: "?c \<le> 128 * 2 ^ 40" .
  then have exact: "sz_mul ?c 2 = ?c * 2" by (simp add: sz_mul_exact SIZE_LIMIT_def)
  have "?c * 2 * elem \<le> (128 * 2 ^ 40) * 2 * 128"
    using c sizes by (intro mult_le_mono) auto
  also have "\<dots> \<le> PTRDIFF_MAX" by (simp add: PTRDIFF_MAX_def)
  finally have "?c * 2 * elem \<le> PTRDIFF_MAX" .
  then obtain b where b: "reallocarray al (?c * 2) elem = Some b"
    using reallocarray_never_fails [OF al] by blast
  have pos: "0 < ?c" "arr_size arr \<le> length (arr_data arr)" "length (arr_data arr) \<le> ?c"
    "arr_size arr \<le> ?c" "None \<notin> set (arr_elems arr)"
    using ok by (auto simp: ok_def)
  have below: "0 < ?c * 2" "?c * 2 < SIZE_LIMIT"
    using pos c by (auto simp: SIZE_LIMIT_def)
  have "s < ?c * 2" if "s < ARR_LIMIT" "\<not> full s (?c * 2)" for s
    using room [OF that(1) below that(2)] .
  moreover have "arr_double elem al arr = arr\<lparr>arr_capacity := ?c * 2,
      arr_data := arr_data arr @ replicate (?c * 2 - length (arr_data arr)) None\<rparr>"
    using b exact pos by (simp add: arr_double_def Let_def)
  ultimately show ?thesis
    using pos below by (simp add: ok_def arr_elems_def)
qed

lemma store_ok:
  assumes "ok arr" "arr_size arr < ARR_LIMIT" "arr_size arr < length (arr_data arr)"
  shows "\<exists>arr'. arr_store arr x = Some arr' \<and> ok arr' \<and>
    arr_elems arr' = arr_elems arr @ [Some x] \<and> arr_size arr' = Suc (arr_size arr)"
proof -
  have "sz_add (arr_size arr) 1 = Suc (arr_size arr)"
    using assms(2) by (simp add: sz_add_exact SIZE_LIMIT_def ARR_LIMIT_def)
  with assms show ?thesis
    by (auto simp: arr_store_def ok_def arr_elems_def take_Suc_conv_app_nth)
qed

lemma push_ok:
  assumes "ok arr" "arr_size arr < ARR_LIMIT" "never_fails al"
  shows "\<exists>arr'. arr_push full elem al arr x = Some arr' \<and> ok arr' \<and>
    arr_contents arr' = arr_contents arr @ [x] \<and> arr_size arr' = Suc (arr_size arr)"
proof (cases "full (arr_size arr) (arr_capacity arr)")
  case True
  with double_ok [OF assms(1,2) True assms(3)] store_ok [of "arr_double elem al arr" x] assms(2)
  show ?thesis by (auto simp: arr_push_def arr_contents_def)
next
  case False
  with assms have "arr_size arr < length (arr_data arr)" by (simp add: ok_def)
  with False store_ok [OF assms(1,2), of x] show ?thesis
    by (auto simp: arr_push_def arr_contents_def)
qed

lemma push_list_ok:
  "ok arr \<Longrightarrow> arr_size arr + length xs \<le> ARR_LIMIT \<Longrightarrow> never_fails al \<Longrightarrow>
    \<exists>arr'. push_list (arr_push full elem al) arr xs = Some arr' \<and> ok arr' \<and>
      arr_contents arr' = arr_contents arr @ xs"
proof (induction xs arbitrary: arr)
  case (Cons x xs)
  then obtain arr1 where 1: "arr_push full elem al arr x = Some arr1" "ok arr1"
    "arr_contents arr1 = arr_contents arr @ [x]" "arr_size arr1 = Suc (arr_size arr)"
    using push_ok [of arr al x] by auto
  with Cons.IH [OF 1(2)] Cons.prems show ?case by simp
qed simp

end

end
