(* ===== verification/Var_Access.thy ===== *)
theory Var_Access
  imports Dyn_Array
begin

text \<open>
  Variable accesses (\<open>src/var_access.c\<close>): construction with its duplicated strings, the
  growing array of accesses, the comparisons, the placeholder test, freeing and printing.
  The heap of duplicated strings is a counter of the next unused block.
\<close>

section \<open>Construction\<close>

text \<open>A \<open>VarAccess_Call\<close> stores the callee's USR and spelling as its own USR and name:
  the same blocks, not copies.\<close>

definition init_var_access ::
  "nat \<Rightarrow> string option \<Rightarrow> string option \<Rightarrow> string option \<Rightarrow> string option \<Rightarrow> char_ptr \<Rightarrow>
   nat \<Rightarrow> nat \<Rightarrow> nat \<Rightarrow> var_access_type \<Rightarrow> bool \<Rightarrow> var_access \<times> nat" where
  "init_var_access h usr name esc_func_spelling esc_func_usr parent_func_name
     esc_param_idx line column type is_ptr_type =
     (let (usr_p, h1) = strdup_opt h usr;
          (name_p, h2) = strdup_opt h1 name;
          (esc_usr_p, h3) = strdup_opt h2 esc_func_usr;
          (esc_spelling_p, h4) = strdup_opt h3 esc_func_spelling
      in (\<lparr>va_usr = (if type = VarAccess_Call then esc_usr_p else usr_p),
           va_name = (if type = VarAccess_Call then esc_spelling_p else name_p),
           va_parent_func_name = parent_func_name,
           va_esc_func_spelling = esc_spelling_p,
           va_esc_func_usr = esc_usr_p,
           va_esc_param_idx = esc_param_idx,
           va_line = line, va_column = column,
           va_type = type, va_is_ptr_type = is_ptr_type\<rparr>, h4))"

text \<open>The blocks \<open>free_var_access\<close> frees; \<open>None\<close> when it frees one twice.\<close>

definition free_var_access :: "var_access \<Rightarrow> nat list option" where
  "free_var_access va =
     (let blocks = List.map_filter (map_option cstr_addr) [va_usr va, va_name va, va_esc_func_usr va]
      in if distinct blocks then Some blocks else None)"

section \<open>The growing array\<close>

definition VAR_ACC_ARR_INIT_CAP :: nat where
  "VAR_ACC_ARR_INIT_CAP = 8"

text \<open>\<open>sizeof(VarAccess)\<close>: five pointers, four 32-bit fields and a padded \<open>bool\<close>.\<close>

definition SIZEOF_VAR_ACCESS :: nat where
  "SIZEOF_VAR_ACCESS = 64"

definition init_var_access_array :: "var_access c_array" where
  "init_var_access_array =
     \<lparr>arr_size = 0, arr_capacity = VAR_ACC_ARR_INIT_CAP,
      arr_data = replicate VAR_ACC_ARR_INIT_CAP None\<rparr>"

definition push_var_access_full :: "nat \<Rightarrow> nat \<Rightarrow> bool" where
  "push_var_access_full sz capacity \<longleftrightarrow> sz_sub capacity 1 \<le> sz"

definition push_var_access ::
  "allocator \<Rightarrow> nat \<Rightarrow> var_access c_array \<Rightarrow> string option \<Rightarrow> string option \<Rightarrow> string option \<Rightarrow>
   string option \<Rightarrow> char_ptr \<Rightarrow> nat \<Rightarrow> nat \<Rightarrow> nat \<Rightarrow> var_access_type \<Rightarrow> bool \<Rightarrow>
   (var_access c_array \<times> nat) option" where
  "push_var_access al h arr usr name esc_func_spelling esc_func_usr parent_func_name
     esc_param_idx line column type is_ptr_type =
     (let (va, h') = init_var_access h usr name esc_func_spelling esc_func_usr parent_func_name
                       esc_param_idx line column type is_ptr_type
      in map_option (\<lambda>arr'. (arr', h'))
           (arr_push push_var_access_full SIZEOF_VAR_ACCESS al arr va))"

text \<open>The test of \<open>push_access_copy\<close> compares a number of bytes with a number of elements.\<close>

definition push_access_copy_full :: "nat \<Rightarrow> nat \<Rightarrow> bool" where
  "push_access_copy_full sz capacity \<longleftrightarrow> capacity < sz_mul (sz_add sz 1) SIZEOF_VAR_ACCESS"

definition push_access_copy ::
  "allocator \<Rightarrow> var_access c_array \<Rightarrow> var_access \<Rightarrow> var_access c_array option" where
  "push_access_copy al arr va = arr_push push_access_copy_full SIZEOF_VAR_ACCESS al arr va"

interpretation var_access_arr: growth_test push_var_access_full SIZEOF_VAR_ACCESS 1
  by unfold_locales
    (auto simp: push_var_access_full_def SIZEOF_VAR_ACCESS_def sz_sub_one)

lemma byte_test_exact:
  "s < ARR_LIMIT \<Longrightarrow> e \<le> 128 \<Longrightarrow> sz_mul (sz_add s 1) e = Suc s * e"
proof -
  assume "s < ARR_LIMIT" "e \<le> 128"
  then have "Suc s * e \<le> 2 ^ 40 * 128" by (intro mult_le_mono) (auto simp: ARR_LIMIT_def)
  also have "\<dots> < SIZE_LIMIT" by (simp add: SIZE_LIMIT_def)
  finally have "Suc s * e < SIZE_LIMIT" .
  moreover have "sz_add s 1 = Suc s"
    using \<open>s < ARR_LIMIT\<close> by (simp add: sz_add_exact ARR_LIMIT_def SIZE_LIMIT_def)
  ultimately show ?thesis by (simp add: sz_mul_exact)
qed

lemmas byte_test = byte_test_exact byte_test_exact [unfolded One_nat_def]

interpretation access_copy_arr: growth_test push_access_copy_full SIZEOF_VAR_ACCESS SIZEOF_VAR_ACCESS
  by unfold_locales (auto simp: push_access_copy_full_def SIZEOF_VAR_ACCESS_def byte_test)

section \<open>Comparisons\<close>

definition equal_var_accesses :: "var_access \<Rightarrow> var_access \<Rightarrow> bool option" where
  "equal_var_accesses va_a va_b = strcmp_eq (va_usr va_a) (va_usr va_b)"

text \<open>\<open>memcmp\<close> of two structures: pointer fields compare by address.\<close>

definition equal_var_access_structs :: "var_access \<Rightarrow> var_access \<Rightarrow> bool" where
  "equal_var_access_structs va_a va_b \<longleftrightarrow>
     same_ptr (va_usr va_a) (va_usr va_b) \<and>
     same_ptr (va_name va_a) (va_name va_b) \<and>
     same_ptr (va_parent_func_name va_a) (va_parent_func_name va_b) \<and>
     same_ptr (va_esc_func_spelling va_a) (va_esc_func_spelling va_b) \<and>
     same_ptr (va_esc_func_usr va_a) (va_esc_func_usr va_b) \<and>
     va_esc_param_idx va_a = va_esc_param_idx va_b \<and>
     va_line va_a = va_line va_b \<and> va_column va_a = va_column va_b \<and>
     va_type va_a = va_type va_b \<and> va_is_ptr_type va_a = va_is_ptr_type va_b"

definition va_array_contains :: "var_access list \<Rightarrow> var_access \<Rightarrow> bool" where
  "va_array_contains arr va \<longleftrightarrow> list_ex (\<lambda>w. equal_var_access_structs w va) arr"

definition va_is_placeholder_type :: "var_access_type \<Rightarrow> bool" where
  "va_is_placeholder_type t \<longleftrightarrow>
     t = VarAccess_Null \<or> VarAccess_Call \<le> t \<and> t \<le> VarAccess_EndIf"

lemma placeholder_cases:
  "va_is_placeholder_type t \<longleftrightarrow> t \<in> {VarAccess_Null, VarAccess_Call, VarAccess_IfStmt,
     VarAccess_ThenBlock, VarAccess_ElseStmt, VarAccess_EndIf}"
  by (cases t) (auto simp: va_is_placeholder_type_def less_eq_var_access_type_def)

lemma placeholder_simps [simp]:
  "va_is_placeholder_type VarAccess_Null" "va_is_placeholder_type VarAccess_Call"
  "va_is_placeholder_type VarAccess_IfStmt" "va_is_placeholder_type VarAccess_ThenBlock"
  "va_is_placeholder_type VarAccess_ElseStmt" "va_is_placeholder_type VarAccess_EndIf"
  "\<not> va_is_placeholder_type VarAccess_Read" "\<not> va_is_placeholder_type VarAccess_Write"
  "\<not> va_is_placeholder_type VarAccess_PtrRead" "\<not> va_is_placeholder_type VarAccess_PtrWrite"
  "\<not> va_is_placeholder_type VarAccess_Escape" "\<not> va_is_placeholder_type VarAccess_LockAcquire"
  "\<not> va_is_placeholder_type VarAccess_LockRelease"
  by (simp_all add: placeholder_cases)

section \<open>Printing\<close>

definition show_ptr :: "char_ptr \<Rightarrow> string" where
  "show_ptr p = (case p of None \<Rightarrow> ''(null)'' | Some c \<Rightarrow> cstr_chars c)"

text \<open>\<open>\<percent>d\<close> of an unsigned number reads its 32 bits as signed.\<close>

definition show_int32 :: "nat \<Rightarrow> string" where
  "show_int32 n = (let m = n mod 4294967296
     in if m < 2147483648 then show_nat m else CHR ''-'' # show_nat (4294967296 - m))"

fun show_va_type :: "var_access_type \<Rightarrow> string" where
  "show_va_type VarAccess_Read = ''read''"
| "show_va_type VarAccess_Write = ''write''"
| "show_va_type VarAccess_PtrRead = ''read from memory location''"
| "show_va_type VarAccess_PtrWrite = ''write to memory location''"
| "show_va_type VarAccess_Escape = ''passed to function as parameter''"
| "show_va_type VarAccess_LockAcquire = ''acquire lock''"
| "show_va_type VarAccess_LockRelease = ''release lock''"
| "show_va_type VarAccess_Call = ''function call''"
| "show_va_type VarAccess_IfStmt = ''if statement''"
| "show_va_type VarAccess_ElseStmt = ''else statement''"
| "show_va_type VarAccess_EndIf = ''endif''"
| "show_va_type VarAccess_Null = ''NULL''"
| "show_va_type _ = ''''"

definition NL :: string where
  "NL = [CHR 0x0A]"

definition print_var_access :: "var_access \<Rightarrow> nat \<Rightarrow> string" where
  "print_var_access va indentation =
     (let pad = replicate (indentation * 3) (CHR '' '')
      in pad @ ''|_Variable access: '' @ NL
         @ pad @ ''|   name: '' @ show_ptr (va_name va) @ NL
         @ pad @ ''|   usr: '' @ show_ptr (va_usr va) @ NL
         @ pad @ ''|   line: '' @ show_int32 (va_line va) @ NL
         @ pad @ ''|   col: '' @ show_int32 (va_column va) @ NL
         @ pad @ ''|   type: '' @ show_va_type (va_type va) @ NL
         @ (if va_esc_func_spelling va \<noteq> None
            then pad @ ''|   esc func usr: '' @ show_ptr (va_esc_func_spelling va) @ NL else '''')
         @ (if va_esc_param_idx va \<noteq> NO_IDX
            then pad @ ''|   esc param idx: '' @ show_nat (va_esc_param_idx va) @ NL else '''')
         @ (if va_is_ptr_type va then pad @ ''|   *is pointer'' @ NL
            else pad @ ''|   *not pointer'' @ NL))"

definition print_var_access_array :: "var_access list \<Rightarrow> nat \<Rightarrow> string" where
  "print_var_access_array arr indentation = concat (map (\<lambda>va. print_var_access va indentation) arr)"

section \<open>Lemmas\<close>

lemma init_va_array_ok:
  "var_access_arr.ok init_var_access_array" "access_copy_arr.ok init_var_access_array"
  "arr_contents init_var_access_array = []"
  by (auto simp: var_access_arr.ok_def access_copy_arr.ok_def init_var_access_array_def arr_elems_def
      arr_contents_def VAR_ACC_ARR_INIT_CAP_def SIZE_LIMIT_def push_var_access_full_def
      push_access_copy_full_def sz_sub_one SIZEOF_VAR_ACCESS_def byte_test)

lemma equal_structs_refl [simp]: "equal_var_access_structs va va"
  by (simp add: equal_var_access_structs_def same_ptr_def)

lemma strdup_opt_Some: "strdup_opt h (Some s) = (Some (CStr h s), Suc h)"
  by simp

text \<open>Two accesses built by two calls, the first with a USR, never compare equal as
  structures: their USR blocks differ.\<close>

lemma init_structs_differ:
  assumes "init_var_access h (Some u) n es eu pf i l c t p = (va1, h1)" "t \<noteq> VarAccess_Call"
    and "init_var_access h1 u2 n2 es2 eu2 pf2 i2 l2 c2 t2 p2 = (va2, h2)"
  shows "\<not> equal_var_access_structs va1 va2"
proof -
  have "va_usr va1 = Some (CStr h u)" "h < h1"
    using assms(1,2)
    by (cases n; cases es; cases eu; auto simp: init_var_access_def Let_def split_def)+
  moreover have "va_usr va2 = None \<or> (\<exists>q. va_usr va2 = Some q \<and> h1 \<le> cstr_addr q)"
    using assms(3)
    by (cases u2; cases n2; cases es2; cases eu2;
        auto simp: init_var_access_def Let_def split_def split: if_splits)
  ultimately show ?thesis
    by (auto simp: equal_var_access_structs_def same_ptr_def)
qed

end
