(* ===== verification/Func_Info.thy ===== *)
theory Func_Info
  imports Dyn_Aos Var_Access
begin

text \<open>
  Function records (\<open>src/func_info.c\<close>, \<open>struct FuncInfo\<close> of \<open>inc/types.h\<close>): the tree of
  functions and callees the traversal collects, its growing arrays, lookup and printing.

  From here on a \<open>DynamicAOS\<close> is its abstract value, the list of its strings, and a
  \<open>VarAccessArr\<close> the list of its elements: the theories of the two containers show that
  their operations implement these.  What an operation does outside its domain is kept:
  \<open>None\<close> stands for a read of memory nobody wrote.
\<close>

section \<open>The abstract containers\<close>

text \<open>\<open>aos_string_at\<close>: \<open>Some None\<close> is NULL; in an empty array every index passes the
  bounds test and the slot read was never written.\<close>

definition strs_at :: "string list \<Rightarrow> nat \<Rightarrow> string option option" where
  "strs_at xs i =
     (if xs = [] then None else if i < length xs then Some (Some (xs ! i)) else Some None)"

text \<open>\<open>aos_contains_string\<close>: a NULL needle is compared with the first element.\<close>

definition strs_contains :: "string list \<Rightarrow> char_ptr \<Rightarrow> bool option" where
  "strs_contains xs p =
     (if xs = [] then Some False else map_option (\<lambda>c. cstr_chars c \<in> set xs) p)"

definition strs_print :: "string list \<Rightarrow> string" where
  "strs_print xs =
     (if xs = [] then ''[ empty ]''
      else ''[ '' @ concat (map (\<lambda>s. [CHR 0x22] @ s @ [CHR 0x22] @ '', '') xs) @ '']'')"

text \<open>The concrete operations agree with the abstract ones.\<close>

lemma strs_at_refines:
  "aos_repr a xs \<Longrightarrow> strs_at xs i = Some r \<Longrightarrow>
    \<exists>p. aos_string_at a i = Some p \<and> (case p of None \<Rightarrow> r = None | Some q \<Rightarrow> aos_cstr a q = r \<and> r \<noteq> None)"
  using aos_string_at_repr [of a xs i] by (auto simp: strs_at_def split: if_splits)

lemma strs_contains_refines:
  "aos_repr a xs \<Longrightarrow> strs_contains xs (Some p) = aos_contains_string a (cstr_chars p)"
  by (simp add: strs_contains_def aos_contains_repr)

lemma strs_print_refines:
  assumes "aos_repr a xs"
  shows "aos_print_strings a = Some (strs_print xs)"
proof -
  have "aos_print_loop a is = Some (concat (map (\<lambda>s. [CHR 0x22] @ s @ [CHR 0x22] @ '', '') (map ((!) xs) is)))"
    if "\<forall>i \<in> set is. i < length xs" for "is"
    using that by (induction "is") (auto simp: aos_string_repr [OF assms])
  from this [of "[0..<length xs]"] show ?thesis
    using aos_repr_lengths [OF assms] by (simp add: aos_print_strings_def strs_print_def map_nth)
qed

section \<open>The record\<close>

text \<open>Records cannot be recursive, so the structure is a datatype with the fields as
  selectors.  The cursor is the analysed compiler's; it is zeroed when none is given.\<close>

datatype 'c func_info = FuncInfo
  (fi_cursor: "'c option")
  (fi_usr: char_ptr)
  (fi_name: char_ptr)
  (fi_spelling: char_ptr)
  (fi_params: "string list")
  (fi_locals: "string list")
  (fi_access_footprint: "var_access list option")
  (fi_callees: "'c func_info list option")
  (fi_var_accesses: "var_access list option")
  (fi_in_system_header: bool)
  (fi_has_definition: bool)

lemma callee_size [termination_simp]:
  "fi_callees f = Some cs \<Longrightarrow> g \<in> set cs \<Longrightarrow> size g < size f"
proof (cases f)
  case (FuncInfo c u n s p l fp callees vas h d)
  moreover assume "fi_callees f = Some cs" "g \<in> set cs"
  moreover have "size g < Suc (size_list size cs)"
    using size_list_estimation' [OF \<open>g \<in> set cs\<close>, of "size g" size] by simp
  ultimately show ?thesis by simp
qed

lemma callee_nth_size [termination_simp]:
  "fi_callees f = Some cs \<Longrightarrow> i < length cs \<Longrightarrow> size (cs ! i) < size f"
  by (simp add: callee_size)

lemma func_info_tree_induct [case_names Node]:
  assumes "\<And>f. (\<And>cs g. fi_callees f = Some cs \<Longrightarrow> g \<in> set cs \<Longrightarrow> P g) \<Longrightarrow> P f"
  shows "P f"
proof (induction f rule: measure_induct_rule [where f = size])
  case (less f)
  with callee_size show ?case by (blast intro: assms)
qed

definition set_var_accesses :: "var_access list option \<Rightarrow> 'c func_info \<Rightarrow> 'c func_info" where
  "set_var_accesses vas f = FuncInfo (fi_cursor f) (fi_usr f) (fi_name f) (fi_spelling f) (fi_params f)
     (fi_locals f) (fi_access_footprint f) (fi_callees f) vas (fi_in_system_header f) (fi_has_definition f)"

definition set_callees :: "'c func_info list option \<Rightarrow> 'c func_info \<Rightarrow> 'c func_info" where
  "set_callees cs f = FuncInfo (fi_cursor f) (fi_usr f) (fi_name f) (fi_spelling f) (fi_params f)
     (fi_locals f) (fi_access_footprint f) cs (fi_var_accesses f) (fi_in_system_header f) (fi_has_definition f)"

definition set_access_footprint :: "var_access list option \<Rightarrow> 'c func_info \<Rightarrow> 'c func_info" where
  "set_access_footprint fp f = FuncInfo (fi_cursor f) (fi_usr f) (fi_name f) (fi_spelling f) (fi_params f)
     (fi_locals f) fp (fi_callees f) (fi_var_accesses f) (fi_in_system_header f) (fi_has_definition f)"

definition add_param :: "string \<Rightarrow> 'c func_info \<Rightarrow> 'c func_info" where
  "add_param u f = FuncInfo (fi_cursor f) (fi_usr f) (fi_name f) (fi_spelling f) (fi_params f @ [u])
     (fi_locals f) (fi_access_footprint f) (fi_callees f) (fi_var_accesses f) (fi_in_system_header f) (fi_has_definition f)"

definition add_local :: "string \<Rightarrow> 'c func_info \<Rightarrow> 'c func_info" where
  "add_local u f = FuncInfo (fi_cursor f) (fi_usr f) (fi_name f) (fi_spelling f) (fi_params f)
     (fi_locals f @ [u]) (fi_access_footprint f) (fi_callees f) (fi_var_accesses f) (fi_in_system_header f) (fi_has_definition f)"

lemma func_info_sel [simp]:
  "fi_cursor (set_var_accesses vas f) = fi_cursor f" "fi_name (set_var_accesses vas f) = fi_name f"
  "fi_params (set_var_accesses vas f) = fi_params f" "fi_locals (set_var_accesses vas f) = fi_locals f"
  "fi_callees (set_var_accesses vas f) = fi_callees f" "fi_var_accesses (set_var_accesses vas f) = vas"
  "fi_in_system_header (set_var_accesses vas f) = fi_in_system_header f"
  "fi_has_definition (set_var_accesses vas f) = fi_has_definition f"
  "fi_cursor (set_callees cs f) = fi_cursor f" "fi_name (set_callees cs f) = fi_name f"
  "fi_params (set_callees cs f) = fi_params f" "fi_locals (set_callees cs f) = fi_locals f"
  "fi_callees (set_callees cs f) = cs" "fi_var_accesses (set_callees cs f) = fi_var_accesses f"
  "fi_in_system_header (set_callees cs f) = fi_in_system_header f"
  "fi_has_definition (set_callees cs f) = fi_has_definition f"
  by (simp_all add: set_var_accesses_def set_callees_def)

lemma func_info_sel_other [simp]:
  "fi_params (add_param u f) = fi_params f @ [u]" "fi_locals (add_param u f) = fi_locals f"
  "fi_params (add_local u f) = fi_params f" "fi_locals (add_local u f) = fi_locals f @ [u]"
  "fi_callees (add_param u f) = fi_callees f" "fi_callees (add_local u f) = fi_callees f"
  "fi_callees (set_access_footprint fp f) = fi_callees f" "fi_access_footprint (set_access_footprint fp f) = fp"
  "fi_var_accesses (add_param u f) = fi_var_accesses f" "fi_var_accesses (add_local u f) = fi_var_accesses f"
  by (simp_all add: add_param_def add_local_def set_access_footprint_def)

section \<open>Construction\<close>

text \<open>\<open>func_info_is_null\<close> compares with the address of one zeroed record: a pointer to a
  function record is \<open>None\<close> for that address.\<close>

definition init_func_info ::
  "nat \<Rightarrow> 'c option \<Rightarrow> string option \<Rightarrow> string option \<Rightarrow> string option \<Rightarrow> bool \<Rightarrow> bool \<Rightarrow>
   'c func_info \<times> nat" where
  "init_func_info h cursor usr elem_name spelling in_system_header has_definition =
     (let (usr_p, h1) = strdup_opt h usr;
          (name_p, h2) = strdup_opt h1 elem_name;
          (spelling_p, h3) = strdup_opt h2 spelling
      in (FuncInfo cursor usr_p name_p spelling_p [] [] None None None
            in_system_header has_definition, h3))"

definition get_null_func_info :: "'c func_info option" where
  "get_null_func_info = None"

definition func_info_is_null :: "'c func_info option \<Rightarrow> bool" where
  "func_info_is_null f \<longleftrightarrow> f = get_null_func_info"

definition FUNC_INFO_INIT_CAP :: nat where
  "FUNC_INFO_INIT_CAP = 8"

text \<open>\<open>sizeof(FuncInfo)\<close>: a cursor of 32 bytes, eight pointers and two padded \<open>bool\<close>s.\<close>

definition SIZEOF_FUNC_INFO :: nat where
  "SIZEOF_FUNC_INFO = 104"

definition init_func_info_array :: "'c func_info c_array" where
  "init_func_info_array =
     \<lparr>arr_size = 0, arr_capacity = FUNC_INFO_INIT_CAP, arr_data = replicate FUNC_INFO_INIT_CAP None\<rparr>"

text \<open>The test compares a number of bytes with a number of elements.\<close>

definition push_func_info_full :: "nat \<Rightarrow> nat \<Rightarrow> bool" where
  "push_func_info_full sz cap \<longleftrightarrow> cap < sz_mul (sz_add sz 1) SIZEOF_FUNC_INFO"

definition push_func_info ::
  "allocator \<Rightarrow> nat \<Rightarrow> 'c func_info c_array \<Rightarrow> 'c option \<Rightarrow> string option \<Rightarrow> string option \<Rightarrow>
   string option \<Rightarrow> bool \<Rightarrow> bool \<Rightarrow> ('c func_info c_array \<times> nat) option" where
  "push_func_info al h arr cursor usr elem_name spelling in_system_header has_definition =
     (let (f, h') = init_func_info h cursor usr elem_name spelling in_system_header has_definition
      in map_option (\<lambda>arr'. (arr', h')) (arr_push push_func_info_full SIZEOF_FUNC_INFO al arr f))"

interpretation func_info_arr: growth_test push_func_info_full SIZEOF_FUNC_INFO SIZEOF_FUNC_INFO
  by unfold_locales (auto simp: push_func_info_full_def SIZEOF_FUNC_INFO_def byte_test)

lemma init_func_info_array_ok:
  "func_info_arr.ok init_func_info_array" "arr_contents init_func_info_array = []"
  "arr_size init_func_info_array = 0"
  by (auto simp: func_info_arr.ok_def init_func_info_array_def arr_elems_def arr_contents_def
      FUNC_INFO_INIT_CAP_def SIZE_LIMIT_def push_func_info_full_def SIZEOF_FUNC_INFO_def byte_test)

section \<open>Lookup\<close>

text \<open>\<open>None\<close> when a NULL USR is compared, \<open>Some None\<close> is NULL; otherwise the index of the
  first function with the USR.\<close>

fun get_func_info_by_usr :: "'c func_info list \<Rightarrow> string \<Rightarrow> nat option option" where
  "get_func_info_by_usr [] usr = Some None"
| "get_func_info_by_usr (f # fs) usr =
     (case fi_usr f of
        None \<Rightarrow> None
      | Some u \<Rightarrow> if cstr_chars u = usr then Some (Some 0)
                  else map_option (map_option Suc) (get_func_info_by_usr fs usr))"

definition func_info_array_head :: "'c func_info c_array \<Rightarrow> 'c func_info option" where
  "func_info_array_head arr = (if 0 < length (arr_data arr) then arr_data arr ! 0 else None)"

definition func_info_array_tail :: "'c func_info c_array \<Rightarrow> 'c func_info option" where
  "func_info_array_tail arr =
     (let tail_idx = sz_sub (arr_size arr) 1
      in if tail_idx < length (arr_data arr) then arr_data arr ! tail_idx else None)"

section \<open>Printing\<close>

definition print_func_info :: "'c func_info \<Rightarrow> nat \<Rightarrow> string" where
  "print_func_info f indentation =
     (let pad = replicate (indentation * 3) (CHR '' '')
      in ''Func info '' @ [CHR 0x22] @ show_ptr (fi_name f) @ [CHR 0x22] @ '':'' @ NL
         @ pad @ ''|_ USR: '' @ show_ptr (fi_usr f) @ NL
         @ pad @ ''|_ parameters: '' @ strs_print (fi_params f) @ NL
         @ pad @ ''|_ local vars: '' @ strs_print (fi_locals f) @ NL
         @ pad @ ''|_ has definition: '' @ (if fi_has_definition f then ''true'' else ''false'') @ NL
         @ (if fi_in_system_header f then pad @ ''|_ is in system header: true'' @ NL
            else pad @ ''|_ is in system header: false'' @ NL
              @ (case fi_var_accesses f of None \<Rightarrow> '''' | Some vas \<Rightarrow> print_var_access_array vas indentation)
              @ (if fi_callees f \<noteq> None then pad @ ''|_ has callees: true'' @ NL @ pad @ ''|_ ''
                 else pad @ ''|_ has callees: false'' @ NL)))"

function print_func_info_array :: "'c func_info list \<Rightarrow> nat \<Rightarrow> string" where
  "print_func_info_array [] depth = ''''"
| "print_func_info_array (f # fs) depth =
     print_func_info f depth
     @ (case fi_callees f of None \<Rightarrow> '''' | Some cs \<Rightarrow> print_func_info_array cs (depth + 1))
     @ print_func_info_array fs depth"
  by pat_completeness auto
termination
proof (relation "measure (\<lambda>(fs, d). size_list size fs)", goal_cases)
  case (2 f fs depth cs)
  then show ?case by (cases f) simp
qed (simp_all)

section \<open>Properties\<close>

text \<open>Registering functions never loses one and never writes outside the array: after
  any number of pushes the array holds the pushed records in order, although the growth
  test compares bytes with elements.\<close>

theorem func_registry_appends:
  assumes "func_info_arr.ok arr" "arr_size arr < ARR_LIMIT" "never_fails al"
  shows "\<exists>arr' h'. push_func_info al h arr cursor usr nm sp sys def = Some (arr', h') \<and>
    func_info_arr.ok arr' \<and>
    arr_contents arr' = arr_contents arr @ [fst (init_func_info h cursor usr nm sp sys def)] \<and>
    func_info_array_tail arr' = Some (fst (init_func_info h cursor usr nm sp sys def))"
proof -
  obtain f h' where f: "init_func_info h cursor usr nm sp sys def = (f, h')" by fastforce
  obtain arr' where arr': "arr_push push_func_info_full SIZEOF_FUNC_INFO al arr f = Some arr'"
    "func_info_arr.ok arr'" "arr_contents arr' = arr_contents arr @ [f]" "arr_size arr' = Suc (arr_size arr)"
    using func_info_arr.push_ok [OF assms] by blast
  have len: "length (arr_elems arr') = Suc (arr_size arr)" "None \<notin> set (arr_elems arr')"
    using arr'(2,4) by (auto simp: func_info_arr.ok_def arr_elems_def)
  have "arr_data arr' ! arr_size arr = Some f"
  proof -
    have "arr_data arr' ! arr_size arr = arr_elems arr' ! arr_size arr"
      using arr'(4) by (simp add: arr_elems_def)
    moreover have "the (arr_elems arr' ! arr_size arr) = f"
    proof -
      have "length (arr_contents arr) = arr_size arr"
        using arr'(3) len(1) by (metis arr_contents_def length_append_singleton length_map nat.inject)
      then have "arr_contents arr' ! arr_size arr = f" using arr'(3) by (metis nth_append_length)
      then show ?thesis using len(1) by (simp add: arr_contents_def)
    qed
    moreover have "arr_elems arr' ! arr_size arr \<noteq> None"
      using len by (metis lessI nth_mem)
    ultimately show ?thesis by auto
  qed
  moreover have "arr_size arr < length (arr_data arr')"
    using arr'(2,4) by (simp add: func_info_arr.ok_def)
  moreover have "sz_sub (Suc (arr_size arr)) 1 = arr_size arr"
    using assms(2) by (simp add: sz_sub_exact ARR_LIMIT_def SIZE_LIMIT_def)
  ultimately show ?thesis
    using f arr' by (simp add: push_func_info_def func_info_array_tail_def)
qed

theorem func_registry_appends_witness:
  "\<exists>arr' h'. push_func_info (\<lambda>_. Some 64) 0 init_func_info_array (Some (3 :: nat)) (Some ''c:@F@f'') (Some ''f()'')
      (Some ''f'') False True = Some (arr', h') \<and> func_info_arr.ok arr'"
  using func_registry_appends [of init_func_info_array "\<lambda>_. Some 64" 0 "Some (3 :: nat)"
      "Some ''c:@F@f''" "Some ''f()''" "Some ''f''" False True]
  by (auto simp: init_func_info_array_ok never_fails_def ARR_LIMIT_def)

text \<open>A lookup by USR returns the index of the first registered function with that
  USR, and NULL exactly when no function has it.\<close>

theorem lookup_by_usr_first_match:
  assumes "\<forall>f \<in> set fs. fi_usr f \<noteq> None"
  shows "get_func_info_by_usr fs u =
    Some (if \<exists>i < length fs. cstr_chars (the (fi_usr (fs ! i))) = u
          then Some (LEAST i. i < length fs \<and> cstr_chars (the (fi_usr (fs ! i))) = u) else None)"
  using assms
proof (induction fs)
  case (Cons f fs)
  let ?P = "\<lambda>i. i < length (f # fs) \<and> cstr_chars (the (fi_usr ((f # fs) ! i))) = u"
  let ?Q = "\<lambda>i. i < length fs \<and> cstr_chars (the (fi_usr (fs ! i))) = u"
  obtain p where p: "fi_usr f = Some p" using Cons.prems by auto
  have PQ: "?P (Suc i) = ?Q i" for i by simp
  show ?case
  proof (cases "cstr_chars p = u")
    case True
    with p have "?P 0" by simp
    with p True show ?thesis
      by (auto intro!: Least_equality [symmetric])
  next
    case False
    with p have no0: "\<not> ?P 0" by simp
    show ?thesis
    proof (cases "\<exists>i. ?Q i")
      case True
      then obtain j where j: "?P (Suc j)" using PQ by blast
      with False p PQ no0 Cons True Least_Suc [of ?P, OF j no0] show ?thesis by auto
    next
      case none: False
      then have "\<not> (\<exists>i < length (f # fs). cstr_chars (the (fi_usr ((f # fs) ! i))) = u)"
        using no0 PQ by (metis not0_implies_Suc)
      with none False p Cons show ?thesis by auto
    qed
  qed
qed simp

theorem lookup_by_usr_first_match_witness:
  "get_func_info_by_usr [fst (init_func_info 0 (None :: nat option) (Some ''c:@F@f'') None None False True),
      fst (init_func_info 9 None (Some ''c:@F@g'') None None False True)] ''c:@F@g'' = Some (Some (LEAST i. i = (1 :: nat)))"
proof -
  let ?fs = "[fst (init_func_info 0 (None :: nat option) (Some ''c:@F@f'') None None False True),
      fst (init_func_info 9 None (Some ''c:@F@g'') None None False True)]"
  have "(i < length ?fs \<and> cstr_chars (the (fi_usr (?fs ! i))) = ''c:@F@g'') = (i = 1)" for i
    by (auto simp: init_func_info_def less_Suc_eq nth_Cons split: nat.splits)
  then show ?thesis
    using lookup_by_usr_first_match [of ?fs "''c:@F@g''"] by (simp add: init_func_info_def)
qed

section \<open>The tree\<close>

text \<open>A record and everything below it, callers first.\<close>

function tree_nodes :: "'c func_info \<Rightarrow> 'c func_info list" where
  "tree_nodes f = f # (case fi_callees f of None \<Rightarrow> [] | Some cs \<Rightarrow> concat (map tree_nodes cs))"
  by pat_completeness auto
termination
  by (relation "measure size") (auto simp: callee_size)

declare tree_nodes.simps [simp del]

definition callee_list :: "'c func_info \<Rightarrow> 'c func_info list" where
  "callee_list f = (case fi_callees f of None \<Rightarrow> [] | Some cs \<Rightarrow> cs)"

lemma tree_nodes_callees: "tree_nodes f = f # concat (map tree_nodes (callee_list f))"
  by (simp add: tree_nodes.simps [of f] callee_list_def split: option.split)

definition accesses_of :: "'c func_info \<Rightarrow> var_access list" where
  "accesses_of f = (case fi_var_accesses f of None \<Rightarrow> [] | Some vas \<Rightarrow> vas)"

definition num_calls :: "var_access list \<Rightarrow> nat" where
  "num_calls vas = length (filter (\<lambda>va. va_type va = VarAccess_Call) vas)"

lemma num_calls_simps [simp]:
  "num_calls [] = 0" "num_calls (vas @ vas') = num_calls vas + num_calls vas'"
  "num_calls (va # vas) = (if va_type va = VarAccess_Call then Suc (num_calls vas) else num_calls vas)"
  by (simp_all add: num_calls_def)

end
