(* ===== verification/Lock_Pairs.thy ===== *)
theory Lock_Pairs
  imports Types
begin

text \<open>
  The lock primitives (\<open>src/lock_tracking.c\<close>, first half) and the table \<open>main\<close> builds
  from the pairs of the command line and the default ones: lookup by lock or unlock
  function, the split of \<open>lock:unlock\<close> strings, and the FNV hash lock objects and
  functions are compared by.
\<close>

unbundle bit_operations_syntax

section \<open>The primitives\<close>

definition lpair :: "string \<Rightarrow> string \<Rightarrow> lock_primitive_pair" where
  "lpair l u = \<lparr>lock_func = Some l, unlock_func = Some u\<rparr>"

definition null_lock_pair :: lock_primitive_pair where
  "null_lock_pair = \<lparr>lock_func = None, unlock_func = None\<rparr>"

definition default_lock_names :: "(string \<times> string) list" where
  "default_lock_names =
     [(''pthread_mutex_lock'', ''pthread_mutex_unlock''),
      (''pthread_mutex_trylock'', ''pthread_mutex_unlock''),
      (''pthread_spin_lock'', ''pthread_spin_unlock''),
      (''pthread_spin_trylock'', ''pthread_spin_unlock''),
      (''mutex_lock'', ''mutex_unlock''),
      (''mutex_lock_interruptible'', ''mutex_unlock''),
      (''mutex_lock_killable'', ''mutex_unlock''),
      (''spin_lock'', ''spin_unlock''),
      (''spin_lock_irq'', ''spin_unlock_irq''),
      (''spin_lock_irqsave'', ''spin_unlock_irqrestore''),
      (''spin_lock_bh'', ''spin_unlock_bh''),
      (''raw_spin_lock'', ''raw_spin_unlock''),
      (''raw_spin_lock_irq'', ''raw_spin_unlock_irq''),
      (''raw_spin_lock_irqsave'', ''raw_spin_lock_irqrestore'')]"

definition default_lock_pairs :: "lock_primitive_pair list" where
  "default_lock_pairs = map (\<lambda>(l, u). lpair l u) default_lock_names"

definition num_default_pairs :: nat where
  "num_default_pairs = length default_lock_pairs"

text \<open>The search stops at the first pair that has the name on either side.\<close>

fun lock_type_in :: "(string \<times> string) list \<Rightarrow> string \<Rightarrow> var_access_type" where
  "lock_type_in [] name = VarAccess_Null"
| "lock_type_in ((l, u) # ps) name =
     (if name = l then VarAccess_LockAcquire
      else if name = u then VarAccess_LockRelease
      else lock_type_in ps name)"

definition lock_primitive_type :: "string \<Rightarrow> var_access_type" where
  "lock_primitive_type esc_func_spelling = lock_type_in default_lock_names esc_func_spelling"

text \<open>\<open>None\<close> when a NULL name is compared.\<close>

fun pair_by_lock :: "lock_primitive_pair list \<Rightarrow> string \<Rightarrow> lock_primitive_pair option" where
  "pair_by_lock [] name = Some null_lock_pair"
| "pair_by_lock (p # ps) name =
     (case lock_func p of
        None \<Rightarrow> None
      | Some l \<Rightarrow> if l = name then Some p else pair_by_lock ps name)"

definition get_pair_by_lock_func :: "lock_pair_arr \<Rightarrow> string option \<Rightarrow> lock_primitive_pair option" where
  "get_pair_by_lock_func arr lock_func_name =
     (case lock_func_name of
        None \<Rightarrow> Some null_lock_pair
      | Some name \<Rightarrow> pair_by_lock (take (lpair_size arr) (lpair_data arr)) name)"

fun pair_by_unlock :: "lock_primitive_pair list \<Rightarrow> string \<Rightarrow> lock_primitive_pair option" where
  "pair_by_unlock [] name = Some null_lock_pair"
| "pair_by_unlock (p # ps) name =
     (case unlock_func p of
        None \<Rightarrow> None
      | Some u \<Rightarrow> if u = name then Some p else pair_by_unlock ps name)"

definition get_pair_by_unlock_func :: "lock_pair_arr \<Rightarrow> string \<Rightarrow> lock_primitive_pair option" where
  "get_pair_by_unlock_func arr unlock_func_name =
     pair_by_unlock (take (lpair_size arr) (lpair_data arr)) unlock_func_name"

definition lock_pair_is_null :: "lock_primitive_pair \<Rightarrow> bool" where
  "lock_pair_is_null pair \<longleftrightarrow> lock_func pair = None \<or> unlock_func pair = None"

definition print_lock_pair :: "lock_primitive_pair \<Rightarrow> string \<Rightarrow> string" where
  "print_lock_pair p name =
     (let str = (\<lambda>s. case s of None \<Rightarrow> ''(null)'' | Some t \<Rightarrow> t); q = [CHR 0x22]
      in name @ '' = ('' @ q @ str (lock_func p) @ q @ '', '' @ q @ str (unlock_func p) @ q @ '')''
         @ [CHR 0x0A])"

section \<open>The table\<close>

text \<open>\<open>malloc\<close> leaves the entries as they are in memory: \<open>junk\<close>.\<close>

definition init_lock_pair_array :: "lock_primitive_pair list \<Rightarrow> nat \<Rightarrow> lock_pair_arr" where
  "init_lock_pair_array junk n =
     (if n = 0 then \<lparr>lpair_data = [], lpair_size = 0\<rparr>
      else \<lparr>lpair_data = take n (junk @ replicate n null_lock_pair), lpair_size = n\<rparr>)"

definition free_lock_pair_array :: "lock_pair_arr \<Rightarrow> lock_pair_arr" where
  "free_lock_pair_array arr = \<lparr>lpair_data = [], lpair_size = 0\<rparr>"

text \<open>The scan of one \<open>lock:unlock\<close> string: an error code, the string the start of the
  buffer holds afterwards, and the part behind the colon if there is one.\<close>

fun scan_lock_pair :: "string \<Rightarrow> string \<Rightarrow> prong_error \<times> string \<times> string option" where
  "scan_lock_pair seen [] = (ERR_OK, seen, None)"
| "scan_lock_pair seen (c # cs) =
     (if c = CHR '':'' then (ERR_OK, seen, Some cs)
      else if \<not> isalnum c \<and> c \<noteq> CHR ''_'' then (ERR_SYNTAX, seen @ c # cs, None)
      else scan_lock_pair (seen @ [c]) cs)"

text \<open>The strings of the array are split in place; \<open>unlock_func\<close> keeps its old value when
  there is no colon.  \<open>None\<close>: more strings than entries.\<close>

fun aos_to_lock_pair_array ::
  "string list \<Rightarrow> lock_primitive_pair list \<Rightarrow> (prong_error \<times> string list \<times> lock_primitive_pair list) option" where
  "aos_to_lock_pair_array [] pairs = Some (ERR_OK, [], pairs)"
| "aos_to_lock_pair_array (s # ss) [] = None"
| "aos_to_lock_pair_array (s # ss) (p # ps) =
     (case scan_lock_pair [] s of
        (e, l, u) \<Rightarrow>
          let p1 = p\<lparr>lock_func := Some l\<rparr>;
              p2 = (case u of None \<Rightarrow> p1 | Some v \<Rightarrow> p1\<lparr>unlock_func := Some v\<rparr>)
          in if e \<noteq> ERR_OK then Some (e, l # ss, p1 # ps)
             else if unlock_func p2 = None then Some (ERR_SYNTAX, l # ss, p2 # ps)
             else map_option (\<lambda>(e', ss', ps'). (e', l # ss', p2 # ps')) (aos_to_lock_pair_array ss ps))"

text \<open>\<open>main\<close>: user pairs first, then the default pairs.\<close>

definition setup_lock_pairs ::
  "lock_primitive_pair list \<Rightarrow> string list \<Rightarrow> (prong_error \<times> lock_pair_arr) option" where
  "setup_lock_pairs junk user =
     (let arr = init_lock_pair_array junk (num_default_pairs + length user)
      in if length user \<noteq> 0
         then (case aos_to_lock_pair_array user (lpair_data arr) of
                 None \<Rightarrow> None
               | Some (e, _, d) \<Rightarrow>
                   if e \<noteq> ERR_OK then Some (e, arr\<lparr>lpair_data := d\<rparr>)
                   else Some (ERR_OK, arr\<lparr>lpair_data := take (length user) d @ default_lock_pairs\<rparr>))
         else Some (ERR_OK, arr\<lparr>lpair_data := default_lock_pairs\<rparr>))"

section \<open>The hash\<close>

definition FNV_OFFSET_BASIS :: "32 word" where
  "FNV_OFFSET_BASIS = 0x811c9dc5"

definition FNV_PRIME :: "32 word" where
  "FNV_PRIME = 0x01000193"

fun fnv_loop :: "32 word \<Rightarrow> string \<Rightarrow> 32 word" where
  "fnv_loop h [] = h"
| "fnv_loop h (c # cs) = fnv_loop ((h * FNV_PRIME) XOR word_of_nat (of_char c)) cs"

definition lock_tracking_gen_hash :: "string \<Rightarrow> 32 word" where
  "lock_tracking_gen_hash str_in = fnv_loop FNV_OFFSET_BASIS str_in"

section \<open>Lemmas\<close>

lemma fnv_loop_append: "fnv_loop h (s @ t) = fnv_loop (fnv_loop h s) t"
  by (induction s arbitrary: h) auto

lemma fnv_prime_inverse: "FNV_PRIME * 0x359C449B = 1"
  by (simp add: FNV_PRIME_def)

lemma fnv_mult_inj: "h * FNV_PRIME = k * FNV_PRIME \<longleftrightarrow> h = k"
proof
  assume "h * FNV_PRIME = k * FNV_PRIME"
  then have "h * FNV_PRIME * 0x359C449B = k * FNV_PRIME * 0x359C449B" by simp
  then show "h = k" by (simp only: mult.assoc fnv_prime_inverse mult_1_right)
qed simp

lemma xor_cancel_right: "(a XOR c = b XOR c) = (a = b)" for a b c :: "32 word"
proof
  assume "a XOR c = b XOR c"
  then have "(a XOR c) XOR c = (b XOR c) XOR c" by simp
  then show "a = b" by (simp add: xor.assoc)
qed simp

lemma xor_cancel_left: "(c XOR a = c XOR b) = (a = b)" for a b c :: "32 word"
  by (simp add: xor.commute [of c] xor_cancel_right)

lemmas xor_cancel = xor_cancel_right xor_cancel_left

lemma fnv_loop_inj: "fnv_loop h s = fnv_loop k s \<longleftrightarrow> h = k"
  by (induction s arbitrary: h k) (auto simp: xor_cancel fnv_mult_inj)

lemma char_word_inj: "(word_of_nat (of_char c) :: 32 word) = word_of_nat (of_char d) \<longleftrightarrow> c = d"
proof
  have small: "(of_char x :: nat) < 2 ^ 32" for x :: char
    by (rule less_trans [OF nat_of_char_less_256]) simp
  assume "(word_of_nat (of_char c) :: 32 word) = word_of_nat (of_char d)"
  then have "unat (word_of_nat (of_char c) :: 32 word) = unat (word_of_nat (of_char d) :: 32 word)"
    by simp
  then have "(of_char c :: nat) = of_char d"
    using small by (simp add: unat_of_nat)
  then show "c = d" by simp
qed simp

text \<open>Lookup in a list of complete pairs.\<close>

lemma pair_by_lock_complete:
  assumes "\<forall>p \<in> set ps. \<not> lock_pair_is_null p" "\<exists>p \<in> set ps. lock_func p = Some name"
  shows "\<exists>p \<in> set ps. pair_by_lock ps name = Some p \<and> lock_func p = Some name"
  using assms by (induction ps) (auto simp: lock_pair_is_null_def split: option.splits)

lemma default_lock_type_acquire:
  "lock_primitive_type name = VarAccess_LockAcquire \<Longrightarrow> \<exists>p \<in> set default_lock_pairs. lock_func p = Some name"
  by (auto simp: lock_primitive_type_def default_lock_names_def default_lock_pairs_def lpair_def
      split: if_splits)

lemma default_pairs_complete: "p \<in> set default_lock_pairs \<Longrightarrow> \<not> lock_pair_is_null p"
  by (auto simp: default_lock_pairs_def lpair_def lock_pair_is_null_def)

definition lock_name :: "string \<Rightarrow> bool" where
  "lock_name s \<longleftrightarrow> (\<forall>c \<in> set s. isalnum c \<or> c = CHR ''_'')"

lemma colon_not_name: "lock_name s \<Longrightarrow> CHR '':'' \<notin> set s"
  by (auto simp: lock_name_def isalnum_def)

lemma scan_lock_pair_colon:
  "lock_name l \<Longrightarrow> scan_lock_pair seen (l @ CHR '':'' # u) = (ERR_OK, seen @ l, Some u)"
  by (induction l arbitrary: seen) (auto simp: lock_name_def isalnum_def)

lemma scan_lock_pair_no_colon:
  "lock_name l \<Longrightarrow> scan_lock_pair seen l = (ERR_OK, seen @ l, None)"
  by (induction l arbitrary: seen) (auto simp: lock_name_def isalnum_def)

lemma aos_to_lock_pairs_ok:
  assumes "length us \<le> length ps" "\<forall>(l, u) \<in> set us. lock_name l"
  shows "aos_to_lock_pair_array (map (\<lambda>(l, u). l @ CHR '':'' # u) us) ps
    = Some (ERR_OK, map fst us, map (\<lambda>(l, u). lpair l u) us @ drop (length us) ps)"
  using assms
proof (induction us arbitrary: ps)
  case (Cons lu us)
  obtain l u where lu: "lu = (l, u)" by force
  from Cons.prems obtain p ps' where ps: "ps = p # ps'" by (cases ps) auto
  have "p\<lparr>lock_func := Some l, unlock_func := Some u\<rparr> = lpair l u"
    by (simp add: lpair_def)
  with Cons lu ps show ?case by (simp add: scan_lock_pair_colon)
qed simp

lemma setup_lock_pairs_ok:
  assumes "\<forall>(l, u) \<in> set us. lock_name l"
  shows "setup_lock_pairs junk (map (\<lambda>(l, u). l @ CHR '':'' # u) us)
    = Some (ERR_OK, \<lparr>lpair_data = map (\<lambda>(l, u). lpair l u) us @ default_lock_pairs,
                     lpair_size = num_default_pairs + length us\<rparr>)"
proof -
  have "num_default_pairs \<noteq> 0"
    by (simp add: num_default_pairs_def default_lock_pairs_def default_lock_names_def)
  then show ?thesis
    using aos_to_lock_pairs_ok [OF _ assms, of "take (num_default_pairs + length us)
      (junk @ replicate (num_default_pairs + length us) null_lock_pair)"]
    by (simp add: setup_lock_pairs_def init_lock_pair_array_def Let_def)
qed

section \<open>Properties\<close>

text \<open>With well-formed pairs on the command line, every function the marking step takes
  for a lock function is found in the table, and the pair found has both names: building a
  protection field never dereferences NULL.
\<close>
theorem lock_table_complete:
  assumes "\<forall>(l, u) \<in> set us. lock_name l"
    and "lock_primitive_type name = VarAccess_LockAcquire"
    and "setup_lock_pairs junk (map (\<lambda>(l, u). l @ CHR '':'' # u) us) = Some (e, arr)"
  shows "e = ERR_OK \<and> (\<exists>p. get_pair_by_lock_func arr (Some name) = Some p \<and>
           lock_func p = Some name \<and> \<not> lock_pair_is_null p)"
proof -
  let ?ps = "map (\<lambda>(l, u). lpair l u) us @ default_lock_pairs"
  have arr: "e = ERR_OK" "take (lpair_size arr) (lpair_data arr) = ?ps"
    using assms(3) by (auto simp: setup_lock_pairs_ok [OF assms(1)] num_default_pairs_def)
  have "\<forall>p \<in> set ?ps. \<not> lock_pair_is_null p"
    using default_pairs_complete by (auto simp: lpair_def lock_pair_is_null_def)
  then show ?thesis
    using pair_by_lock_complete [of ?ps name] default_lock_type_acquire [OF assms(2)] arr
    by (fastforce simp: get_pair_by_lock_func_def)
qed

theorem lock_table_complete_witness:
  "\<exists>arr p. setup_lock_pairs [] [''my_lock:my_unlock''] = Some (ERR_OK, arr) \<and>
     get_pair_by_lock_func arr (Some ''mutex_lock'') = Some p \<and> lock_func p = Some ''mutex_lock''"
proof -
  have us: "\<forall>(l, u) \<in> set [(''my_lock'', ''my_unlock'')]. lock_name l"
    by (simp add: lock_name_def isalnum_def)
  have m: "lock_primitive_type ''mutex_lock'' = VarAccess_LockAcquire"
    by (simp add: lock_primitive_type_def default_lock_names_def)
  from lock_table_complete [OF us m, of "[]"] setup_lock_pairs_ok [OF us, of "[]"]
  show ?thesis by auto
qed

text \<open>C27: splitting the \<open>lock:unlock\<close> strings recovers the names, for any previous
  contents of the table (round trip of the \<open>--lock-pairs\<close> syntax).
\<close>
theorem lock_pairs_roundtrip:
  assumes "length us \<le> length junk" "\<forall>(l, u) \<in> set us. lock_name l"
  shows "aos_to_lock_pair_array (map (\<lambda>(l, u). l @ CHR '':'' # u) us) junk
    = Some (ERR_OK, map fst us, map (\<lambda>(l, u). lpair l u) us @ drop (length us) junk)"
  using assms by (rule aos_to_lock_pairs_ok)

theorem lock_pairs_roundtrip_witness:
  "aos_to_lock_pair_array [''my_lock:my_unlock''] [null_lock_pair]
    = Some (ERR_OK, [''my_lock''], [lpair ''my_lock'' ''my_unlock''])"
  using lock_pairs_roundtrip [of "[(''my_lock'', ''my_unlock'')]" "[null_lock_pair]"]
  by (simp add: lock_name_def isalnum_def)

text \<open>The missing-colon error is decided by memory the program never initialised: the
  table comes from \<open>malloc\<close>, so a pair without a colon is a syntax error when the entry
  happens to hold NULL and is accepted, with a stray pointer as the unlock function, when
  it does not.
\<close>
theorem missing_colon_depends_on_junk:
  assumes "lock_name l"
  shows "aos_to_lock_pair_array [l] [p] =
    Some (if unlock_func p = None then ERR_SYNTAX else ERR_OK, [l], [p\<lparr>lock_func := Some l\<rparr>])"
  using scan_lock_pair_no_colon [OF assms, of "[]"] by (simp add: Let_def)

theorem missing_colon_depends_on_junk_witness:
  "aos_to_lock_pair_array [''lockA''] [null_lock_pair] = Some (ERR_SYNTAX, [''lockA''],
      [\<lparr>lock_func = Some ''lockA'', unlock_func = None\<rparr>]) \<and>
   aos_to_lock_pair_array [''lockA''] [lpair ''?'' ''stray''] = Some (ERR_OK, [''lockA''], [lpair ''lockA'' ''stray''])"
proof -
  have "lock_name ''lockA''" by (simp add: lock_name_def isalnum_def)
  from missing_colon_depends_on_junk [OF this, of null_lock_pair]
    missing_colon_depends_on_junk [OF this, of "lpair ''?'' ''stray''"]
  show ?thesis by (simp add: null_lock_pair_def lpair_def)
qed

text \<open>The marking of lock accesses knows the default pairs only: a name is a lock
  primitive exactly when a default pair has it, whatever \<open>--lock-pairs\<close> adds; and since
  the last default pair is spelt \<open>raw_spin_lock_irqrestore\<close>, the release function
  \<open>raw_spin_unlock_irqrestore\<close> of the kernel is not one.
\<close>
theorem lock_marking_default_only:
  "(lock_primitive_type name \<noteq> VarAccess_Null \<longleftrightarrow>
      name \<in> fst ` set default_lock_names \<union> snd ` set default_lock_names) \<and>
   lock_primitive_type ''my_lock'' = VarAccess_Null \<and>
   lock_primitive_type ''raw_spin_lock_irqsave'' = VarAccess_LockAcquire \<and>
   lock_primitive_type ''raw_spin_unlock_irqrestore'' = VarAccess_Null"
proof -
  have "lock_type_in ps name \<noteq> VarAccess_Null \<longleftrightarrow> name \<in> fst ` set ps \<union> snd ` set ps" for ps
    by (induction ps name rule: lock_type_in.induct) auto
  then show ?thesis
    by (simp add: lock_primitive_type_def) (simp add: default_lock_names_def)
qed

text \<open>The hash separates strings that differ in one character only, at whatever position:
  two lock objects whose USRs differ in a single character never share a hash.
\<close>
theorem hash_separates_one_char:
  "lock_tracking_gen_hash (pre @ c # post) = lock_tracking_gen_hash (pre @ d # post) \<longleftrightarrow> c = d"
  by (simp add: lock_tracking_gen_hash_def fnv_loop_append fnv_loop_inj xor_cancel char_word_inj)

end
