(* ===== verification/Footprint.thy ===== *)
theory Footprint
  imports Func_Info Lock_Pairs "HOL-Library.Multiset" "HOL-Library.Sublist"
begin

text \<open>
  Unwinding the function tree and building the access footprint (\<open>src/core.c\<close>, lines
  689 to 890): the arguments of the command line are given artificial USRs, arguments
  passed to callees are to be followed, local and lock accesses are marked, and all
  accesses that are left are collected in order into one list, callees inlined.

  \<open>arg_usr c i\<close> stands for the compiler library: the USR of the declaration of the
  \<open>i\<close>-th argument of the function at cursor \<open>c\<close>, the empty string when there is none.
\<close>

unbundle bit_operations_syntax

section \<open>Loops over an array in place\<close>

text \<open>Every element is replaced by what the body makes of it; the body also allocates.\<close>

fun for_each :: "(nat \<Rightarrow> 'a \<Rightarrow> ('a \<times> nat) option) \<Rightarrow> nat \<Rightarrow> 'a list \<Rightarrow> ('a list \<times> nat) option" where
  "for_each body h [] = Some ([], h)"
| "for_each body h (x # xs) =
     Option.bind (body h x) (\<lambda>(x', h1).
     map_option (\<lambda>(xs', h2). (x' # xs', h2)) (for_each body h1 xs))"

lemma for_each_cong [fundef_cong]:
  assumes "xs = ys" "h = k" "\<And>j x. x \<in> set ys \<Longrightarrow> f j x = g j x"
  shows "for_each f h xs = for_each g k ys"
proof -
  have "for_each f j ys = for_each g j ys" for j
    using assms(3) by (induction ys arbitrary: j) (auto intro!: bind_option_cong)
  then show ?thesis using assms(1,2) by simp
qed

lemma for_each_total:
  assumes "\<And>h x. x \<in> set xs \<Longrightarrow> \<exists>x' h'. body h x = Some (x', h')"
  shows "\<exists>xs' h'. for_each body h xs = Some (xs', h')"
  using assms
proof (induction xs arbitrary: h)
  case (Cons x xs)
  obtain x' h1 where "body h x = Some (x', h1)" using Cons.prems [of x h] by auto
  with Cons.IH [of h1] Cons.prems show ?case by fastforce
qed simp

lemma for_each_all2:
  "for_each body h xs = Some (xs', h') \<Longrightarrow> (\<And>k x x' k'. x \<in> set xs \<Longrightarrow> body k x = Some (x', k') \<Longrightarrow> P x x') \<Longrightarrow>
    list_all2 P xs xs'"
  by (induction xs arbitrary: h xs') (fastforce simp: bind_eq_Some_conv)+

section \<open>Artificial USRs\<close>

fun djb2_loop :: "32 word \<Rightarrow> string \<Rightarrow> 32 word" where
  "djb2_loop hash [] = hash"
| "djb2_loop hash (c # cs) = djb2_loop ((push_bit 5 hash + hash) + word_of_nat (of_char c)) cs"

text \<open>\<open>snprintf\<close> stores at most one byte less than the buffer holds.\<close>

definition snprintf :: "nat \<Rightarrow> string \<Rightarrow> string" where
  "snprintf buffer_size s = take (buffer_size - 1) s"

definition generate_artificial_param_usr :: "allocator \<Rightarrow> string option \<Rightarrow> string \<Rightarrow> string option" where
  "generate_artificial_param_usr al name old_usr =
     (let safe_name = (case name of None \<Rightarrow> '''' | Some s \<Rightarrow> s);
          name_len = length safe_name;
          hash = djb2_loop 5381 safe_name;
          field_access = strstr old_usr ''::'';
          buffer_size = 64 + name_len
      in case al buffer_size of
           None \<Rightarrow> None
         | Some _ \<Rightarrow> Some (snprintf buffer_size
             (if 0 < name_len
              then ''p:'' @ show_nat (unat hash) @ '':'' @ show_nat name_len @ '':'' @ safe_name
                   @ (case field_access of None \<Rightarrow> '''' | Some field \<Rightarrow> field)
              else ''p:null:unnamed'')))"

section \<open>Unwinding\<close>

text \<open>A parameter's accesses, and those of its fields, get the USR of the argument.  The
  test is a prefix test.  \<open>None\<close>: NULL is dereferenced or a slot never written is read.\<close>

definition rename_access ::
  "allocator \<Rightarrow> string \<Rightarrow> string option \<Rightarrow> nat \<Rightarrow> var_access \<Rightarrow> (var_access \<times> nat) option" where
  "rename_access al param_usr parsed_arg h va =
     (case va_usr va of
        None \<Rightarrow> Some (va, h)
      | Some u \<Rightarrow>
          if \<not> va_is_placeholder_type (va_type va) \<and> starts_with (cstr_chars u) param_usr
          then (case generate_artificial_param_usr al parsed_arg (cstr_chars u) of
                  None \<Rightarrow> Some (va\<lparr>va_usr := None\<rparr>, h)
                | Some new_usr \<Rightarrow> Some (va\<lparr>va_usr := Some (CStr h new_usr)\<rparr>, Suc h))
          else Some (va, h))"

fun map_args ::
  "allocator \<Rightarrow> string list \<Rightarrow> string list \<Rightarrow> nat \<Rightarrow> var_access list \<Rightarrow> nat list \<Rightarrow>
   (var_access list \<times> nat) option" where
  "map_args al params parsed h vas [] = Some (vas, h)"
| "map_args al params parsed h vas (i # is) =
     (case strs_at params (i - 1) of
        None \<Rightarrow> None
      | Some None \<Rightarrow> map_args al params parsed h vas is
      | Some (Some param_usr) \<Rightarrow>
          Option.bind (strs_at parsed i) (\<lambda>arg.
          Option.bind (for_each (rename_access al param_usr arg) h vas) (\<lambda>(vas', h').
          map_args al params parsed h' vas' is)))"

definition resolve_access :: "string \<Rightarrow> var_access \<Rightarrow> nat \<Rightarrow> var_access \<Rightarrow> (var_access \<times> nat) option" where
  "resolve_access param_usr var_access h working_va =
     (if va_is_placeholder_type (va_type working_va) then Some (working_va, h)
      else case va_usr working_va of
        None \<Rightarrow> None
      | Some u \<Rightarrow>
          if cstr_chars u = param_usr
          then map_option (\<lambda>v. (working_va\<lparr>va_usr := Some (CStr h (cstr_chars v))\<rparr>, Suc h)) (va_usr var_access)
          else Some (working_va, h))"

definition resolve_var_access_alias ::
  "('c option \<Rightarrow> nat \<Rightarrow> string) \<Rightarrow> nat \<Rightarrow> 'c func_info option \<Rightarrow> var_access \<Rightarrow>
   ('c func_info option \<times> nat) option" where
  "resolve_var_access_alias arg_usr h esc_func_info var_access =
     (case esc_func_info of
        None \<Rightarrow> Some (esc_func_info, h)
      | Some f \<Rightarrow>
          let param_usr = arg_usr (fi_cursor f) (va_esc_param_idx var_access)
          in (case fi_var_accesses f of
                None \<Rightarrow> Some (Some f, h)
              | Some vas \<Rightarrow> map_option (\<lambda>(vas', h'). (Some (set_var_accesses (Some vas') f), h'))
                              (for_each (resolve_access param_usr var_access) h vas)))"

text \<open>The loop over the calls; \<open>None\<close> also when there are more calls than callees.\<close>

fun resolve_calls ::
  "('c option \<Rightarrow> nat \<Rightarrow> string) \<Rightarrow> nat \<Rightarrow> 'c func_info list \<Rightarrow> nat \<Rightarrow> var_access list \<Rightarrow>
   ('c func_info list \<times> nat) option" where
  "resolve_calls arg_usr h callees next_callee [] = Some (callees, h)"
| "resolve_calls arg_usr h callees next_callee (va # vas) =
     (if va_type va = VarAccess_Call
      then if next_callee < length callees
           then let esc_func_info = callees ! next_callee
                in if \<not> fi_in_system_header esc_func_info
                   then Option.bind (resolve_var_access_alias arg_usr h (Some esc_func_info) va) (\<lambda>(f', h').
                        resolve_calls arg_usr h'
                          (case f' of None \<Rightarrow> callees | Some g \<Rightarrow> callees[next_callee := g])
                          (Suc next_callee) vas)
                   else resolve_calls arg_usr h callees next_callee vas
           else None
      else resolve_calls arg_usr h callees next_callee vas)"

text \<open>Marking: lock and unlock accesses first, then what cannot be shared.\<close>

definition lock_mark :: "var_access \<Rightarrow> var_access_type" where
  "lock_mark va =
     (case va_esc_func_spelling va of
        None \<Rightarrow> VarAccess_Null
      | Some s \<Rightarrow> if va_esc_param_idx va = 0 then lock_primitive_type (cstr_chars s) else VarAccess_Null)"

definition mark_access :: "string list \<Rightarrow> string list \<Rightarrow> var_access \<Rightarrow> var_access option" where
  "mark_access params locals va =
     (if lock_mark va \<noteq> VarAccess_Null then Some (va\<lparr>va_type := lock_mark va\<rparr>)
      else
        Option.bind
          (if \<not> va_is_ptr_type va \<and> va_type va \<noteq> VarAccess_Escape \<and> \<not> va_is_placeholder_type (va_type va)
           then map_option (\<lambda>b. if b then va\<lparr>va_type := VarAccess_Null\<rparr> else va) (strs_contains locals (va_usr va))
           else Some va) (\<lambda>va1.
        if va_type va1 = VarAccess_Read \<or> va_type va1 = VarAccess_Write
        then map_option (\<lambda>b. if b then va1\<lparr>va_type := VarAccess_Null\<rparr> else va1) (strs_contains params (va_usr va1))
        else Some va1))"

fun mark_accesses :: "string list \<Rightarrow> string list \<Rightarrow> var_access list \<Rightarrow> var_access list option" where
  "mark_accesses params locals [] = Some []"
| "mark_accesses params locals (va # vas) =
     Option.bind (mark_access params locals va) (\<lambda>va'.
     map_option ((#) va') (mark_accesses params locals vas))"

text \<open>What \<open>unwind_func_info\<close> does to one function before it recurses.\<close>

definition unwind_args ::
  "allocator \<Rightarrow> nat \<Rightarrow> 'c func_info \<Rightarrow> string list option \<Rightarrow> ('c func_info \<times> nat) option" where
  "unwind_args al h f parsed_func_call =
     (case (parsed_func_call, fi_var_accesses f) of
        (Some parsed, Some vas) \<Rightarrow>
          map_option (\<lambda>(vas', h'). (set_var_accesses (Some vas') f, h'))
            (map_args al (fi_params f) parsed h vas [1..<length parsed])
      | _ \<Rightarrow> Some (f, h))"

definition unwind_aliases ::
  "('c option \<Rightarrow> nat \<Rightarrow> string) \<Rightarrow> nat \<Rightarrow> 'c func_info \<Rightarrow> ('c func_info \<times> nat) option" where
  "unwind_aliases arg_usr h f =
     (case (fi_callees f, fi_var_accesses f) of
        (Some callees, Some vas) \<Rightarrow>
          map_option (\<lambda>(callees', h'). (set_callees (Some callees') f, h'))
            (resolve_calls arg_usr h callees 0 vas)
      | _ \<Rightarrow> Some (f, h))"

definition unwind_marks :: "'c func_info \<Rightarrow> 'c func_info option" where
  "unwind_marks f =
     (case fi_var_accesses f of
        None \<Rightarrow> Some f
      | Some vas \<Rightarrow> map_option (\<lambda>vas'. set_var_accesses (Some vas') f)
                      (mark_accesses (fi_params f) (fi_locals f) vas))"

definition unwind_here ::
  "allocator \<Rightarrow> ('c option \<Rightarrow> nat \<Rightarrow> string) \<Rightarrow> nat \<Rightarrow> 'c func_info \<Rightarrow> string list option \<Rightarrow>
   ('c func_info \<times> nat) option" where
  "unwind_here al arg_usr h f parsed_func_call =
     Option.bind (unwind_args al h f parsed_func_call) (\<lambda>(f1, h1).
     Option.bind (unwind_aliases arg_usr h1 f1) (\<lambda>(f2, h2).
     map_option (\<lambda>f3. (f3, h2)) (unwind_marks f2)))"

subsection \<open>Nothing changes the shape of the tree\<close>

fun fi_height :: "'c func_info \<Rightarrow> nat" where
  "fi_height f = (case fi_callees f of None \<Rightarrow> 0 | Some cs \<Rightarrow> Suc (sum_list (map fi_height cs)))"

declare fi_height.simps [simp del]

lemma fi_height_callee:
  "fi_callees f = Some cs \<Longrightarrow> g \<in> set cs \<Longrightarrow> fi_height g < fi_height f"
  using member_le_sum_list [of "fi_height g" "map fi_height cs"] by (simp add: fi_height.simps [of f])

lemma fi_height_vas [simp]: "fi_height (set_var_accesses vas f) = fi_height f"
  by (simp add: fi_height.simps [of f] fi_height.simps [of "set_var_accesses vas f"])

lemma fi_height_callees:
  "fi_callees f = Some cs \<Longrightarrow> map fi_height cs' = map fi_height cs \<Longrightarrow>
    fi_height (set_callees (Some cs') f) = fi_height f"
  by (simp add: fi_height.simps [of f] fi_height.simps [of "set_callees (Some cs') f"])

lemma resolve_alias_cases:
  assumes "resolve_var_access_alias arg_usr h (Some f) va = Some (g, h')"
  obtains vas where "g = Some (set_var_accesses vas f)" | "g = Some f"
  using assms by (auto simp: resolve_var_access_alias_def Let_def split: option.splits)

lemma resolve_calls_step:
  assumes "resolve_calls arg_usr h cs n (va # vas) = Some (cs', h')"
  obtains (skip) "resolve_calls arg_usr h cs n vas = Some (cs', h')"
  | (call) g h1 where "n < length cs" "\<not> fi_in_system_header (cs ! n)"
      "resolve_var_access_alias arg_usr h (Some (cs ! n)) va = Some (Some g, h1)"
      "resolve_calls arg_usr h1 (cs[n := g]) (Suc n) vas = Some (cs', h')"
  using assms
  by (auto simp: Let_def bind_eq_Some_conv split: if_splits)
    (metis option.simps(5) resolve_alias_cases)

lemma resolve_calls_height:
  "resolve_calls arg_usr h cs n vas = Some (cs', h') \<Longrightarrow> map fi_height cs' = map fi_height cs"
proof (induction vas arbitrary: h cs n)
  case (Cons va vas)
  from Cons.prems show ?case
  proof (cases rule: resolve_calls_step)
    case skip
    then show ?thesis by (rule Cons.IH)
  next
    case (call g h1)
    have "fi_height g = fi_height (cs ! n)"
      by (rule resolve_alias_cases [OF call(3)]) auto
    with call(1) Cons.IH [OF call(4)] show ?thesis
      by (simp add: map_update list_update_same_conv)
  qed
qed simp

lemma unwind_args_frame:
  assumes "unwind_args al h f parsed = Some (f', h')"
  shows "fi_callees f' = fi_callees f" "fi_params f' = fi_params f" "fi_locals f' = fi_locals f"
    "fi_height f' = fi_height f" "fi_in_system_header f' = fi_in_system_header f"
    "fi_has_definition f' = fi_has_definition f"
  using assms by (auto simp: unwind_args_def split: option.splits)

lemma unwind_aliases_frame:
  assumes "unwind_aliases arg_usr h f = Some (f', h')"
  shows "fi_var_accesses f' = fi_var_accesses f" "fi_params f' = fi_params f" "fi_locals f' = fi_locals f"
    "fi_height f' = fi_height f" "fi_in_system_header f' = fi_in_system_header f"
    "fi_has_definition f' = fi_has_definition f"
  using assms
  by (auto simp: unwind_aliases_def fi_height_callees dest: resolve_calls_height split: option.splits)

lemma unwind_marks_frame:
  assumes "unwind_marks f = Some f'"
  shows "fi_callees f' = fi_callees f" "fi_params f' = fi_params f" "fi_locals f' = fi_locals f"
    "fi_height f' = fi_height f" "fi_in_system_header f' = fi_in_system_header f"
    "fi_has_definition f' = fi_has_definition f"
  using assms by (auto simp: unwind_marks_def split: option.splits)

lemma unwind_here_frame:
  assumes "unwind_here al arg_usr h f parsed = Some (f', h')"
  shows "fi_height f' = fi_height f" "fi_params f' = fi_params f" "fi_locals f' = fi_locals f"
    "fi_in_system_header f' = fi_in_system_header f" "fi_has_definition f' = fi_has_definition f"
  using assms
  by (auto simp: unwind_here_def bind_eq_Some_conv unwind_args_frame unwind_aliases_frame unwind_marks_frame)

function unwind_func_info ::
  "allocator \<Rightarrow> ('c option \<Rightarrow> nat \<Rightarrow> string) \<Rightarrow> nat \<Rightarrow> 'c func_info \<Rightarrow> string list option \<Rightarrow>
   ('c func_info \<times> nat) option" where
  "unwind_func_info al arg_usr h f parsed_func_call =
     (if fi_in_system_header f \<or> \<not> fi_has_definition f then Some (f, h)
      else case unwind_here al arg_usr h f parsed_func_call of
        None \<Rightarrow> None
      | Some (f1, h1) \<Rightarrow>
          (case fi_callees f1 of
             None \<Rightarrow> Some (f1, h1)
           | Some callees \<Rightarrow>
               map_option (\<lambda>(callees', h'). (set_callees (Some callees') f1, h'))
                 (for_each (\<lambda>h g. unwind_func_info al arg_usr h g None) h1 callees)))"
  by pat_completeness auto
termination
  by (relation "measure (\<lambda>(al, arg_usr, h, f, parsed). fi_height f)")
    (auto simp: fi_height_callee dest: unwind_here_frame(1) [symmetric])

declare unwind_func_info.simps [simp del]

section \<open>The footprint\<close>

text \<open>\<open>None\<close>: a callee behind the last one is read.\<close>

function build_var_access_footprint :: "'c func_info \<Rightarrow> var_access list \<Rightarrow> var_access list option"
  and footprint_loop :: "'c func_info \<Rightarrow> nat \<Rightarrow> var_access list \<Rightarrow> var_access list \<Rightarrow> var_access list option" where
  "build_var_access_footprint f access_footprint =
     (if fi_in_system_header f \<or> \<not> fi_has_definition f then Some access_footprint
      else case fi_var_accesses f of
             None \<Rightarrow> Some access_footprint
           | Some vas \<Rightarrow> footprint_loop f 0 vas access_footprint)"
| "footprint_loop f next_callee [] access_footprint = Some access_footprint"
| "footprint_loop f next_callee (va # vas) access_footprint =
     (case fi_callees f of
        Some callees \<Rightarrow>
          if va_type va = VarAccess_Call
          then if next_callee < length callees
               then Option.bind (build_var_access_footprint (callees ! next_callee) access_footprint)
                      (footprint_loop f (Suc next_callee) vas)
               else None
          else footprint_loop f next_callee vas
                 (if va_type va \<noteq> VarAccess_Null then access_footprint @ [va] else access_footprint)
      | None \<Rightarrow> footprint_loop f next_callee vas
                 (if va_type va \<noteq> VarAccess_Null \<and> va_type va \<noteq> VarAccess_Call
                  then access_footprint @ [va] else access_footprint))"
  by pat_completeness auto
termination
  by (relation "measures [\<lambda>x. case x of Inl (f, acc) \<Rightarrow> size f | Inr (f, n, vas, acc) \<Rightarrow> size f,
        \<lambda>x. case x of Inl (f, acc) \<Rightarrow> Suc (length (the (fi_var_accesses f))) | Inr (f, n, vas, acc) \<Rightarrow> length vas]")
    (auto simp: callee_nth_size)

declare build_var_access_footprint.simps [simp del]

end
