(* ===== verification/Lock_Ranges.thy ===== *)
theory Lock_Ranges
  imports Lock_Pairs Var_Access "HOL-Library.Multiset"
begin

text \<open>
  Lock protection ranges (\<open>src/lock_tracking.c\<close>, second half): the growing array of
  \<open>lock_protection_field\<close>s, whose elements also form linked lists through pointers into
  the array itself, the operations that open, close and continue ranges, and the
  comparison of the protections of two accesses.

  A pointer into the array is the address of the block it was computed from and an index.
  Using it while the array lives in another block is a use after free: the operation
  returns \<open>None\<close>.
\<close>

section \<open>State\<close>

type_synonym lp_ptr = "int \<times> nat"

record lock_protection_field =
  lock_va :: "var_access option"
  next_prot_range :: "lp_ptr option"
  branch_depth :: nat
  protection_range_start :: nat
  protection_range_end :: nat
  lock_obj_hash :: "32 word"
  lock_func_hash :: "32 word"
  unlock_func_hash :: "32 word"
  is_ll_start :: bool

text \<open>\<open>lp_fields\<close> holds the elements below \<open>size\<close>; nothing reads a slot above it.\<close>

record protection_field_array =
  lp_block :: int
  lp_fields :: "lock_protection_field list"
  lp_capacity :: nat

datatype shared_protection_quality = Shared_Protected | Shared_Unprotected | Shared_Uncertain

definition NUM_LP_FIELDS :: nat where
  "NUM_LP_FIELDS = 10"

text \<open>\<open>sizeof(struct lock_protection_field)\<close>.\<close>

definition SIZEOF_LP_FIELD :: nat where
  "SIZEOF_LP_FIELD = 56"

abbreviation lp_size :: "protection_field_array \<Rightarrow> nat" where
  "lp_size arr \<equiv> length (lp_fields arr)"

definition lp_deref :: "protection_field_array \<Rightarrow> lp_ptr \<Rightarrow> lock_protection_field option" where
  "lp_deref arr p = (if fst p = lp_block arr \<and> snd p < lp_size arr then Some (lp_fields arr ! snd p) else None)"

section \<open>Operations\<close>

text \<open>\<open>None\<close>: a NULL name or USR is hashed.\<close>

definition init_lp_field :: "lock_primitive_pair \<Rightarrow> var_access \<Rightarrow> nat \<Rightarrow> lock_protection_field option" where
  "init_lp_field primitive_pair va prot_range_start =
     (case (lock_func primitive_pair, unlock_func primitive_pair, va_usr va) of
        (Some l, Some u, Some obj) \<Rightarrow>
          Some \<lparr>lock_va = Some va, next_prot_range = None, branch_depth = 0,
                protection_range_start = prot_range_start, protection_range_end = SIZE_MAX,
                lock_obj_hash = lock_tracking_gen_hash (cstr_chars obj),
                lock_func_hash = lock_tracking_gen_hash l,
                unlock_func_hash = lock_tracking_gen_hash u,
                is_ll_start = True\<rparr>
      | _ \<Rightarrow> None)"

definition destroy_lp_field :: "lock_protection_field \<Rightarrow> lock_protection_field" where
  "destroy_lp_field f =
     \<lparr>lock_va = None, next_prot_range = None, branch_depth = 0, protection_range_start = 0,
      protection_range_end = 0, lock_obj_hash = 0, lock_func_hash = 0, unlock_func_hash = 0,
      is_ll_start = False\<rparr>"

definition init_protection_field_array :: "int \<Rightarrow> protection_field_array" where
  "init_protection_field_array addr = \<lparr>lp_block = addr, lp_fields = [], lp_capacity = NUM_LP_FIELDS\<rparr>"

definition destroy_protection_field_array :: "protection_field_array \<Rightarrow> protection_field_array" where
  "destroy_protection_field_array arr = arr\<lparr>lp_fields := [], lp_capacity := 0\<rparr>"

definition lp_field_is_null :: "lock_protection_field \<Rightarrow> bool" where
  "lp_field_is_null f \<longleftrightarrow> lock_obj_hash f = 0"

text \<open>Every link is moved by as much as the block moved.\<close>

definition update_lp_field_array_pointers :: "protection_field_array \<Rightarrow> int \<Rightarrow> protection_field_array" where
  "update_lp_field_array_pointers arr old_base =
     (let realloc_offset = lp_block arr - old_base
      in arr\<lparr>lp_fields := map (\<lambda>f. f\<lparr>next_prot_range :=
              map_option (\<lambda>(b, i). (b + realloc_offset, i)) (next_prot_range f)\<rparr>) (lp_fields arr)\<rparr>)"

text \<open>Doubling the array; \<open>None\<close> when the allocator answers NULL, which is dereferenced.
  The zeroed bytes behind the last element are not part of the state.\<close>

definition lp_grow :: "allocator \<Rightarrow> protection_field_array \<Rightarrow> protection_field_array option" where
  "lp_grow al arr =
     (let cap = sz_mul (lp_capacity arr) 2
      in case reallocarray al cap SIZEOF_LP_FIELD of
           None \<Rightarrow> None
         | Some addr \<Rightarrow> Some (update_lp_field_array_pointers
                              (arr\<lparr>lp_capacity := cap, lp_block := addr\<rparr>) (lp_block arr)))"

definition lp_append :: "protection_field_array \<Rightarrow> lock_protection_field \<Rightarrow> protection_field_array option" where
  "lp_append arr f =
     (if lp_size arr < lp_capacity arr then Some (arr\<lparr>lp_fields := lp_fields arr @ [f]\<rparr>) else None)"

definition add_lock_protection_field ::
  "allocator \<Rightarrow> protection_field_array \<Rightarrow> lock_primitive_pair \<Rightarrow> var_access \<Rightarrow> nat \<Rightarrow>
   protection_field_array option" where
  "add_lock_protection_field al arr primitive_pair va prot_range_start =
     Option.bind (if lp_capacity arr \<le> lp_size arr then lp_grow al arr else Some arr) (\<lambda>arr1.
     Option.bind (init_lp_field primitive_pair va prot_range_start) (lp_append arr1))"

text \<open>The argument is a pointer into the array that may be about to move; it is read after
  the move.  The result is the pointer to the copy.\<close>

definition add_lock_protection_copy ::
  "allocator \<Rightarrow> protection_field_array \<Rightarrow> lp_ptr \<Rightarrow> (protection_field_array \<times> lp_ptr) option" where
  "add_lock_protection_copy al arr lp_field_in =
     Option.bind (if sz_sub (lp_capacity arr) 1 \<le> lp_size arr then lp_grow al arr else Some arr) (\<lambda>arr1.
     Option.bind (lp_deref arr1 lp_field_in) (\<lambda>f.
     map_option (\<lambda>arr2. (arr2, (lp_block arr2, lp_size arr1)))
       (lp_append arr1 (f\<lparr>is_ll_start := False, next_prot_range := None\<rparr>))))"

text \<open>A store through a pointer.\<close>

definition lp_update ::
  "protection_field_array \<Rightarrow> lp_ptr \<Rightarrow> (lock_protection_field \<Rightarrow> lock_protection_field) \<Rightarrow>
   protection_field_array option" where
  "lp_update arr p g =
     (case lp_deref arr p of
        None \<Rightarrow> None
      | Some f \<Rightarrow> Some (arr\<lparr>lp_fields := (lp_fields arr)[snd p := g f]\<rparr>))"

text \<open>The end of the linked list an element is in; \<open>None\<close> when a link dangles or the list
  is circular.\<close>

partial_function (option) get_lp_field_linked_list_end ::
  "protection_field_array \<Rightarrow> lp_ptr \<Rightarrow> lp_ptr option" where
  "get_lp_field_linked_list_end arr p =
     (case lp_deref arr p of
        None \<Rightarrow> None
      | Some f \<Rightarrow> (case next_prot_range f of
            None \<Rightarrow> Some p
          | Some q \<Rightarrow> get_lp_field_linked_list_end arr q))"

fun set_end_loop :: "protection_field_array \<Rightarrow> 32 word \<Rightarrow> nat \<Rightarrow> nat list \<Rightarrow> protection_field_array option" where
  "set_end_loop arr h prot_range_end [] = Some arr"
| "set_end_loop arr h prot_range_end (i # is) =
     (case lp_deref arr (lp_block arr, i) of
        None \<Rightarrow> None
      | Some f \<Rightarrow>
          if protection_range_end f = SIZE_MAX \<and> lock_obj_hash f = h
          then Option.bind (get_lp_field_linked_list_end arr (lp_block arr, i)) (\<lambda>tail.
               Option.bind (lp_update arr tail (\<lambda>g. g\<lparr>protection_range_end := prot_range_end\<rparr>)) (\<lambda>arr'.
               set_end_loop arr' h prot_range_end is))
          else set_end_loop arr h prot_range_end is)"

definition set_protection_range_end ::
  "protection_field_array \<Rightarrow> char_ptr \<Rightarrow> nat \<Rightarrow> protection_field_array option" where
  "set_protection_range_end arr lock_obj_usr prot_range_end =
     (case lock_obj_usr of
        None \<Rightarrow> None
      | Some obj \<Rightarrow> set_end_loop arr (lock_tracking_gen_hash (cstr_chars obj)) prot_range_end
                     [0..<lp_size arr])"

text \<open>\<open>lp_field\<close> is computed before the copy is appended and stored through afterwards.\<close>

fun active_loop :: "allocator \<Rightarrow> protection_field_array \<Rightarrow> nat \<Rightarrow> nat \<Rightarrow> nat list \<Rightarrow>
    protection_field_array option" where
  "active_loop al arr prot_range_start depth [] = Some arr"
| "active_loop al arr prot_range_start depth (i # is) =
     (let lp_field = (lp_block arr, i)
      in case lp_deref arr lp_field of
           None \<Rightarrow> None
         | Some f \<Rightarrow>
             if protection_range_end f = SIZE_MAX
             then Option.bind (add_lock_protection_copy al arr lp_field) (\<lambda>(arr1, new_lp_field).
                  Option.bind (lp_update arr1 lp_field (\<lambda>g. g\<lparr>next_prot_range := Some new_lp_field,
                      protection_range_end := prot_range_start, branch_depth := depth\<rparr>)) (\<lambda>arr2.
                  Option.bind (lp_update arr2 new_lp_field (\<lambda>g. g\<lparr>protection_range_start := prot_range_start,
                      protection_range_end := SIZE_MAX\<rparr>)) (\<lambda>arr3.
                  active_loop al arr3 prot_range_start depth is)))
             else active_loop al arr prot_range_start depth is)"

definition add_protection_range_fields_active ::
  "allocator \<Rightarrow> protection_field_array \<Rightarrow> nat \<Rightarrow> nat \<Rightarrow> protection_field_array option" where
  "add_protection_range_fields_active al arr prot_range_start depth =
     active_loop al arr prot_range_start depth [0..<lp_size arr]"

fun inactive_loop :: "allocator \<Rightarrow> protection_field_array \<Rightarrow> nat \<Rightarrow> nat \<Rightarrow> nat list \<Rightarrow>
    protection_field_array option" where
  "inactive_loop al arr prot_range_start depth [] = Some arr"
| "inactive_loop al arr prot_range_start depth (i # is) =
     (let lp_field = (lp_block arr, i)
      in case lp_deref arr lp_field of
           None \<Rightarrow> None
         | Some f \<Rightarrow>
             if next_prot_range f = None \<and> protection_range_end f \<noteq> SIZE_MAX \<and> branch_depth f = depth
             then Option.bind (add_lock_protection_copy al arr lp_field) (\<lambda>(arr1, new_lp_field).
                  Option.bind (lp_update arr1 lp_field (\<lambda>g. g\<lparr>next_prot_range := Some new_lp_field\<rparr>)) (\<lambda>arr2.
                  Option.bind (lp_update arr2 new_lp_field (\<lambda>g. g\<lparr>protection_range_start := prot_range_start,
                      protection_range_end := SIZE_MAX\<rparr>)) (\<lambda>arr3.
                  inactive_loop al arr3 prot_range_start depth is)))
             else inactive_loop al arr prot_range_start depth is)"

definition add_protection_range_fields_inactive ::
  "allocator \<Rightarrow> protection_field_array \<Rightarrow> nat \<Rightarrow> nat \<Rightarrow> protection_field_array option" where
  "add_protection_range_fields_inactive al arr prot_range_start depth =
     inactive_loop al arr prot_range_start depth [0..<lp_size arr]"

section \<open>Comparison\<close>

definition equal_lp_fields :: "lock_protection_field \<Rightarrow> lock_protection_field \<Rightarrow> bool" where
  "equal_lp_fields a b \<longleftrightarrow> lock_obj_hash a = lock_obj_hash b"

definition lp_field_array_contains :: "protection_field_array \<Rightarrow> lock_protection_field \<Rightarrow> bool" where
  "lp_field_array_contains haystack needle \<longleftrightarrow> list_ex (\<lambda>f. equal_lp_fields f needle) (lp_fields haystack)"

definition lp_cond_prot :: "lock_protection_field \<Rightarrow> nat \<Rightarrow> bool" where
  "lp_cond_prot f va_idx \<longleftrightarrow>
     next_prot_range f \<noteq> None \<and> protection_range_end f = SIZE_MAX \<and> branch_depth f \<noteq> 0"

definition lp_in_range :: "lock_protection_field \<Rightarrow> nat \<Rightarrow> bool" where
  "lp_in_range f va_idx \<longleftrightarrow>
     protection_range_start f < va_idx \<and> va_idx < protection_range_end f \<or> lp_cond_prot f va_idx"

text \<open>The walk along one linked list; \<open>None\<close> when the collecting array, which has as many
  slots as the protection array has elements, is overrun.\<close>

partial_function (option) lp_walk ::
  "protection_field_array \<Rightarrow> nat \<Rightarrow> lp_ptr \<Rightarrow> lock_protection_field list \<Rightarrow>
   lock_protection_field list option" where
  "lp_walk arr va_idx p acc =
     (case lp_deref arr p of
        None \<Rightarrow> None
      | Some f \<Rightarrow>
          if lp_in_range f va_idx \<and> lp_size arr \<le> length acc then None
          else let acc' = (if lp_in_range f va_idx then acc @ [f] else acc)
               in (case next_prot_range f of
                     None \<Rightarrow> Some acc'
                   | Some q \<Rightarrow> lp_walk arr va_idx q acc'))"

fun in_range_loop :: "protection_field_array \<Rightarrow> nat \<Rightarrow> lock_protection_field list \<Rightarrow> nat list \<Rightarrow>
    lock_protection_field list option" where
  "in_range_loop arr va_idx acc [] = Some acc"
| "in_range_loop arr va_idx acc (i # is) =
     (case lp_deref arr (lp_block arr, i) of
        None \<Rightarrow> None
      | Some f \<Rightarrow>
          if is_ll_start f
          then Option.bind (lp_walk arr va_idx (lp_block arr, i) acc) (\<lambda>acc'. in_range_loop arr va_idx acc' is)
          else in_range_loop arr va_idx acc is)"

definition get_lp_fields_in_range ::
  "protection_field_array \<Rightarrow> nat \<Rightarrow> lock_protection_field list option" where
  "get_lp_fields_in_range arr va_idx = in_range_loop arr va_idx [] [0..<lp_size arr]"

definition lp_fields_contain :: "lock_protection_field list \<Rightarrow> lock_protection_field \<Rightarrow> bool" where
  "lp_fields_contain fs f \<longleftrightarrow> list_ex (\<lambda>g. equal_lp_fields g f) fs"

text \<open>The inner loop: \<open>Inl\<close> is the early return.  The guard tests the second field twice,
  as the source does.\<close>

fun match_inner :: "lock_protection_field \<Rightarrow> lock_protection_field list \<Rightarrow>
    shared_protection_quality + bool" where
  "match_inner a [] = Inr False"
| "match_inner a (b # bs) =
     (if branch_depth b \<noteq> 0 \<or> branch_depth b \<noteq> 0 then Inl Shared_Uncertain
      else if equal_lp_fields a b then Inr True
      else match_inner a bs)"

fun match_outer :: "lock_protection_field list \<Rightarrow> lock_protection_field list \<Rightarrow>
    shared_protection_quality" where
  "match_outer [] bs = Shared_Protected"
| "match_outer (a # as) bs =
     (case match_inner a bs of
        Inl q \<Rightarrow> q
      | Inr contains \<Rightarrow> if contains then match_outer as bs else Shared_Unprotected)"

definition matching_protection_field_arrays ::
  "protection_field_array \<Rightarrow> protection_field_array \<Rightarrow> nat \<Rightarrow> nat \<Rightarrow>
   shared_protection_quality option" where
  "matching_protection_field_arrays arr_a arr_b va_idx_i va_idx_j =
     Option.bind (get_lp_fields_in_range arr_a va_idx_i) (\<lambda>active_a.
     Option.bind (get_lp_fields_in_range arr_b va_idx_j) (\<lambda>active_b.
       Some (if length active_a \<noteq> length active_b then Shared_Unprotected
             else match_outer active_a active_b)))"

definition show_lp_field :: "lock_protection_field \<Rightarrow> string" where
  "show_lp_field f =
     ''Printing lp field array: '' @ NL
     @ ''    | lock func hash: '' @ show_nat (unat (lock_func_hash f)) @ NL
     @ ''    | unlock func hash: '' @ show_nat (unat (unlock_func_hash f)) @ NL
     @ ''    | lock obj hash: '' @ show_nat (unat (lock_obj_hash f)) @ NL
     @ ''    | start idx: '' @ show_nat (protection_range_start f) @ NL
     @ ''    | end idx: '' @ show_nat (protection_range_end f) @ NL
     @ (case lock_va f of None \<Rightarrow> '''' | Some va \<Rightarrow> print_var_access va 2)"

definition print_lp_field_array :: "protection_field_array \<Rightarrow> string" where
  "print_lp_field_array arr = concat (map show_lp_field (lp_fields arr))"

section \<open>The linked lists\<close>

text \<open>The invariant of the links: they go forward inside the block, to elements that are
  not starts of a list, from elements whose range is closed; no two elements link to the
  same one, every element that is not a start is linked to, and all elements of a list
  protect the same lock object.\<close>

definition link_at :: "lock_protection_field list \<Rightarrow> nat \<Rightarrow> lp_ptr \<Rightarrow> bool" where
  "link_at fs i q \<longleftrightarrow> i < length fs \<and> next_prot_range (fs ! i) = Some q"

definition good_link :: "int \<Rightarrow> lock_protection_field list \<Rightarrow> nat \<Rightarrow> lp_ptr \<Rightarrow> bool" where
  "good_link b fs i q \<longleftrightarrow>
     fst q = b \<and> i < snd q \<and> snd q < length fs \<and> \<not> is_ll_start (fs ! snd q) \<and>
     protection_range_end (fs ! i) \<noteq> SIZE_MAX \<and>
     lock_obj_hash (fs ! snd q) = lock_obj_hash (fs ! i)"

definition lp_links :: "int \<Rightarrow> lock_protection_field list \<Rightarrow> bool" where
  "lp_links b fs \<longleftrightarrow>
     (\<forall>i q. link_at fs i q \<longrightarrow> good_link b fs i q) \<and>
     (\<forall>i j q. link_at fs i q \<longrightarrow> link_at fs j q \<longrightarrow> i = j) \<and>
     (\<forall>i < length fs. is_ll_start (fs ! i) \<or> (\<exists>j. link_at fs j (b, i)))"

lemma lp_links_good: "lp_links b fs \<Longrightarrow> link_at fs i q \<Longrightarrow> good_link b fs i q"
  unfolding lp_links_def by blast

lemma lp_links_inj: "lp_links b fs \<Longrightarrow> link_at fs i q \<Longrightarrow> link_at fs j q \<Longrightarrow> i = j"
  unfolding lp_links_def by blast

lemma lp_links_pred:
  "lp_links b fs \<Longrightarrow> i < length fs \<Longrightarrow> \<not> is_ll_start (fs ! i) \<Longrightarrow> \<exists>j. link_at fs j (b, i)"
  unfolding lp_links_def by blast

lemma lp_linksI:
  assumes "\<And>i q. link_at fs i q \<Longrightarrow> good_link b fs i q"
    and "\<And>i j q. link_at fs i q \<Longrightarrow> link_at fs j q \<Longrightarrow> i = j"
    and "\<And>i. i < length fs \<Longrightarrow> \<not> is_ll_start (fs ! i) \<Longrightarrow> \<exists>j. link_at fs j (b, i)"
  shows "lp_links b fs"
  using assms unfolding lp_links_def by blast

lemma lp_links_open_next:
  assumes "lp_links b fs" "i < length fs" "protection_range_end (fs ! i) = SIZE_MAX"
  shows "next_prot_range (fs ! i) = None"
  using lp_links_good [OF assms(1), of i] assms(2,3)
  by (cases "next_prot_range (fs ! i)") (auto simp: link_at_def good_link_def)

lemma lp_links_Nil [simp]: "lp_links b []"
  by (simp add: lp_links_def link_at_def)

lemma link_at_snoc:
  "link_at (fs @ [f]) i q \<longleftrightarrow> link_at fs i q \<or> i = length fs \<and> next_prot_range f = Some q"
  by (auto simp: link_at_def nth_append less_Suc_eq)

lemma link_at_update:
  "k < length fs \<Longrightarrow> link_at (fs[k := f]) i q \<longleftrightarrow>
    (if i = k then next_prot_range f = Some q else link_at fs i q)"
  by (auto simp: link_at_def nth_list_update)

lemma good_link_snoc: "good_link b fs i q \<Longrightarrow> good_link b (fs @ [f]) i q"
  by (auto simp: good_link_def nth_append)

lemma lp_links_snoc_start:
  assumes "lp_links b fs" "next_prot_range f = None" "is_ll_start f"
  shows "lp_links b (fs @ [f])"
proof (rule lp_linksI)
  show "good_link b (fs @ [f]) i q" if "link_at (fs @ [f]) i q" for i q
    using that assms lp_links_good good_link_snoc by (auto simp: link_at_snoc)
  show "i = j" if "link_at (fs @ [f]) i q" "link_at (fs @ [f]) j q" for i j q
    using that assms(2) lp_links_inj [OF assms(1)] by (auto simp: link_at_snoc)
  show "\<exists>j. link_at (fs @ [f]) j (b, i)" if "i < length (fs @ [f])" "\<not> is_ll_start ((fs @ [f]) ! i)" for i
    using that assms(3) lp_links_pred [OF assms(1), of i]
    by (auto simp: link_at_snoc nth_append split: if_splits)
qed

text \<open>Continuing a list: an element without successor gets the new last element as its
  successor.\<close>

lemma lp_links_extend:
  assumes inv: "lp_links b fs" and k: "k < length fs" "next_prot_range (fs ! k) = None"
    and f: "next_prot_range f = Some (b, length fs)" "protection_range_end f \<noteq> SIZE_MAX"
      "is_ll_start f = is_ll_start (fs ! k)" "lock_obj_hash f = lock_obj_hash (fs ! k)"
    and g: "next_prot_range g = None" "\<not> is_ll_start g" "lock_obj_hash g = lock_obj_hash (fs ! k)"
  shows "lp_links b (fs[k := f] @ [g])"
proof (rule lp_linksI)
  let ?fs = "fs[k := f] @ [g]"
  have at: "link_at ?fs i q \<longleftrightarrow> (if i = k then q = (b, length fs) else link_at fs i q)" for i q
    using k(1) f(1) g(1) by (auto simp: link_at_snoc link_at_update)
  have old: "snd q < length fs \<and> good_link b fs i q" if "link_at fs i q" for i q
    using lp_links_good [OF inv that] by (simp add: good_link_def)
  show "good_link b ?fs i q" if l: "link_at ?fs i q" for i q
  proof (cases "i = k")
    case True
    with l k f g at show ?thesis by (auto simp: good_link_def nth_append)
  next
    case False
    with l at have "link_at fs i q" by simp
    from old [OF this] False k f(3,4) show ?thesis
      by (auto simp: good_link_def nth_append nth_list_update)
  qed
  show "i = j" if "link_at ?fs i q" "link_at ?fs j q" for i j q
  proof -
    have no: "\<not> link_at fs m (b, length fs)" for m
      using old by fastforce
    show ?thesis
    proof (cases "i = k \<or> j = k")
      case True
      with that at no show ?thesis by (metis (full_types))
    next
      case False
      with that at have "link_at fs i q" "link_at fs j q" by simp_all
      with inv show ?thesis by (rule lp_links_inj)
    qed
  qed
  show "\<exists>j. link_at ?fs j (b, i)" if i: "i < length ?fs" "\<not> is_ll_start (?fs ! i)" for i
  proof (cases "i = length fs")
    case True
    then show ?thesis using at by (intro exI [of _ k]) simp
  next
    case False
    with i k f(3) have "i < length fs" "\<not> is_ll_start (fs ! i)"
      by (auto simp: nth_append nth_list_update split: if_splits)
    then obtain j where "link_at fs j (b, i)" using lp_links_pred [OF inv] by blast
    moreover from this k(2) have "j \<noteq> k" by (auto simp: link_at_def)
    ultimately show ?thesis using at by auto
  qed
qed

text \<open>Closing an open range.\<close>

lemma lp_links_update:
  assumes inv: "lp_links b fs" and k: "k < length fs" "next_prot_range (fs ! k) = None"
    and f: "next_prot_range f = None" "is_ll_start f = is_ll_start (fs ! k)"
      "lock_obj_hash f = lock_obj_hash (fs ! k)"
  shows "lp_links b (fs[k := f])"
proof (rule lp_linksI)
  have at: "link_at (fs[k := f]) i q \<longleftrightarrow> link_at fs i q" for i q
    using k f(1) by (auto simp: link_at_update) (simp add: link_at_def)
  show "good_link b (fs[k := f]) i q" if "link_at (fs[k := f]) i q" for i q
  proof -
    from that at have l: "link_at fs i q" by simp
    with k have "i \<noteq> k" by (auto simp: link_at_def)
    with lp_links_good [OF inv l] k f show ?thesis
      by (auto simp: good_link_def nth_list_update)
  qed
  show "i = j" if "link_at (fs[k := f]) i q" "link_at (fs[k := f]) j q" for i j q
    using that at lp_links_inj [OF inv] by blast
  show "\<exists>j. link_at (fs[k := f]) j (b, i)" if "i < length (fs[k := f])" "\<not> is_ll_start (fs[k := f] ! i)" for i
    using that at k f(2) lp_links_pred [OF inv, of i] by (auto simp: nth_list_update split: if_splits)
qed

text \<open>Moving the block.\<close>

definition move_link :: "int \<Rightarrow> lock_protection_field \<Rightarrow> lock_protection_field" where
  "move_link d f = f\<lparr>next_prot_range := map_option (\<lambda>(b, i). (b + d, i)) (next_prot_range f)\<rparr>"

lemma move_link_fields [simp]:
  "is_ll_start (move_link d f) = is_ll_start f"
  "protection_range_end (move_link d f) = protection_range_end f"
  "protection_range_start (move_link d f) = protection_range_start f"
  "lock_obj_hash (move_link d f) = lock_obj_hash f"
  "branch_depth (move_link d f) = branch_depth f"
  "next_prot_range (move_link d f) = map_option (\<lambda>(b, i). (b + d, i)) (next_prot_range f)"
  by (simp_all add: move_link_def)

lemma move_link_0 [simp]: "move_link 0 f = f"
  by (cases "next_prot_range f") (auto simp: move_link_def)

lemma link_at_move:
  "link_at (map (move_link d) fs) i q \<longleftrightarrow> link_at fs i (fst q - d, snd q)"
  by (cases q) (auto simp: link_at_def)

lemma lp_links_move:
  assumes inv: "lp_links b fs"
  shows "lp_links (b + d) (map (move_link d) fs)"
proof (rule lp_linksI)
  show "good_link (b + d) (map (move_link d) fs) i q" if "link_at (map (move_link d) fs) i q" for i q
  proof -
    from that have l: "link_at fs i (fst q - d, snd q)" by (simp add: link_at_move)
    then have "i < length fs" by (simp add: link_at_def)
    with lp_links_good [OF inv l] show ?thesis by (auto simp: good_link_def)
  qed
  show "i = j" if "link_at (map (move_link d) fs) i q" "link_at (map (move_link d) fs) j q" for i j q
    using that lp_links_inj [OF inv] by (auto simp: link_at_move)
  show "\<exists>j. link_at (map (move_link d) fs) j (b + d, i)"
    if "i < length (map (move_link d) fs)" "\<not> is_ll_start (map (move_link d) fs ! i)" for i
    using that lp_links_pred [OF inv, of i] by (auto simp: link_at_move)
qed

section \<open>The fields in range\<close>

text \<open>The indices of a linked list, from one of its elements on.\<close>

function lp_chain :: "lock_protection_field list \<Rightarrow> nat \<Rightarrow> nat list" where
  "lp_chain fs i =
     i # (case next_prot_range (fs ! i) of
            None \<Rightarrow> []
          | Some q \<Rightarrow> if i < snd q \<and> snd q < length fs then lp_chain fs (snd q) else [])"
  by pat_completeness auto
termination
  by (relation "measure (\<lambda>(fs, i). length fs - i)") auto

declare lp_chain.simps [simp del]

lemma lp_chain_unfold:
  assumes "lp_links b fs" "i < length fs"
  shows "lp_chain fs i = i # (case next_prot_range (fs ! i) of None \<Rightarrow> [] | Some q \<Rightarrow> lp_chain fs (snd q))"
proof (cases "next_prot_range (fs ! i)")
  case None
  then show ?thesis by (simp add: lp_chain.simps [of fs i])
next
  case (Some q)
  with lp_links_good [OF assms(1), of i q] assms(2) show ?thesis
    by (simp add: lp_chain.simps [of fs i] link_at_def good_link_def)
qed

lemma lp_chain_induct [consumes 2, case_names End Link]:
  assumes "lp_links b fs" "i < length fs"
    and End: "\<And>i. i < length fs \<Longrightarrow> next_prot_range (fs ! i) = None \<Longrightarrow> lp_chain fs i = [i] \<Longrightarrow> P i"
    and Link: "\<And>i j. i < j \<Longrightarrow> j < length fs \<Longrightarrow> next_prot_range (fs ! i) = Some (b, j) \<Longrightarrow>
      lp_chain fs i = i # lp_chain fs j \<Longrightarrow> P j \<Longrightarrow> P i"
  shows "P i"
  using assms(2)
proof (induction "length fs - i" arbitrary: i rule: less_induct)
  case less
  show ?case
  proof (cases "next_prot_range (fs ! i)")
    case None
    with less.prems show ?thesis
      using End lp_chain_unfold [OF assms(1) less.prems] by simp
  next
    case (Some q)
    with lp_links_good [OF assms(1), of i q] less.prems
    have q: "q = (b, snd q)" "i < snd q" "snd q < length fs"
      by (auto simp: link_at_def good_link_def prod_eq_iff)
    then have "P (snd q)" using less.prems by (intro less.hyps) auto
    with q Some show ?thesis
      using Link [of i "snd q"] lp_chain_unfold [OF assms(1) less.prems] by simp
  qed
qed

lemma lp_chain_bounds:
  assumes "lp_links b fs" "i < length fs" "k \<in> set (lp_chain fs i)"
  shows "i \<le> k \<and> k < length fs"
  using assms(1,2,3) by (induction rule: lp_chain_induct) auto

lemma lp_chain_distinct:
  assumes "lp_links b fs" "i < length fs"
  shows "distinct (lp_chain fs i)"
  using assms
proof (induction rule: lp_chain_induct)
  case (Link i j)
  then show ?case using lp_chain_bounds [OF assms(1), of j i] by auto
qed simp

lemma lp_chain_pred:
  assumes "lp_links b fs" "i < length fs" "k \<in> set (lp_chain fs i)" "k \<noteq> i"
  shows "\<exists>p \<in> set (lp_chain fs i). link_at fs p (b, k)"
  using assms(1,2,3,4)
proof (induction rule: lp_chain_induct)
  case (Link i j)
  show ?case
  proof (cases "k = j")
    case True
    with Link.hyps have "link_at fs i (b, k)" by (simp add: link_at_def)
    with Link.hyps(4) show ?thesis by auto
  next
    case False
    with Link show ?thesis by auto
  qed
qed simp

lemma lp_chain_closed:
  assumes "lp_links b fs" "i < length fs" "p \<in> set (lp_chain fs i)" "link_at fs p (b, k)"
  shows "k \<in> set (lp_chain fs i)"
  using assms(1,2,3,4)
proof (induction rule: lp_chain_induct)
  case (End i)
  then show ?case by (simp add: link_at_def)
next
  case (Link i j)
  have "j \<in> set (lp_chain fs j)"
    using lp_chain_unfold [OF assms(1) Link.hyps(2)] by simp
  with Link show ?case by (auto simp: link_at_def)
qed

text \<open>Every element is on the list of exactly one start.\<close>

lemma lp_chain_unique:
  assumes inv: "lp_links b fs"
    and "i < length fs" "is_ll_start (fs ! i)" "j < length fs" "is_ll_start (fs ! j)"
    and "k \<in> set (lp_chain fs i)" "k \<in> set (lp_chain fs j)"
  shows "i = j"
  using assms(6,7)
proof (induction k rule: less_induct)
  case (less k)
  have start: "k = m" if "k \<in> set (lp_chain fs m)" "m < length fs" "is_ll_start (fs ! k)" for m
    using lp_chain_pred [OF inv that(2,1)] that(3) lp_links_good [OF inv]
    by (force simp: good_link_def)
  show ?case
  proof (cases "k = i \<or> k = j")
    case True
    with start [of i] start [of j] less.prems assms(2-5) show ?thesis by auto
  next
    case False
    then obtain p p' where p: "p \<in> set (lp_chain fs i)" "link_at fs p (b, k)"
      "p' \<in> set (lp_chain fs j)" "link_at fs p' (b, k)"
      using lp_chain_pred [OF inv] less.prems assms(2,4) by metis
    then have "p' = p" using lp_links_inj [OF inv] by blast
    moreover have "p < k" using lp_links_good [OF inv p(2)] by (simp add: good_link_def)
    ultimately show ?thesis using less.IH p by blast
  qed
qed

lemma lp_chain_covers:
  assumes inv: "lp_links b fs"
  shows "k < length fs \<Longrightarrow> \<exists>i < length fs. is_ll_start (fs ! i) \<and> k \<in> set (lp_chain fs i)"
proof (induction k rule: less_induct)
  case (less k)
  show ?case
  proof (cases "is_ll_start (fs ! k)")
    case True
    then show ?thesis using less.prems lp_chain_unfold [OF inv less.prems] by auto
  next
    case False
    then obtain p where p: "link_at fs p (b, k)" using lp_links_pred [OF inv] less.prems by blast
    then have "p < k" using lp_links_good [OF inv p] by (simp add: good_link_def)
    with less obtain i where "i < length fs" "is_ll_start (fs ! i)" "p \<in> set (lp_chain fs i)"
      using order.strict_trans by blast
    with lp_chain_closed [OF inv _ _ p] show ?thesis by blast
  qed
qed

definition lp_order :: "lock_protection_field list \<Rightarrow> nat list" where
  "lp_order fs = concat (map (lp_chain fs) (filter (\<lambda>i. is_ll_start (fs ! i)) [0..<length fs]))"

lemma distinct_concat_disjoint:
  assumes "distinct xs" "\<And>x. x \<in> set xs \<Longrightarrow> distinct (f x)"
    and "\<And>x y z. x \<in> set xs \<Longrightarrow> y \<in> set xs \<Longrightarrow> z \<in> set (f x) \<Longrightarrow> z \<in> set (f y) \<Longrightarrow> x = y"
  shows "distinct (concat (map f xs))"
  using assms
proof (induction xs)
  case (Cons x xs)
  have "distinct (concat (map f xs))"
    using Cons.prems by (intro Cons.IH) auto
  moreover have "z \<notin> set (f y)" if "z \<in> set (f x)" "y \<in> set xs" for y z
    using Cons.prems(1) Cons.prems(3) [of x y z] that by auto
  ultimately show ?case using Cons.prems(2) by auto
qed simp

lemma lp_order_mset:
  assumes inv: "lp_links b fs"
  shows "mset (lp_order fs) = mset [0..<length fs]"
proof -
  have "distinct (lp_order fs)"
    unfolding lp_order_def using lp_chain_distinct [OF inv] lp_chain_unique [OF inv]
    by (intro distinct_concat_disjoint) auto
  moreover have "set (lp_order fs) = {0..<length fs}"
    using lp_chain_covers [OF inv] lp_chain_bounds [OF inv]
    by (fastforce simp: lp_order_def)
  ultimately show ?thesis
    by (metis mset_set_set mset_upt)
qed

lemma lp_deref_in [simp]: "i < lp_size arr \<Longrightarrow> lp_deref arr (lp_block arr, i) = Some (lp_fields arr ! i)"
  by (simp add: lp_deref_def)

lemma lp_walk_chain:
  assumes inv: "lp_links (lp_block arr) (lp_fields arr)" and i: "i < lp_size arr"
  shows "length acc + length (lp_chain (lp_fields arr) i) \<le> lp_size arr \<Longrightarrow>
    lp_walk arr v (lp_block arr, i) acc
      = Some (acc @ filter (\<lambda>f. lp_in_range f v) (map ((!) (lp_fields arr)) (lp_chain (lp_fields arr) i)))"
  using inv i
proof (induction arbitrary: acc rule: lp_chain_induct)
  case (End i)
  then show ?case by (simp add: lp_walk.simps [of arr v "(lp_block arr, i)"])
next
  case (Link i j)
  then show ?case by (simp add: lp_walk.simps [of arr v "(lp_block arr, i)"])
qed

lemma in_range_loop_order:
  assumes inv: "lp_links (lp_block arr) (lp_fields arr)"
  shows "\<forall>i \<in> set is. i < lp_size arr \<Longrightarrow>
    length acc + length (concat (map (lp_chain (lp_fields arr)) (filter (\<lambda>i. is_ll_start (lp_fields arr ! i)) is)))
      \<le> lp_size arr \<Longrightarrow>
    in_range_loop arr v acc is = Some (acc @ filter (\<lambda>f. lp_in_range f v) (map ((!) (lp_fields arr))
      (concat (map (lp_chain (lp_fields arr)) (filter (\<lambda>i. is_ll_start (lp_fields arr ! i)) is)))))"
proof (induction "is" arbitrary: acc)
  case (Cons i "is")
  show ?case
  proof (cases "is_ll_start (lp_fields arr ! i)")
    case False
    with Cons show ?thesis by simp
  next
    case True
    let ?P = "\<lambda>f. lp_in_range f v" and ?nth = "(!) (lp_fields arr)"
    let ?rest = "concat (map (lp_chain (lp_fields arr)) (filter (\<lambda>i. is_ll_start (lp_fields arr ! i)) is))"
    define acc' where "acc' = acc @ filter ?P (map ?nth (lp_chain (lp_fields arr) i))"
    have len: "length acc' \<le> length acc + length (lp_chain (lp_fields arr) i)"
      using length_filter_le [of ?P "map ?nth (lp_chain (lp_fields arr) i)"] by (simp add: acc'_def)
    have walk: "lp_walk arr v (lp_block arr, i) acc = Some acc'"
      unfolding acc'_def using True Cons.prems by (intro lp_walk_chain inv) auto
    have "in_range_loop arr v acc' is = Some (acc' @ filter ?P (map ?nth ?rest))"
      by (rule Cons.IH) (use True Cons.prems len in auto)
    with True Cons.prems(1) walk show ?thesis
      by simp (simp add: acc'_def)
  qed
qed simp

lemma in_range_order:
  assumes inv: "lp_links (lp_block arr) (lp_fields arr)"
  shows "get_lp_fields_in_range arr v
    = Some (filter (\<lambda>f. lp_in_range f v) (map ((!) (lp_fields arr)) (lp_order (lp_fields arr))))"
proof -
  have "length (lp_order (lp_fields arr)) = lp_size arr"
    using lp_order_mset [OF inv] mset_eq_length by fastforce
  then show ?thesis
    using in_range_loop_order [OF inv, of "[0..<lp_size arr]" "[]"]
    by (simp add: get_lp_fields_in_range_def lp_order_def)
qed

lemma in_range_mset:
  assumes inv: "lp_links (lp_block arr) (lp_fields arr)"
  shows "\<exists>fs. get_lp_fields_in_range arr v = Some fs \<and>
    mset fs = filter_mset (\<lambda>f. lp_in_range f v) (mset (lp_fields arr))"
proof -
  have "mset (map ((!) (lp_fields arr)) (lp_order (lp_fields arr))) = mset (lp_fields arr)"
    by (metis inv lp_order_mset map_nth mset_map)
  then have "mset (filter (\<lambda>f. lp_in_range f v) (map ((!) (lp_fields arr)) (lp_order (lp_fields arr))))
      = filter_mset (\<lambda>f. lp_in_range f v) (mset (lp_fields arr))"
    by (metis mset_filter)
  then show ?thesis using in_range_order [OF inv] by blast
qed

lemma lp_order_no_links:
  assumes "\<forall>f \<in> set fs. next_prot_range f = None \<and> is_ll_start f"
  shows "lp_order fs = [0..<length fs]"
proof -
  have "map (lp_chain fs) [0..<length fs] = map (\<lambda>i. [i]) [0..<length fs]"
    using assms by (intro map_cong) (auto simp: lp_chain.simps)
  then have "concat (map (lp_chain fs) [0..<length fs]) = concat (map (\<lambda>i. [i]) [0..<length fs])"
    by (simp only:)
  moreover have "filter (\<lambda>i. is_ll_start (fs ! i)) [0..<length fs] = [0..<length fs]"
    using assms by (intro filter_True) auto
  ultimately show ?thesis by (simp add: lp_order_def)
qed

section \<open>The operations keep the invariant\<close>

definition lp_inv :: "protection_field_array \<Rightarrow> bool" where
  "lp_inv arr \<longleftrightarrow> lp_links (lp_block arr) (lp_fields arr) \<and> lp_size arr \<le> lp_capacity arr \<and>
     2 \<le> lp_capacity arr \<and> lp_capacity arr < SIZE_LIMIT"

lemma lp_inv_init: "lp_inv (init_protection_field_array addr)"
  by (simp add: lp_inv_def init_protection_field_array_def NUM_LP_FIELDS_def SIZE_LIMIT_def)

definition in_place :: "allocator \<Rightarrow> int \<Rightarrow> bool" where
  "in_place al addr \<longleftrightarrow> (\<forall>n. al n = Some addr)"

lemma in_place_never_fails: "in_place al addr \<Longrightarrow> never_fails al"
  by (simp add: in_place_def never_fails_def)

lemma lp_grow_ok:
  assumes inv: "lp_inv arr" and full: "lp_capacity arr \<le> Suc (lp_size arr)"
    and lim: "lp_size arr < ARR_LIMIT" and al: "never_fails al"
  obtains addr where "al (lp_capacity arr * 2 * SIZEOF_LP_FIELD) = Some addr"
    "lp_grow al arr = Some \<lparr>lp_block = addr,
       lp_fields = map (move_link (addr - lp_block arr)) (lp_fields arr), lp_capacity = lp_capacity arr * 2\<rparr>"
    "lp_capacity arr * 2 < SIZE_LIMIT"
proof -
  have c: "lp_capacity arr \<le> ARR_LIMIT" using full lim by simp
  then have lt: "lp_capacity arr * 2 < SIZE_LIMIT" by (simp add: ARR_LIMIT_def SIZE_LIMIT_def)
  have "lp_capacity arr * 2 * SIZEOF_LP_FIELD \<le> PTRDIFF_MAX"
    using c by (simp add: ARR_LIMIT_def PTRDIFF_MAX_def SIZEOF_LP_FIELD_def)
  moreover obtain addr where "al (lp_capacity arr * 2 * SIZEOF_LP_FIELD) = Some addr"
    using al by (auto simp: never_fails_def)
  ultimately show thesis using lt
    by (intro that [of addr])
      (simp_all add: lp_grow_def sz_mul_exact reallocarray_def update_lp_field_array_pointers_def
        Let_def move_link_def cong: map_cong)
qed

lemma move_map_0 [simp]: "map (move_link 0) fs = fs"
  by (simp add: map_idI)

lemma lp_append_ok:
  "lp_size arr < lp_capacity arr \<Longrightarrow> lp_append arr f = Some (arr\<lparr>lp_fields := lp_fields arr @ [f]\<rparr>)"
  by (simp add: lp_append_def)

text \<open>Opening a range: the elements are moved if the block moves, and the new one is last.\<close>

lemma add_field_ok:
  assumes inv: "lp_inv arr" and lim: "lp_size arr < ARR_LIMIT" and al: "never_fails al"
    and f: "init_lp_field pair va i = Some f"
  shows "\<exists>arr' d. add_lock_protection_field al arr pair va i = Some arr' \<and> lp_inv arr' \<and>
    lp_fields arr' = map (move_link d) (lp_fields arr) @ [f]"
proof -
  have f': "next_prot_range f = None" "is_ll_start f"
    using f by (auto simp: init_lp_field_def split: option.splits)
  show ?thesis
  proof (cases "lp_capacity arr \<le> lp_size arr")
    case True
    then obtain addr where g: "lp_grow al arr = Some \<lparr>lp_block = addr,
       lp_fields = map (move_link (addr - lp_block arr)) (lp_fields arr), lp_capacity = lp_capacity arr * 2\<rparr>"
      "lp_capacity arr * 2 < SIZE_LIMIT"
      using lp_grow_ok [OF inv _ lim al] by auto
    have "lp_links addr (map (move_link (addr - lp_block arr)) (lp_fields arr))"
      using lp_links_move [of "lp_block arr" "lp_fields arr" "addr - lp_block arr"] inv
      by (simp add: lp_inv_def)
    from lp_links_snoc_start [OF this f'] g f True inv show ?thesis
      by (auto simp: add_lock_protection_field_def lp_append_ok lp_inv_def)
  next
    case False
    with inv f f' lp_links_snoc_start [OF _ f', of "lp_block arr" "lp_fields arr"] show ?thesis
      by (intro exI [of _ "arr\<lparr>lp_fields := lp_fields arr @ [f]\<rparr>"] exI [of _ 0])
        (auto simp: add_lock_protection_field_def lp_append_ok lp_inv_def)
  qed
qed

text \<open>Closing: every open range of the lock object ends here, nothing else changes.\<close>

definition close_range :: "32 word \<Rightarrow> nat \<Rightarrow> lock_protection_field \<Rightarrow> lock_protection_field" where
  "close_range h e f =
     (if protection_range_end f = SIZE_MAX \<and> lock_obj_hash f = h then f\<lparr>protection_range_end := e\<rparr> else f)"

lemma close_range_frame [simp]:
  "next_prot_range (close_range h e f) = next_prot_range f" "is_ll_start (close_range h e f) = is_ll_start f"
  "lock_obj_hash (close_range h e f) = lock_obj_hash f"
  "protection_range_start (close_range h e f) = protection_range_start f"
  "branch_depth (close_range h e f) = branch_depth f"
  by (simp_all add: close_range_def)

lemma lp_links_close:
  assumes "lp_links b fs" "i < length fs"
  shows "lp_links b (fs[i := close_range h e (fs ! i)])"
proof (cases "protection_range_end (fs ! i) = SIZE_MAX")
  case True
  with lp_links_open_next [OF assms] lp_links_update [OF assms] show ?thesis by simp
next
  case False
  then show ?thesis using assms by (simp add: close_range_def)
qed

lemma set_end_loop_fold:
  "lp_links (lp_block arr) (lp_fields arr) \<Longrightarrow> \<forall>i \<in> set is. i < lp_size arr \<Longrightarrow>
    set_end_loop arr h e is
      = Some (arr\<lparr>lp_fields := fold (\<lambda>i fs. fs[i := close_range h e (fs ! i)]) is (lp_fields arr)\<rparr>) \<and>
    lp_links (lp_block arr) (fold (\<lambda>i fs. fs[i := close_range h e (fs ! i)]) is (lp_fields arr))"
proof (induction "is" arbitrary: arr)
  case (Cons i "is")
  let ?f = "lp_fields arr ! i"
  let ?arr = "arr\<lparr>lp_fields := (lp_fields arr)[i := close_range h e ?f]\<rparr>"
  have i: "i < lp_size arr" using Cons.prems(2) by simp
  have IH: "set_end_loop ?arr h e is
      = Some (?arr\<lparr>lp_fields := fold (\<lambda>i fs. fs[i := close_range h e (fs ! i)]) is (lp_fields ?arr)\<rparr>) \<and>
    lp_links (lp_block ?arr) (fold (\<lambda>i fs. fs[i := close_range h e (fs ! i)]) is (lp_fields ?arr))"
    by (rule Cons.IH) (use Cons.prems lp_links_close in auto)
  show ?case
  proof (cases "protection_range_end ?f = SIZE_MAX \<and> lock_obj_hash ?f = h")
    case True
    then have "next_prot_range ?f = None"
      using lp_links_open_next [OF Cons.prems(1) i] by simp
    then have "get_lp_field_linked_list_end arr (lp_block arr, i) = Some (lp_block arr, i)"
      using i by (simp add: get_lp_field_linked_list_end.simps)
    with True i IH show ?thesis by (simp add: lp_update_def close_range_def)
  next
    case False
    with i IH show ?thesis by (auto simp: close_range_def)
  qed
qed simp

lemma set_protection_range_end_map:
  assumes "lp_inv arr"
  shows "set_protection_range_end arr (Some obj) e =
      Some (arr\<lparr>lp_fields := map (close_range (lock_tracking_gen_hash (cstr_chars obj)) e) (lp_fields arr)\<rparr>)"
    and "lp_inv (arr\<lparr>lp_fields := map (close_range (lock_tracking_gen_hash (cstr_chars obj)) e) (lp_fields arr)\<rparr>)"
  using set_end_loop_fold [of arr "[0..<lp_size arr]" "lock_tracking_gen_hash (cstr_chars obj)" e] assms
  by (auto simp: set_protection_range_end_def lp_inv_def fold_update_all)

text \<open>Continuing: when the block stays where it is, the copy is appended and linked.\<close>

lemma add_copy_in_place:
  assumes inv: "lp_inv arr" and i: "i < lp_size arr" and lim: "lp_size arr < ARR_LIMIT"
    and al: "in_place al (lp_block arr)"
  obtains cap where "add_lock_protection_copy al arr (lp_block arr, i) =
      Some (arr\<lparr>lp_fields := lp_fields arr @ [(lp_fields arr ! i)\<lparr>is_ll_start := False, next_prot_range := None\<rparr>],
                lp_capacity := cap\<rparr>, (lp_block arr, lp_size arr))"
    "lp_size arr < cap" "2 \<le> cap" "cap < SIZE_LIMIT"
proof (cases "lp_capacity arr - 1 \<le> lp_size arr")
  case True
  have s1: "sz_sub (lp_capacity arr) 1 = lp_capacity arr - 1"
    using inv by (simp add: lp_inv_def sz_sub_one)
  obtain g: "lp_grow al arr = Some (arr\<lparr>lp_capacity := lp_capacity arr * 2\<rparr>)" "lp_capacity arr * 2 < SIZE_LIMIT"
  proof (rule lp_grow_ok [OF inv _ lim in_place_never_fails [OF al]])
    show "lp_capacity arr \<le> Suc (lp_size arr)" using True by simp
    show "thesis" if "al (lp_capacity arr * 2 * SIZEOF_LP_FIELD) = Some addr"
      "lp_grow al arr = Some \<lparr>lp_block = addr,
         lp_fields = map (move_link (addr - lp_block arr)) (lp_fields arr), lp_capacity = lp_capacity arr * 2\<rparr>"
      "lp_capacity arr * 2 < SIZE_LIMIT" for addr
      using that al \<open>\<lbrakk>lp_grow al arr = Some (arr\<lparr>lp_capacity := lp_capacity arr * 2\<rparr>);
        lp_capacity arr * 2 < SIZE_LIMIT\<rbrakk> \<Longrightarrow> thesis\<close> by (simp add: in_place_def)
  qed
  have "lp_size arr < lp_capacity arr * 2" using inv by (auto simp: lp_inv_def)
  with True s1 g i inv show thesis
    by (intro that [of "lp_capacity arr * 2"])
      (auto simp: add_lock_protection_copy_def lp_append_ok lp_deref_def lp_inv_def)
next
  case False
  then have "\<not> sz_sub (lp_capacity arr) 1 \<le> lp_size arr"
    using inv by (simp add: lp_inv_def sz_sub_one)
  with False i inv show thesis
    by (intro that [of "lp_capacity arr"])
      (auto simp: add_lock_protection_copy_def lp_append_ok lp_inv_def)
qed

lemma lp_inv_extend:
  assumes "lp_inv arr" "i < lp_size arr" "next_prot_range (lp_fields arr ! i) = None"
    and "lp_size arr < cap" "2 \<le> cap" "cap < SIZE_LIMIT"
    and "next_prot_range f = Some (lp_block arr, lp_size arr)" "protection_range_end f \<noteq> SIZE_MAX"
      "is_ll_start f = is_ll_start (lp_fields arr ! i)" "lock_obj_hash f = lock_obj_hash (lp_fields arr ! i)"
    and "next_prot_range g = None" "\<not> is_ll_start g" "lock_obj_hash g = lock_obj_hash (lp_fields arr ! i)"
  shows "lp_inv (arr\<lparr>lp_capacity := cap, lp_fields := (lp_fields arr)[i := f] @ [g]\<rparr>)"
  using assms lp_links_extend [of "lp_block arr" "lp_fields arr" i f g] by (simp add: lp_inv_def)

text \<open>One iteration of either loop, on an element that is continued.\<close>

lemma lp_update_in [simp]:
  "i < lp_size arr \<Longrightarrow> lp_update arr (lp_block arr, i) g
    = Some (arr\<lparr>lp_fields := (lp_fields arr)[i := g (lp_fields arr ! i)]\<rparr>)"
  by (simp add: lp_update_def)

definition continued :: "nat \<Rightarrow> lock_protection_field \<Rightarrow> lock_protection_field" where
  "continued p f = f\<lparr>is_ll_start := False, next_prot_range := None, protection_range_start := p,
     protection_range_end := SIZE_MAX\<rparr>"

lemma continue_step:
  assumes inv: "lp_inv arr" and i: "i < lp_size arr" and lim: "lp_size arr < ARR_LIMIT"
    and al: "in_place al (lp_block arr)" and nx: "next_prot_range (lp_fields arr ! i) = None"
    and u: "\<And>q. next_prot_range (u q (lp_fields arr ! i)) = Some q"
      "\<And>q. protection_range_end (u q (lp_fields arr ! i)) \<noteq> SIZE_MAX"
      "\<And>q. is_ll_start (u q (lp_fields arr ! i)) = is_ll_start (lp_fields arr ! i)"
      "\<And>q. lock_obj_hash (u q (lp_fields arr ! i)) = lock_obj_hash (lp_fields arr ! i)"
  obtains cap where
    "Option.bind (add_lock_protection_copy al arr (lp_block arr, i)) (\<lambda>(arr1, new).
       Option.bind (lp_update arr1 (lp_block arr, i) (u new)) (\<lambda>arr2.
       Option.bind (lp_update arr2 new (\<lambda>g. g\<lparr>protection_range_start := p, protection_range_end := SIZE_MAX\<rparr>)) k))
     = k (arr\<lparr>lp_capacity := cap, lp_fields := (lp_fields arr)[i := u (lp_block arr, lp_size arr) (lp_fields arr ! i)]
            @ [continued p (lp_fields arr ! i)]\<rparr>)"
    "lp_inv (arr\<lparr>lp_capacity := cap, lp_fields := (lp_fields arr)[i := u (lp_block arr, lp_size arr) (lp_fields arr ! i)]
            @ [continued p (lp_fields arr ! i)]\<rparr>)"
proof (rule add_copy_in_place [OF inv i lim al])
  fix cap
  assume c: "add_lock_protection_copy al arr (lp_block arr, i) =
      Some (arr\<lparr>lp_fields := lp_fields arr @ [(lp_fields arr ! i)\<lparr>is_ll_start := False, next_prot_range := None\<rparr>],
                lp_capacity := cap\<rparr>, (lp_block arr, lp_size arr))"
    "lp_size arr < cap" "2 \<le> cap" "cap < SIZE_LIMIT"
  show thesis
  proof (rule that)
    show "lp_inv (arr\<lparr>lp_capacity := cap, lp_fields := (lp_fields arr)[i := u (lp_block arr, lp_size arr) (lp_fields arr ! i)]
            @ [continued p (lp_fields arr ! i)]\<rparr>)"
      using u by (intro lp_inv_extend [OF inv i nx c(2-4)]) (auto simp: continued_def)
  qed (use c i in \<open>simp add: lp_update_def lp_deref_def nth_append list_update_append continued_def\<close>)
qed

text \<open>What the open ranges protect at an index: the hashes of the lock objects.\<close>

definition protecting :: "lock_protection_field \<Rightarrow> nat \<Rightarrow> bool" where
  "protecting f v \<longleftrightarrow> protection_range_start f < v \<and> v < protection_range_end f"

definition prot_objs :: "protection_field_array \<Rightarrow> nat \<Rightarrow> 32 word multiset" where
  "prot_objs arr v =
     image_mset lock_obj_hash (filter_mset (\<lambda>f. protecting f v) (mset (lp_fields arr)))"

lemma prot_objs_step:
  assumes "i < length fs" "protection_range_end (fs ! i) = SIZE_MAX"
    and "protection_range_start (fs ! i) \<le> p" "v \<noteq> p" "v < SIZE_MAX"
    and "protection_range_start f = protection_range_start (fs ! i)" "protection_range_end f = p"
      "lock_obj_hash f = lock_obj_hash (fs ! i)"
  shows "image_mset lock_obj_hash (filter_mset (\<lambda>f. protecting f v) (mset (fs[i := f] @ [continued p (fs ! i)])))
    = image_mset lock_obj_hash (filter_mset (\<lambda>f. protecting f v) (mset fs))"
proof -
  define R where "R = mset fs - {#fs ! i#}"
  have "mset fs = add_mset (fs ! i) R"
    and "mset (fs[i := f] @ [continued p (fs ! i)]) = add_mset f (add_mset (continued p (fs ! i)) R)"
    using assms(1) by (simp_all add: R_def mset_update)
  moreover have "lock_obj_hash (continued p (fs ! i)) = lock_obj_hash (fs ! i)"
    "protecting (continued p (fs ! i)) v \<longleftrightarrow> p < v"
    "protecting f v \<longleftrightarrow> protection_range_start (fs ! i) < v \<and> v < p"
    "protecting (fs ! i) v \<longleftrightarrow> protection_range_start (fs ! i) < v"
    using assms by (auto simp: protecting_def continued_def)
  ultimately show ?thesis
    using assms(3,4,8) by auto
qed

lemma active_loop_ok:
  "lp_inv arr \<Longrightarrow> in_place al (lp_block arr) \<Longrightarrow> p \<noteq> SIZE_MAX \<Longrightarrow> \<forall>i \<in> set is. i < lp_size arr \<Longrightarrow>
    lp_size arr + length is \<le> ARR_LIMIT \<Longrightarrow>
    \<exists>arr'. active_loop al arr p depth is = Some arr' \<and> lp_inv arr' \<and> lp_block arr' = lp_block arr \<and>
      lp_size arr' \<le> lp_size arr + length is \<and>
      (\<forall>v. v \<noteq> p \<longrightarrow> v < SIZE_MAX \<longrightarrow>
         (\<forall>f \<in> set (lp_fields arr). protection_range_end f = SIZE_MAX \<longrightarrow> protection_range_start f \<le> p) \<longrightarrow>
         prot_objs arr' v = prot_objs arr v)"
proof (induction "is" arbitrary: arr)
  case (Cons i "is")
  let ?f = "lp_fields arr ! i"
  have i: "i < lp_size arr" and lim: "lp_size arr < ARR_LIMIT" using Cons.prems(4,5) by auto
  show ?case
  proof (cases "protection_range_end ?f = SIZE_MAX")
    case False
    with Cons.IH [of arr] Cons.prems i show ?thesis by fastforce
  next
    case True
    let ?u = "\<lambda>new g. g\<lparr>next_prot_range := Some new, protection_range_end := p, branch_depth := depth\<rparr>"
    have nx: "next_prot_range ?f = None"
      using lp_links_open_next [of "lp_block arr" "lp_fields arr"] Cons.prems(1) i True by (simp add: lp_inv_def)
    obtain cap where arr1:
      "active_loop al arr p depth (i # is) = active_loop al (arr\<lparr>lp_capacity := cap, lp_fields :=
          (lp_fields arr)[i := ?u (lp_block arr, lp_size arr) ?f] @ [continued p ?f]\<rparr>) p depth is"
      and inv: "lp_inv (arr\<lparr>lp_capacity := cap, lp_fields :=
          (lp_fields arr)[i := ?u (lp_block arr, lp_size arr) ?f] @ [continued p ?f]\<rparr>)"
      by (rule continue_step [OF Cons.prems(1) i lim Cons.prems(2) nx, of ?u p
            "\<lambda>a. active_loop al a p depth is"]) (use Cons.prems(3) i True in auto)
    define arr2 where "arr2 = arr\<lparr>lp_capacity := cap, lp_fields :=
          (lp_fields arr)[i := ?u (lp_block arr, lp_size arr) ?f] @ [continued p ?f]\<rparr>"
    have size: "lp_block arr2 = lp_block arr" "lp_size arr2 = Suc (lp_size arr)"
      by (simp_all add: arr2_def)
    have "\<forall>j \<in> set is. j < lp_size arr2" using Cons.prems(4) size by auto
    then obtain arr' where arr': "active_loop al arr2 p depth is = Some arr'" "lp_inv arr'"
      "lp_block arr' = lp_block arr" "lp_size arr' \<le> lp_size arr + length (i # is)"
      and prot: "\<And>v. v \<noteq> p \<Longrightarrow> v < SIZE_MAX \<Longrightarrow>
         \<forall>f \<in> set (lp_fields arr2). protection_range_end f = SIZE_MAX \<longrightarrow> protection_range_start f \<le> p \<Longrightarrow>
         prot_objs arr' v = prot_objs arr2 v"
      using Cons.IH [of arr2] inv Cons.prems size unfolding arr2_def [symmetric] by auto
    have "prot_objs arr' v = prot_objs arr v"
      if v: "v \<noteq> p" "v < SIZE_MAX" and st: "\<forall>f \<in> set (lp_fields arr). protection_range_end f = SIZE_MAX \<longrightarrow>
        protection_range_start f \<le> p" for v
    proof -
      have "\<forall>f \<in> set (lp_fields arr2). protection_range_end f = SIZE_MAX \<longrightarrow> protection_range_start f \<le> p"
        using st Cons.prems(3)
        by (auto simp: arr2_def continued_def dest!: set_update_subset_insert [THEN subsetD])
      then have "prot_objs arr' v = prot_objs arr2 v" using v by (intro prot)
      also have "\<dots> = prot_objs arr v"
        using prot_objs_step [OF i True _ v] st i True by (simp add: prot_objs_def arr2_def)
      finally show ?thesis .
    qed
    with arr1 arr' show ?thesis unfolding arr2_def [symmetric] by simp
  qed
qed simp

lemma inactive_loop_ok:
  "lp_inv arr \<Longrightarrow> in_place al (lp_block arr) \<Longrightarrow> \<forall>i \<in> set is. i < lp_size arr \<Longrightarrow>
    lp_size arr + length is \<le> ARR_LIMIT \<Longrightarrow>
    \<exists>arr'. inactive_loop al arr p depth is = Some arr' \<and> lp_inv arr' \<and> lp_block arr' = lp_block arr \<and>
      lp_size arr' \<le> lp_size arr + length is"
proof (induction "is" arbitrary: arr)
  case (Cons i "is")
  let ?f = "lp_fields arr ! i"
  have i: "i < lp_size arr" and lim: "lp_size arr < ARR_LIMIT" using Cons.prems(3,4) by auto
  show ?case
  proof (cases "next_prot_range ?f = None \<and> protection_range_end ?f \<noteq> SIZE_MAX \<and> branch_depth ?f = depth")
    case False
    then have "inactive_loop al arr p depth (i # is) = inactive_loop al arr p depth is"
      using i by auto
    with Cons.IH [of arr] Cons.prems show ?thesis by fastforce
  next
    case True
    let ?u = "\<lambda>new g. g\<lparr>next_prot_range := Some new\<rparr>"
    obtain cap where arr1:
      "inactive_loop al arr p depth (i # is) = inactive_loop al (arr\<lparr>lp_capacity := cap, lp_fields :=
          (lp_fields arr)[i := ?u (lp_block arr, lp_size arr) ?f] @ [continued p ?f]\<rparr>) p depth is"
      and inv: "lp_inv (arr\<lparr>lp_capacity := cap, lp_fields :=
          (lp_fields arr)[i := ?u (lp_block arr, lp_size arr) ?f] @ [continued p ?f]\<rparr>)"
      by (rule continue_step [OF Cons.prems(1) i lim Cons.prems(2), of ?u p
            "\<lambda>a. inactive_loop al a p depth is"]) (use i True in auto)
    define arr2 where "arr2 = arr\<lparr>lp_capacity := cap, lp_fields :=
          (lp_fields arr)[i := ?u (lp_block arr, lp_size arr) ?f] @ [continued p ?f]\<rparr>"
    have size: "lp_block arr2 = lp_block arr" "lp_size arr2 = Suc (lp_size arr)"
      by (simp_all add: arr2_def)
    have "\<forall>j \<in> set is. j < lp_size arr2" using Cons.prems(3) size by auto
    with arr1 Cons.IH [of arr2] inv Cons.prems size show ?thesis
      unfolding arr2_def [symmetric] by auto
  qed
qed simp

section \<open>The comparison\<close>

lemma cond_prot_never:
  assumes "lp_links b fs" "f \<in> set fs"
  shows "\<not> lp_cond_prot f v"
  using assms lp_links_open_next [OF assms(1)] by (fastforce simp: in_set_conv_nth lp_cond_prot_def)

lemma in_range_prot_objs:
  assumes inv: "lp_inv arr"
  shows "\<exists>fs. get_lp_fields_in_range arr v = Some fs \<and> image_mset lock_obj_hash (mset fs) = prot_objs arr v \<and>
    set fs \<subseteq> set (lp_fields arr)"
proof -
  have links: "lp_links (lp_block arr) (lp_fields arr)" using inv by (simp add: lp_inv_def)
  then obtain fs where fs: "get_lp_fields_in_range arr v = Some fs"
    "mset fs = filter_mset (\<lambda>f. lp_in_range f v) (mset (lp_fields arr))"
    using in_range_mset by blast
  have "lp_in_range f v \<longleftrightarrow> protecting f v" if "f \<in> set (lp_fields arr)" for f
    using cond_prot_never [OF links that] by (simp add: lp_in_range_def protecting_def)
  then have "mset fs = filter_mset (\<lambda>f. protecting f v) (mset (lp_fields arr))"
    using fs(2) by (auto intro: filter_mset_cong)
  moreover from this have "set fs \<subseteq> set (lp_fields arr)"
    by (metis mset_subset_eqD multiset_filter_subset set_mset_mset subsetI)
  ultimately show ?thesis using fs(1) by (simp add: prot_objs_def)
qed

lemma match_inner_True:
  "match_inner a bs = Inr True \<Longrightarrow> \<exists>b \<in> set bs. equal_lp_fields a b"
  by (induction bs) (auto split: if_splits)

lemma match_outer_Protected:
  "match_outer as bs = Shared_Protected \<Longrightarrow> a \<in> set as \<Longrightarrow> \<exists>b \<in> set bs. equal_lp_fields a b"
proof (induction "as")
  case (Cons a' as)
  have "q \<noteq> Shared_Protected" if "match_inner a' bs = Inl q" for q
    using that by (induction bs) (auto split: if_splits)
  with Cons show ?case
    by (auto dest: match_inner_True split: sum.splits if_splits)
qed simp

lemma match_inner_flat:
  "\<forall>b \<in> set bs. branch_depth b = 0 \<Longrightarrow>
    match_inner a bs = Inr (\<exists>b \<in> set bs. equal_lp_fields a b)"
  by (induction bs) auto

lemma match_outer_flat:
  "\<forall>b \<in> set bs. branch_depth b = 0 \<Longrightarrow>
    match_outer as bs = (if \<forall>a \<in> set as. \<exists>b \<in> set bs. equal_lp_fields a b
                         then Shared_Protected else Shared_Unprotected)"
  by (induction "as") (auto simp: match_inner_flat)

lemma hash_in_mset:
  "(\<exists>b \<in> set bs. equal_lp_fields a b) \<longleftrightarrow> lock_obj_hash a \<in># image_mset lock_obj_hash (mset bs)"
  by (auto simp: equal_lp_fields_def)

text \<open>The comparison on the lock objects that protect the two accesses.\<close>

lemma matching_flat:
  assumes "lp_inv a" "lp_inv b" "\<forall>f \<in> set (lp_fields b). branch_depth f = 0"
  shows "matching_protection_field_arrays a b i j =
    Some (if size (prot_objs a i) = size (prot_objs b j) \<and> set_mset (prot_objs a i) \<subseteq> set_mset (prot_objs b j)
          then Shared_Protected else Shared_Unprotected)"
proof -
  obtain fa where fa: "get_lp_fields_in_range a i = Some fa" "image_mset lock_obj_hash (mset fa) = prot_objs a i"
    using in_range_prot_objs [OF assms(1)] by blast
  obtain fb where fb: "get_lp_fields_in_range b j = Some fb" "image_mset lock_obj_hash (mset fb) = prot_objs b j"
    and "set fb \<subseteq> set (lp_fields b)"
    using in_range_prot_objs [OF assms(2)] by blast
  then have flat: "\<forall>f \<in> set fb. branch_depth f = 0" using assms(3) by blast
  have "size (prot_objs a i) = length fa" "size (prot_objs b j) = length fb"
    unfolding fa(2) [symmetric] fb(2) [symmetric] by simp_all
  moreover have "(\<forall>a \<in> set fa. \<exists>b \<in> set fb. equal_lp_fields a b) \<longleftrightarrow>
      set_mset (prot_objs a i) \<subseteq> set_mset (prot_objs b j)"
    unfolding fa(2) [symmetric] fb(2) [symmetric] hash_in_mset by auto
  ultimately show ?thesis
    using fa(1) fb(1) match_outer_flat [OF flat]
    by (simp add: matching_protection_field_arrays_def)
qed

lemma matching_Protected:
  assumes "lp_inv a" "lp_inv b" "matching_protection_field_arrays a b i j = Some Shared_Protected"
  shows "size (prot_objs a i) = size (prot_objs b j) \<and> set_mset (prot_objs a i) \<subseteq> set_mset (prot_objs b j)"
proof -
  obtain fa where fa: "get_lp_fields_in_range a i = Some fa" "image_mset lock_obj_hash (mset fa) = prot_objs a i"
    using in_range_prot_objs [OF assms(1)] by blast
  obtain fb where fb: "get_lp_fields_in_range b j = Some fb" "image_mset lock_obj_hash (mset fb) = prot_objs b j"
    using in_range_prot_objs [OF assms(2)] by blast
  have "length fa = length fb" "match_outer fa fb = Shared_Protected"
    using assms(3) fa(1) fb(1)
    by (auto simp: matching_protection_field_arrays_def split: if_splits)
  then have "size (mset fa) = size (mset fb)" "\<forall>a \<in> set fa. \<exists>b \<in> set fb. equal_lp_fields a b"
    using match_outer_Protected by (simp, blast)
  then show ?thesis
    unfolding fa(2) [symmetric] fb(2) [symmetric] hash_in_mset by auto
qed

text \<open>A continuation through a block that moves.\<close>

lemma add_copy_moved:
  assumes "lp_capacity arr \<le> Suc (lp_size arr)" "0 < lp_capacity arr" "lp_capacity arr < SIZE_LIMIT"
    and "\<forall>n. al n \<noteq> Some (lp_block arr)"
  shows "add_lock_protection_copy al arr (lp_block arr, i) = None"
proof -
  have "lp_block arr1 \<noteq> lp_block arr" if "lp_grow al arr = Some arr1" for arr1
    using that assms(4)
    by (auto simp: lp_grow_def Let_def update_lp_field_array_pointers_def reallocarray_def
        split: option.splits if_splits)
  then show ?thesis
    using assms(1-3)
    by (cases "lp_grow al arr") (auto simp: add_lock_protection_copy_def sz_sub_one lp_deref_def)
qed

lemma active_loop_moved:
  assumes "lp_capacity arr \<le> Suc (lp_size arr)" "0 < lp_capacity arr" "lp_capacity arr < SIZE_LIMIT"
    and "\<forall>n. al n \<noteq> Some (lp_block arr)"
  shows "\<exists>i \<in> set is. i < lp_size arr \<longrightarrow> protection_range_end (lp_fields arr ! i) = SIZE_MAX \<Longrightarrow>
    active_loop al arr p depth is = None"
proof (induction "is")
  case (Cons i "is")
  show ?case
  proof (cases "i < lp_size arr \<and> protection_range_end (lp_fields arr ! i) \<noteq> SIZE_MAX")
    case True
    with Cons show ?thesis by auto
  next
    case False
    with add_copy_moved [OF assms] show ?thesis
      by (cases "i < lp_size arr") (auto simp: lp_deref_def)
  qed
qed simp

section \<open>The interface of the annotation\<close>

text \<open>What the annotation of a footprint does to the ranges when it meets no branch: it
  opens a range at every acquisition and closes the ranges of an object at its release.\<close>

datatype 'l lock_event = Acquire 'l | Release 'l | Access

fun run_events ::
  "('s \<Rightarrow> 'l \<Rightarrow> nat \<Rightarrow> 's option) \<Rightarrow> ('s \<Rightarrow> 'l \<Rightarrow> nat \<Rightarrow> 's option) \<Rightarrow> 's \<Rightarrow> nat \<Rightarrow>
   'l lock_event list \<Rightarrow> 's option" where
  "run_events opn cls s i [] = Some s"
| "run_events opn cls s i (Acquire l # es) = Option.bind (opn s l i) (\<lambda>s'. run_events opn cls s' (Suc i) es)"
| "run_events opn cls s i (Release l # es) = Option.bind (cls s l i) (\<lambda>s'. run_events opn cls s' (Suc i) es)"
| "run_events opn cls s i (Access # es) = run_events opn cls s (Suc i) es"

text \<open>The specification: the objects held after a sequence of events.\<close>

fun lockset :: "('l \<Rightarrow> 'h) \<Rightarrow> 'h list \<Rightarrow> 'l lock_event list \<Rightarrow> 'h list" where
  "lockset obj held [] = held"
| "lockset obj held (Acquire l # es) = lockset obj (held @ [obj l]) es"
| "lockset obj held (Release l # es) = lockset obj (filter (\<lambda>h. h \<noteq> obj l) held) es"
| "lockset obj held (Access # es) = lockset obj held es"

text \<open>What protects the event itself: a release is no longer protected by its object.\<close>

fun held_at :: "('l \<Rightarrow> 'h) \<Rightarrow> 'h list \<Rightarrow> 'l lock_event \<Rightarrow> 'h list" where
  "held_at obj held (Release l) = filter (\<lambda>h. h \<noteq> obj l) held"
| "held_at obj held _ = held"

type_synonym 'h range = "'h \<times> nat \<times> nat"

definition ranges_at :: "'h range list \<Rightarrow> nat \<Rightarrow> 'h list" where
  "ranges_at rs v = map fst (filter (\<lambda>(h, b, e). b < v \<and> v < e) rs)"

definition open_ranges :: "'h range list \<Rightarrow> 'h list" where
  "open_ranges rs = map fst (filter (\<lambda>(h, b, e). e = SIZE_MAX) rs)"

definition ranges_before :: "'h range list \<Rightarrow> nat \<Rightarrow> bool" where
  "ranges_before rs n \<longleftrightarrow> (\<forall>(h, b, e) \<in> set rs. b < n \<and> (e = SIZE_MAX \<or> e < n))"

definition end_ranges :: "'h \<Rightarrow> nat \<Rightarrow> 'h range list \<Rightarrow> 'h range list" where
  "end_ranges h0 i = map (\<lambda>(h, b, e). if e = SIZE_MAX \<and> h = h0 then (h, b, i) else (h, b, e))"

locale range_store =
  fixes inv :: "'s \<Rightarrow> bool"
    and ranges :: "'s \<Rightarrow> 'h range list"
    and opn :: "'s \<Rightarrow> 'l \<Rightarrow> nat \<Rightarrow> 's option"
    and cls :: "'s \<Rightarrow> 'l \<Rightarrow> nat \<Rightarrow> 's option"
    and obj :: "'l \<Rightarrow> 'h"
    and valid :: "'l \<Rightarrow> bool"
  assumes open_law: "inv s \<Longrightarrow> valid l \<Longrightarrow> length (ranges s) < ARR_LIMIT \<Longrightarrow>
      \<exists>s'. opn s l i = Some s' \<and> inv s' \<and> ranges s' = ranges s @ [(obj l, i, SIZE_MAX)]"
    and close_law: "inv s \<Longrightarrow> valid l \<Longrightarrow>
      \<exists>s'. cls s l i = Some s' \<and> inv s' \<and> ranges s' = end_ranges (obj l) i (ranges s)"
begin

lemma open_step:
  assumes "ranges_before rs i" "i < SIZE_MAX"
  shows "ranges_before (rs @ [(h, i, SIZE_MAX)]) (Suc i)"
    "open_ranges (rs @ [(h, i, SIZE_MAX)]) = open_ranges rs @ [h]"
    "v \<le> i \<Longrightarrow> ranges_at (rs @ [(h, i, SIZE_MAX)]) v = ranges_at rs v"
  using assms by (auto simp: ranges_before_def open_ranges_def ranges_at_def)

lemma close_step:
  assumes "ranges_before rs i" "i < SIZE_MAX"
  shows "ranges_before (end_ranges h i rs) (Suc i)"
    "open_ranges (end_ranges h i rs) = filter (\<lambda>g. g \<noteq> h) (open_ranges rs)"
    "v < i \<Longrightarrow> ranges_at (end_ranges h i rs) v = ranges_at rs v"
    "ranges_at (end_ranges h i rs) i = filter (\<lambda>g. g \<noteq> h) (open_ranges rs)"
proof -
  show "ranges_before (end_ranges h i rs) (Suc i)"
    using assms(1) by (fastforce simp: ranges_before_def end_ranges_def split: if_splits)
  show "open_ranges (end_ranges h i rs) = filter (\<lambda>g. g \<noteq> h) (open_ranges rs)"
  proof (induction rs)
    case (Cons r rs)
    then show ?case
      using assms(2) by (cases r) (simp add: open_ranges_def end_ranges_def)
  qed (simp add: open_ranges_def end_ranges_def)
  show "ranges_at (end_ranges h i rs) v = ranges_at rs v" if "v < i"
  proof (induction rs)
    case (Cons r rs)
    then show ?case
      using assms(2) that by (cases r) (simp add: ranges_at_def end_ranges_def)
  qed (simp add: ranges_at_def end_ranges_def)
  show "ranges_at (end_ranges h i rs) i = filter (\<lambda>g. g \<noteq> h) (open_ranges rs)"
    using assms(1)
  proof (induction rs)
    case (Cons r rs)
    then show ?case
      using assms(2) by (cases r) (auto simp: ranges_at_def open_ranges_def end_ranges_def ranges_before_def)
  qed (simp add: ranges_at_def end_ranges_def open_ranges_def)
qed

lemma access_step:
  assumes "ranges_before rs i" "i < SIZE_MAX"
  shows "ranges_before rs (Suc i)" "ranges_at rs i = open_ranges rs"
  using assms by (induction rs) (auto simp: ranges_before_def open_ranges_def ranges_at_def)

text \<open>Running the events yields ranges that say, at every access, which objects are held.\<close>

lemma run_lockset:
  "inv s \<Longrightarrow> ranges_before (ranges s) i \<Longrightarrow> \<forall>l. Acquire l \<in> set es \<or> Release l \<in> set es \<longrightarrow> valid l \<Longrightarrow>
    i + length es < SIZE_MAX \<Longrightarrow> length (ranges s) + length es \<le> ARR_LIMIT \<Longrightarrow>
    \<exists>s'. run_events opn cls s i es = Some s' \<and> inv s' \<and>
      (\<forall>v < i. ranges_at (ranges s') v = ranges_at (ranges s) v) \<and>
      (\<forall>k < length es.
         ranges_at (ranges s') (i + k) = held_at obj (lockset obj (open_ranges (ranges s)) (take k es)) (es ! k))"
proof (induction es arbitrary: s i)
  case (Cons e es)
  have i: "i < SIZE_MAX" using Cons.prems(4) by simp
  have next_step: ?case
    if s1: "run_events opn cls s i (e # es) = run_events opn cls s1 (Suc i) es" "inv s1"
      "ranges_before (ranges s1) (Suc i)" "length (ranges s1) \<le> Suc (length (ranges s))"
      and before: "\<And>v. v < i \<Longrightarrow> ranges_at (ranges s1) v = ranges_at (ranges s) v"
      and here: "ranges_at (ranges s1) i = held_at obj (open_ranges (ranges s)) e"
      and held: "\<And>es'. lockset obj (open_ranges (ranges s)) (e # es') = lockset obj (open_ranges (ranges s1)) es'"
    for s1
  proof -
    obtain s' where s': "run_events opn cls s1 (Suc i) es = Some s'" "inv s'"
      "\<forall>v < Suc i. ranges_at (ranges s') v = ranges_at (ranges s1) v"
      "\<forall>k < length es.
         ranges_at (ranges s') (Suc i + k) = held_at obj (lockset obj (open_ranges (ranges s1)) (take k es)) (es ! k)"
      using Cons.IH [OF s1(2,3)] Cons.prems s1(4) by auto
    moreover have "ranges_at (ranges s') (i + k)
        = held_at obj (lockset obj (open_ranges (ranges s)) (take k (e # es))) ((e # es) ! k)"
      if "k < length (e # es)" for k
      using that s'(3,4) here held by (cases k) auto
    ultimately show ?thesis using s1(1) before by auto
  qed
  show ?case
  proof (cases e)
    case (Acquire l)
    then obtain s1 where "opn s l i = Some s1" "inv s1" "ranges s1 = ranges s @ [(obj l, i, SIZE_MAX)]"
      using open_law [of s l i] Cons.prems by auto
    with Acquire open_step [OF Cons.prems(2) i] access_step [OF Cons.prems(2) i] show ?thesis
      by (intro next_step [of s1]) auto
  next
    case (Release l)
    then obtain s1 where "cls s l i = Some s1" "inv s1" "ranges s1 = end_ranges (obj l) i (ranges s)"
      using close_law [of s l i] Cons.prems by auto
    with Release close_step [OF Cons.prems(2) i] show ?thesis
      by (intro next_step [of s1]) (auto simp: end_ranges_def)
  next
    case Access
    with access_step [OF Cons.prems(2) i] Cons.prems(1) show ?thesis
      by (intro next_step [of s]) auto
  qed
qed auto

lemma run_opens:
  "inv s \<Longrightarrow> \<forall>l. Acquire l \<in> set es \<or> Release l \<in> set es \<longrightarrow> valid l \<Longrightarrow>
    length (ranges s) + length es \<le> ARR_LIMIT \<Longrightarrow> run_events opn cls s i es = Some s' \<Longrightarrow>
    length (ranges s') = length (ranges s) + length (filter (\<lambda>e. \<exists>l. e = Acquire l) es)"
proof (induction es arbitrary: s i)
  case (Cons e es)
  show ?case
  proof (cases e)
    case (Acquire l)
    then obtain s1 where "opn s l i = Some s1" "inv s1" "ranges s1 = ranges s @ [(obj l, i, SIZE_MAX)]"
      using open_law [of s l i] Cons.prems by auto
    with Acquire Cons.IH [of s1 "Suc i"] Cons.prems show ?thesis by auto
  next
    case (Release l)
    then obtain s1 where "cls s l i = Some s1" "inv s1" "ranges s1 = end_ranges (obj l) i (ranges s)"
      using close_law [of s l i] Cons.prems by auto
    with Release Cons.IH [of s1 "Suc i"] Cons.prems show ?thesis by (auto simp: end_ranges_def)
  next
    case Access
    with Cons.IH [of s "Suc i"] Cons.prems show ?thesis by auto
  qed
qed simp

end

text \<open>The model's arrays without branches: no element has a successor.\<close>

definition flat_ranges :: "allocator \<Rightarrow> protection_field_array \<Rightarrow> bool" where
  "flat_ranges al arr \<longleftrightarrow> never_fails al \<and> lp_inv arr \<and>
     (\<forall>f \<in> set (lp_fields arr). next_prot_range f = None \<and> is_ll_start f \<and> branch_depth f = 0)"

definition field_ranges :: "protection_field_array \<Rightarrow> 32 word range list" where
  "field_ranges arr =
     map (\<lambda>f. (lock_obj_hash f, protection_range_start f, protection_range_end f)) (lp_fields arr)"

definition lock_obj :: "lock_primitive_pair \<times> var_access \<Rightarrow> 32 word" where
  "lock_obj l = lock_tracking_gen_hash (show_ptr (va_usr (snd l)))"

definition lock_valid :: "lock_primitive_pair \<times> var_access \<Rightarrow> bool" where
  "lock_valid l \<longleftrightarrow> \<not> lock_pair_is_null (fst l) \<and> va_usr (snd l) \<noteq> None"

interpretation lp: range_store "flat_ranges al" field_ranges
  "\<lambda>arr l i. add_lock_protection_field al arr (fst l) (snd l) i"
  "\<lambda>arr l i. set_protection_range_end arr (va_usr (snd l)) i" lock_obj lock_valid
  for al
proof (unfold_locales, goal_cases)
  case (1 arr l i)
  then obtain f where f: "init_lp_field (fst l) (snd l) i = Some f" "next_prot_range f = None"
    "is_ll_start f" "branch_depth f = 0" "lock_obj_hash f = lock_obj l"
    "protection_range_start f = i" "protection_range_end f = SIZE_MAX"
    by (auto simp: lock_valid_def lock_pair_is_null_def init_lp_field_def lock_obj_def show_ptr_def)
  obtain arr' d where "add_lock_protection_field al arr (fst l) (snd l) i = Some arr'" "lp_inv arr'"
    "lp_fields arr' = map (move_link d) (lp_fields arr) @ [f]"
    using add_field_ok [of arr al, OF _ _ _ f(1)] 1 by (auto simp: flat_ranges_def field_ranges_def)
  with 1 f show ?case by (auto simp: flat_ranges_def field_ranges_def)
next
  case (2 arr l i)
  then obtain p where p: "va_usr (snd l) = Some p" "lock_tracking_gen_hash (cstr_chars p) = lock_obj l"
    by (auto simp: lock_valid_def lock_obj_def show_ptr_def)
  with 2 set_protection_range_end_map [of arr p i] show ?case
    by (auto simp: flat_ranges_def field_ranges_def end_ranges_def close_range_def)
qed

lemma flat_ranges_prot_objs:
  "prot_objs arr v = mset (ranges_at (field_ranges arr) v)"
  by (simp add: prot_objs_def ranges_at_def field_ranges_def protecting_def filter_map comp_def
      flip: mset_map mset_filter)

end
