(* ===== verification/Overlap.thy ===== *)
theory Overlap
  imports Footprint Lock_Ranges
begin

text \<open>
  The comparison of two functions (\<open>src/core.c\<close>, lines 892 to 1210): tracing an access to
  the functions it is reached through, the search for overlapping accesses, the annotation
  of a footprint with lock protection ranges, the search for unprotected accesses and the
  search for named variables.

  What the compiler library and the source files contribute to the output is a parameter:
  \<open>file_name c\<close> is the file of the function at cursor \<open>c\<close>, \<open>source_line c l k\<close> what is
  printed for line \<open>l\<close>, column \<open>k\<close> of that file.
\<close>

record 'c source_info =
  file_name :: "'c option \<Rightarrow> string"
  source_line :: "'c option \<Rightarrow> nat \<Rightarrow> nat \<Rightarrow> string"

section \<open>Colours\<close>

definition esc_seq :: "string \<Rightarrow> string" where
  "esc_seq s = [CHR 0x1B, CHR ''[''] @ s"

definition BRIGHT_BOLD_RED :: string where
  "BRIGHT_BOLD_RED = esc_seq ''1;91m''"

definition BRIGHT_BOLD_YELLOW :: string where
  "BRIGHT_BOLD_YELLOW = esc_seq ''1;33m''"

definition CLR_RESET :: string where
  "CLR_RESET = esc_seq ''0m''"

definition CLR_FUNC :: string where
  "CLR_FUNC = esc_seq ''1;36m''"

definition CLR_ARROW :: string where
  "CLR_ARROW = BRIGHT_BOLD_YELLOW"

definition CLR_LOC :: string where
  "CLR_LOC = esc_seq ''0;34m''"

definition CLR_VAR :: string where
  "CLR_VAR = esc_seq ''1;37m''"

definition CLR_UNPROTECTED :: string where
  "CLR_UNPROTECTED = BRIGHT_BOLD_RED"

definition CLR_UNCERTAIN :: string where
  "CLR_UNCERTAIN = BRIGHT_BOLD_YELLOW"

definition END_MARK :: string where
  "END_MARK = [CHR 0xE2, CHR 0x94, CHR 0x94, CHR 0xE2, CHR 0x94, CHR 0x80, CHR 0xE2, CHR 0x94, CHR 0x80]"

definition ARROW_MARK :: string where
  "ARROW_MARK = [CHR 0xE2, CHR 0x86, CHR 0x92]"

definition PIPE_MARK :: string where
  "PIPE_MARK = [CHR 0xE2, CHR 0x94, CHR 0x82]"

definition RULE :: string where
  "RULE = ''-------------------''"

section \<open>Tracing\<close>

fun show_access_kind :: "var_access_type \<Rightarrow> string" where
  "show_access_kind VarAccess_Read = esc_seq ''0;32m'' @ ''READ'' @ CLR_RESET"
| "show_access_kind VarAccess_Write = esc_seq ''0;31m'' @ ''WRITE'' @ CLR_RESET"
| "show_access_kind VarAccess_PtrRead = esc_seq ''0;92m'' @ ''READ FROM ADDR'' @ CLR_RESET"
| "show_access_kind VarAccess_PtrWrite = BRIGHT_BOLD_RED @ ''WRITE TO ADDR'' @ CLR_RESET"
| "show_access_kind VarAccess_Escape = esc_seq ''0;35m'' @ ''ESCAPE'' @ CLR_RESET"
| "show_access_kind _ = ''?''"

definition show_access_details :: "'c source_info \<Rightarrow> 'c func_info \<Rightarrow> var_access \<Rightarrow> string" where
  "show_access_details src f va =
     '' '' @ CLR_ARROW @ ARROW_MARK @ CLR_RESET @ '' '' @ CLR_LOC @ file_name src (fi_cursor f)
     @ '', line: '' @ show_int32 (va_line va) @ '', col: '' @ show_int32 (va_column va) @ CLR_RESET
     @ ''  '' @ CLR_ARROW @ PIPE_MARK @ CLR_RESET @ '' ''
     @ show_access_kind (va_type va) @ '' : '' @ CLR_VAR @ show_ptr (va_name va) @ CLR_RESET
     @ (if va_is_ptr_type va then '' (ptr)'' else '''') @ NL"

definition show_trace_line ::
  "'c source_info \<Rightarrow> 'c func_info \<Rightarrow> var_access \<Rightarrow> string list \<Rightarrow> nat \<Rightarrow> string" where
  "show_trace_line src f va call_trace i =
     (if 0 < i then replicate (i - 1) (CHR 0x09) @ CLR_ARROW @ END_MARK @ CLR_RESET @ '' '' else '''')
     @ CLR_FUNC @ call_trace ! i @ CLR_RESET
     @ (if i = length call_trace - 1 then show_access_details src f va else NL)"

definition print_call_trace ::
  "'c source_info \<Rightarrow> 'c func_info \<Rightarrow> var_access \<Rightarrow> string list \<Rightarrow> string" where
  "print_call_trace src f va call_trace =
     (if call_trace = [] then ''''
      else concat (map (show_trace_line src f va call_trace) [0..<length call_trace])
           @ source_line src (fi_cursor f) (va_line va) (va_column va))"

fun outputs :: "('a \<Rightarrow> string option) \<Rightarrow> 'a list \<Rightarrow> string option" where
  "outputs f [] = Some ''''"
| "outputs f (x # xs) = Option.bind (f x) (\<lambda>s. map_option (\<lambda>t. s @ t) (outputs f xs))"

lemma outputs_cong [fundef_cong]:
  assumes "xs = ys" "\<And>x. x \<in> set ys \<Longrightarrow> f x = g x"
  shows "outputs f xs = outputs g ys"
proof -
  have "outputs f ys = outputs g ys"
    using assms(2) by (induction ys) (auto intro!: bind_option_cong)
  then show ?thesis using assms(1) by simp
qed

lemma outputs_total:
  "(\<And>x. x \<in> set xs \<Longrightarrow> f x \<noteq> None) \<Longrightarrow> outputs f xs \<noteq> None"
  by (induction xs) fastforce+

text \<open>The call trace is pushed and popped around every call, so each function sees the
  names of its callers.  \<open>None\<close>: a function without a name.\<close>

function trace_va_overlap ::
  "'c source_info \<Rightarrow> 'c func_info \<Rightarrow> var_access \<Rightarrow> string list \<Rightarrow> string option" where
  "trace_va_overlap src f va call_trace =
     (case fi_name f of
        None \<Rightarrow> None
      | Some name \<Rightarrow>
          let call_trace' = call_trace @ [cstr_chars name]
          in if fi_in_system_header f \<or> \<not> fi_has_definition f then Some ''''
             else if (case fi_var_accesses f of None \<Rightarrow> False
                      | Some vas \<Rightarrow> list_ex (equal_var_access_structs va) vas)
             then Some (print_call_trace src f va call_trace')
             else (case fi_callees f of
                     None \<Rightarrow> Some ''''
                   | Some callees \<Rightarrow> outputs (\<lambda>g. trace_va_overlap src g va call_trace') callees))"
  by pat_completeness auto
termination
  by (relation "measure (\<lambda>(src, f, va, ct). size f)") (auto simp: callee_size)

declare trace_va_overlap.simps [simp del]

section \<open>Pairs of accesses\<close>

text \<open>The state of a comparison: the output so far and the two footprints, whose accesses
  are nullified when they are reported.\<close>

record scan_state =
  scan_out :: string
  scan_a :: "var_access list"
  scan_b :: "var_access list"

text \<open>The two nested loops, row by row.\<close>

fun pair_loop :: "(nat \<Rightarrow> nat \<Rightarrow> scan_state \<Rightarrow> scan_state option) \<Rightarrow> (nat \<times> nat) list \<Rightarrow>
    scan_state \<Rightarrow> scan_state option" where
  "pair_loop body [] s = Some s"
| "pair_loop body ((i, j) # ps) s = Option.bind (body i j s) (pair_loop body ps)"

definition all_pairs :: "nat \<Rightarrow> nat \<Rightarrow> (nat \<times> nat) list" where
  "all_pairs m n = List.product [0..<m] [0..<n]"

definition nullify :: "nat \<Rightarrow> var_access list \<Rightarrow> var_access list" where
  "nullify i vas = vas[i := (vas ! i)\<lparr>va_type := VarAccess_Null\<rparr>]"

text \<open>One report: a headline, the two traces and a rule, then both accesses are nullified.\<close>

definition report_pair ::
  "'c source_info \<Rightarrow> 'c func_info \<Rightarrow> 'c func_info \<Rightarrow> string \<Rightarrow> string \<Rightarrow> nat \<Rightarrow> nat \<Rightarrow>
   scan_state \<Rightarrow> scan_state option" where
  "report_pair src func_a func_b headline colour i j s =
     Option.bind (trace_va_overlap src func_a (scan_a s ! i) []) (\<lambda>trace_a.
     Option.bind (trace_va_overlap src func_b (scan_b s ! j) []) (\<lambda>trace_b.
     Some \<lparr>scan_out = scan_out s @ headline @ NL @ trace_a @ trace_b @ colour @ RULE @ CLR_RESET @ NL @ NL,
           scan_a = nullify i (scan_a s), scan_b = nullify j (scan_b s)\<rparr>))"

definition overlap_at ::
  "'c source_info \<Rightarrow> 'c func_info \<Rightarrow> 'c func_info \<Rightarrow> nat \<Rightarrow> nat \<Rightarrow> scan_state \<Rightarrow> scan_state option" where
  "overlap_at src func_a func_b i j s =
     (let va_i = scan_a s ! i; va_j = scan_b s ! j
      in if \<not> va_is_placeholder_type (va_type va_i) \<and> \<not> va_is_placeholder_type (va_type va_j)
         then Option.bind (equal_var_accesses va_i va_j) (\<lambda>same.
                if same
                then report_pair src func_a func_b (CLR_VAR @ ''Variable overlap:'' @ CLR_RESET) CLR_VAR i j s
                else Some s)
         else Some s)"

text \<open>The state starts with the two footprints; \<open>None\<close> when one was never built.\<close>

definition find_va_overlap ::
  "'c source_info \<Rightarrow> 'c func_info \<Rightarrow> 'c func_info \<Rightarrow> scan_state option" where
  "find_va_overlap src func_a func_b =
     Option.bind (fi_access_footprint func_a) (\<lambda>as.
     Option.bind (fi_access_footprint func_b) (\<lambda>bs.
       pair_loop (overlap_at src func_a func_b) (all_pairs (length as) (length bs))
         \<lparr>scan_out = '''', scan_a = as, scan_b = bs\<rparr>))"

section \<open>Annotation with protection ranges\<close>

text \<open>\<open>None\<close> inside the loop of the source is \<open>continue\<close> here: the next access.\<close>

fun branch_end_loop :: "nat \<Rightarrow> nat \<Rightarrow> nat \<Rightarrow> var_access list \<Rightarrow> nat" where
  "branch_end_loop old_depth depth i [] = SIZE_MAX"
| "branch_end_loop old_depth depth i (va # vas) =
     (if va_type va = VarAccess_IfStmt
      then branch_end_loop old_depth (sz_add depth 1) (Suc i) vas
      else if va_type va = VarAccess_EndIf \<or> va_type va = VarAccess_ElseStmt
      then if sz_sub depth 1 = old_depth then i
           else branch_end_loop old_depth (sz_sub depth 1) (Suc i) vas
      else branch_end_loop old_depth depth (Suc i) vas)"

definition get_end_of_branch_idx :: "var_access list \<Rightarrow> nat \<Rightarrow> nat \<Rightarrow> nat" where
  "get_end_of_branch_idx va_arr then_blk_idx depth =
     branch_end_loop depth depth then_blk_idx (drop then_blk_idx va_arr)"

text \<open>The search for the marker of the then block has no bound: \<open>None\<close> when there is none.\<close>

definition find_then_block :: "var_access list \<Rightarrow> nat \<Rightarrow> nat option" where
  "find_then_block fp start = List.find (\<lambda>k. va_type (fp ! k) = VarAccess_ThenBlock) [start..<length fp]"

fun annotate_loop ::
  "allocator \<Rightarrow> lock_pair_arr \<Rightarrow> var_access list \<Rightarrow> protection_field_array \<Rightarrow> nat \<Rightarrow> nat list \<Rightarrow>
   protection_field_array option" where
  "annotate_loop al pairs fp arr depth [] = Some arr"
| "annotate_loop al pairs fp arr depth (i # is) =
     (let working_va = fp ! i
      in case va_type working_va of
        VarAccess_LockAcquire \<Rightarrow>
          Option.bind (get_pair_by_lock_func pairs (map_option cstr_chars (va_esc_func_spelling working_va)))
            (\<lambda>lock_prim_pair.
          Option.bind (add_lock_protection_field al arr lock_prim_pair working_va i)
            (\<lambda>arr'. annotate_loop al pairs fp arr' depth is))
      | VarAccess_LockRelease \<Rightarrow>
          Option.bind (set_protection_range_end arr (va_usr working_va) i)
            (\<lambda>arr'. annotate_loop al pairs fp arr' depth is)
      | VarAccess_IfStmt \<Rightarrow>
          Option.bind (find_then_block fp (i + 1)) (\<lambda>start_of_branch.
          Option.bind (add_protection_range_fields_active al arr start_of_branch (sz_add depth 1))
            (\<lambda>arr'. annotate_loop al pairs fp arr' (sz_add depth 1) is))
      | VarAccess_ElseStmt \<Rightarrow>
          Option.bind (add_protection_range_fields_inactive al arr i (sz_sub depth 1))
            (\<lambda>arr'. annotate_loop al pairs fp arr' depth is)
      | VarAccess_EndIf \<Rightarrow> annotate_loop al pairs fp arr (sz_sub depth 1) is
      | _ \<Rightarrow> annotate_loop al pairs fp arr depth is)"

definition annotate_lock_protection_ranges ::
  "allocator \<Rightarrow> lock_pair_arr \<Rightarrow> var_access list \<Rightarrow> protection_field_array \<Rightarrow>
   protection_field_array option" where
  "annotate_lock_protection_ranges al pairs fp arr = annotate_loop al pairs fp arr 0 [0..<length fp]"

section \<open>Unprotected accesses\<close>

definition bad_protection ::
  "protection_field_array \<Rightarrow> protection_field_array \<Rightarrow> shared_protection_quality \<Rightarrow> bool" where
  "bad_protection arr_a arr_b prot_level \<longleftrightarrow>
     prot_level \<noteq> Shared_Protected \<or> lp_size arr_a = 0 \<or> lp_size arr_b = 0"

definition unprotected_headline :: "shared_protection_quality \<Rightarrow> string" where
  "unprotected_headline prot_level =
     (if prot_level = Shared_Uncertain
      then CLR_UNCERTAIN @ ''CONDITIONALLY PROTECTED SHARED DATA:'' @ CLR_RESET
      else CLR_UNPROTECTED @ ''UNPROTECTED SHARED DATA:'' @ CLR_RESET)"

definition unprotected_at ::
  "'c source_info \<Rightarrow> protection_field_array \<Rightarrow> protection_field_array \<Rightarrow> 'c func_info \<Rightarrow> 'c func_info \<Rightarrow>
   nat \<Rightarrow> nat \<Rightarrow> scan_state \<Rightarrow> scan_state option" where
  "unprotected_at src arr_a arr_b func_a func_b i j s =
     (let va_i = scan_a s ! i; va_j = scan_b s ! j
      in if \<not> va_is_placeholder_type (va_type va_i) \<and> \<not> va_is_placeholder_type (va_type va_j)
         then Option.bind (equal_var_accesses va_i va_j) (\<lambda>same.
                if same
                then Option.bind (matching_protection_field_arrays arr_a arr_b i j) (\<lambda>prot_level.
                       if bad_protection arr_a arr_b prot_level
                       then report_pair src func_a func_b (unprotected_headline prot_level)
                              (if prot_level = Shared_Uncertain then CLR_UNCERTAIN else CLR_UNPROTECTED) i j s
                       else Some s)
                else Some s)
         else Some s)"

text \<open>\<open>addr_a\<close> and \<open>addr_b\<close> are the blocks the two protection arrays start in, \<open>al_a\<close> and
  \<open>al_b\<close> what their reallocations answer.\<close>

definition find_unprotected_va ::
  "allocator \<Rightarrow> int \<Rightarrow> allocator \<Rightarrow> int \<Rightarrow> lock_pair_arr \<Rightarrow> 'c source_info \<Rightarrow>
   'c func_info \<Rightarrow> 'c func_info \<Rightarrow> scan_state option" where
  "find_unprotected_va al_a addr_a al_b addr_b pairs src func_a func_b =
     Option.bind (fi_access_footprint func_a) (\<lambda>as.
     Option.bind (fi_access_footprint func_b) (\<lambda>bs.
     Option.bind (annotate_lock_protection_ranges al_a pairs as (init_protection_field_array addr_a)) (\<lambda>arr_a.
     Option.bind (annotate_lock_protection_ranges al_b pairs bs (init_protection_field_array addr_b)) (\<lambda>arr_b.
       pair_loop (unprotected_at src arr_a arr_b func_a func_b) (all_pairs (length as) (length bs))
         \<lparr>scan_out = '''', scan_a = as, scan_b = bs\<rparr>))))"

section \<open>Named variables\<close>

text \<open>\<open>func@arg\<close>: the part before the first \<open>@\<close> and the part behind it.\<close>

definition mark_postfix_func_name :: "string \<Rightarrow> (string \<times> string) option" where
  "mark_postfix_func_name postfix =
     (case strchr postfix (CHR 0x40) of
        None \<Rightarrow> None
      | Some i \<Rightarrow> Some (take i postfix, drop (Suc i) postfix))"

definition strcmp_ptr :: "string \<Rightarrow> char_ptr \<Rightarrow> bool option" where
  "strcmp_ptr s p = map_option (\<lambda>c. s = cstr_chars c) p"

text \<open>Whether the \<open>k\<close>-th access is the named variable; \<open>None\<close> when NULL is compared.\<close>

definition is_exclusive :: "string list \<Rightarrow> string \<Rightarrow> var_access \<Rightarrow> bool option" where
  "is_exclusive global_usrs postfix va =
     (case mark_postfix_func_name postfix of
        Some (func_name, arg_name) \<Rightarrow>
          Option.bind (strcmp_ptr func_name (va_parent_func_name va)) (\<lambda>same_func.
            if same_func then strcmp_ptr arg_name (va_name va) else Some False)
      | None \<Rightarrow>
          Option.bind (strcmp_ptr postfix (va_name va)) (\<lambda>same_name.
            if same_name then strs_contains global_usrs (va_usr va) else Some False))"

fun exclusive_names ::
  "'c source_info \<Rightarrow> 'c func_info \<Rightarrow> string list \<Rightarrow> string list \<Rightarrow> var_access \<Rightarrow>
   (string \<times> var_access) option" where
  "exclusive_names src f global_usrs [] va = Some ('''', va)"
| "exclusive_names src f global_usrs (postfix # ps) va =
     Option.bind (is_exclusive global_usrs postfix va) (\<lambda>found.
       if found
       then Option.bind (trace_va_overlap src f va []) (\<lambda>trace.
            map_option (\<lambda>(out, va'). (CLR_VAR @ ''Tracing '' @ postfix @ '':'' @ CLR_RESET @ NL @ trace
                @ CLR_VAR @ RULE @ CLR_RESET @ NL @ NL @ out, va'))
              (exclusive_names src f global_usrs ps (va\<lparr>va_type := VarAccess_Null\<rparr>)))
       else exclusive_names src f global_usrs ps va)"

fun exclusive_loop ::
  "'c source_info \<Rightarrow> 'c func_info \<Rightarrow> string list \<Rightarrow> string list \<Rightarrow> var_access list \<Rightarrow>
   (string \<times> var_access list) option" where
  "exclusive_loop src f global_usrs names [] = Some ('''', [])"
| "exclusive_loop src f global_usrs names (va # vas) =
     Option.bind (exclusive_names src f global_usrs names va) (\<lambda>(out, va').
     map_option (\<lambda>(out', vas'). (out @ out', va' # vas')) (exclusive_loop src f global_usrs names vas))"

definition find_exclusive_va_names ::
  "'c source_info \<Rightarrow> string list \<Rightarrow> string list \<Rightarrow> 'c func_info \<Rightarrow> (string \<times> 'c func_info) option" where
  "find_exclusive_va_names src global_usrs trace_var_names f =
     Option.bind (fi_access_footprint f) (\<lambda>fp.
     map_option (\<lambda>(out, fp'). (out, set_access_footprint (Some fp') f))
       (exclusive_loop src f global_usrs trace_var_names fp))"

end
