(* ===== verification/Lock_Protection.thy ===== *)
theory Lock_Protection
  imports Lock_Ranges
begin

text \<open>
  What the protection ranges promise their callers: that every operation keeps the linked
  lists intact, that continuing the open ranges into a branch changes nothing about what is
  protected, where a moving block breaks this, that the comparison of two accesses reads
  exactly the ranges around them, and what its verdicts say about the locks held.
\<close>

section \<open>Small arrays for concrete instances\<close>

definition sample_range :: "32 word \<Rightarrow> nat \<Rightarrow> nat \<Rightarrow> nat \<Rightarrow> lock_protection_field" where
  "sample_range h depth b e =
     \<lparr>lock_va = None, next_prot_range = None, branch_depth = depth, protection_range_start = b,
      protection_range_end = e, lock_obj_hash = h, lock_func_hash = 0, unlock_func_hash = 0,
      is_ll_start = True\<rparr>"

definition sample_ranges :: "lock_protection_field list \<Rightarrow> protection_field_array" where
  "sample_ranges fs = (init_protection_field_array 4096)\<lparr>lp_fields := fs\<rparr>"

lemma lp_links_unlinked:
  "\<forall>f \<in> set fs. next_prot_range f = None \<and> is_ll_start f \<Longrightarrow> lp_links b fs"
  by (auto simp: lp_links_def link_at_def)

lemma sample_inv:
  "\<forall>f \<in> set fs. next_prot_range f = None \<and> is_ll_start f \<Longrightarrow> length fs \<le> 10 \<Longrightarrow> lp_inv (sample_ranges fs)"
  by (simp add: sample_ranges_def lp_inv_def init_protection_field_array_def NUM_LP_FIELDS_def
      SIZE_LIMIT_def lp_links_unlinked)

lemma sample_simps [simp]:
  "next_prot_range (sample_range h d b e) = None" "is_ll_start (sample_range h d b e)"
  "protection_range_end (sample_range h d b e) = e" "protection_range_start (sample_range h d b e) = b"
  "branch_depth (sample_range h d b e) = d" "lock_obj_hash (sample_range h d b e) = h"
  "lp_fields (sample_ranges fs) = fs" "lp_capacity (sample_ranges fs) = 10"
  "lp_block (sample_ranges fs) = 4096"
  by (simp_all add: sample_range_def sample_ranges_def init_protection_field_array_def NUM_LP_FIELDS_def)

lemma sample_prot_objs:
  "prot_objs (sample_ranges fs) v = image_mset lock_obj_hash (mset (filter (\<lambda>f. protecting f v) fs))"
  by (simp add: prot_objs_def)

lemma ARR_LIMIT_pos: "n < 1099511627776 \<Longrightarrow> n < ARR_LIMIT" "n \<le> 1099511627776 \<Longrightarrow> n \<le> ARR_LIMIT"
  by (simp_all add: ARR_LIMIT_def)

lemma small_SIZE_MAX: "n < 18446744073709551615 \<Longrightarrow> n < SIZE_MAX"
  by (simp add: SIZE_MAX_def SIZE_LIMIT_def)

section \<open>Opening, closing and continuing ranges\<close>

text \<open>C21: A release closes exactly the open ranges of its lock object: the loop finds the
  end of every linked list it starts from (none is circular or dangling), sets the end
  index of the open ranges whose object hashes like the released one, leaves every other
  element as it is, and keeps the linked-list invariant.\<close>

theorem release_closes_exactly_its_object:
  assumes "lp_inv arr"
  shows "\<exists>arr'. set_protection_range_end arr (Some obj) e = Some arr' \<and> lp_inv arr' \<and>
    lp_fields arr' = map (\<lambda>f. if protection_range_end f = SIZE_MAX \<and>
        lock_obj_hash f = lock_tracking_gen_hash (cstr_chars obj)
      then f\<lparr>protection_range_end := e\<rparr> else f) (lp_fields arr)"
  using set_protection_range_end_map [OF assms, of obj e]
  by (simp add: close_range_def [abs_def])

theorem release_closes_exactly_its_object_witness:
  "\<exists>arr'. set_protection_range_end (sample_ranges [sample_range 7 0 1 SIZE_MAX]) (Some (CStr 3 ''c:@m'')) 5 = Some arr' \<and>
    lp_inv arr'"
  using release_closes_exactly_its_object
    [of "sample_ranges [sample_range 7 0 1 SIZE_MAX]" "CStr 3 ''c:@m''" 5] sample_inv by auto

text \<open>C22: An acquisition opens one range that starts at its index and has no end, behind
  all others; the block may grow and move, the links are moved with it, and no start, end,
  object or branch depth of an older range changes.\<close>

theorem acquire_opens_one_range:
  assumes "lp_inv arr" "lp_size arr < ARR_LIMIT" "never_fails al"
    and "lock_func pair \<noteq> None" "unlock_func pair \<noteq> None" "va_usr va = Some obj"
  shows "\<exists>arr' f. add_lock_protection_field al arr pair va i = Some arr' \<and> lp_inv arr' \<and>
    map lock_obj_hash (lp_fields arr') = map lock_obj_hash (lp_fields arr) @ [lock_tracking_gen_hash (cstr_chars obj)] \<and>
    map protection_range_start (lp_fields arr') = map protection_range_start (lp_fields arr) @ [i] \<and>
    map protection_range_end (lp_fields arr') = map protection_range_end (lp_fields arr) @ [SIZE_MAX] \<and>
    map branch_depth (lp_fields arr') = map branch_depth (lp_fields arr) @ [0]"
proof -
  obtain f where f: "init_lp_field pair va i = Some f" "lock_obj_hash f = lock_tracking_gen_hash (cstr_chars obj)"
    "protection_range_start f = i" "protection_range_end f = SIZE_MAX" "branch_depth f = 0"
    using assms(4-6) by (auto simp: init_lp_field_def)
  with add_field_ok [OF assms(1-3) f(1)] show ?thesis by auto
qed

definition sample_access :: "string \<Rightarrow> var_access_type \<Rightarrow> var_access" where
  "sample_access u t =
     \<lparr>va_usr = Some (CStr 0 u), va_name = Some (CStr 1 u), va_parent_func_name = None,
      va_esc_func_spelling = Some (CStr 2 ''mutex_lock''), va_esc_func_usr = None,
      va_esc_param_idx = 0, va_line = 1, va_column = 1, va_type = t, va_is_ptr_type = True\<rparr>"

theorem acquire_opens_one_range_witness:
  "\<exists>arr' f. add_lock_protection_field (\<lambda>_. Some 64) (sample_ranges [])
      (lpair ''mutex_lock'' ''mutex_unlock'') (sample_access ''c:@m'' VarAccess_LockAcquire) 4 = Some arr'"
  using acquire_opens_one_range [of "sample_ranges []" "\<lambda>_. Some 64"
      "lpair ''mutex_lock'' ''mutex_unlock''" "sample_access ''c:@m'' VarAccess_LockAcquire" "CStr 0 ''c:@m''" 4]
  by (auto simp: sample_inv never_fails_def lpair_def sample_access_def ARR_LIMIT_pos)





text \<open>C32: Continuing an open range when the array is within one element of its capacity
  and \<open>reallocarray\<close> moves the block is a use after free: the pointer to the continued
  element, taken before the move, is read and written through after it.\<close>

theorem branch_entry_uses_freed_block:
  assumes "lp_inv arr" "lp_capacity arr \<le> Suc (lp_size arr)"
    and "\<forall>n. al n \<noteq> Some (lp_block arr)"
    and "\<exists>f \<in> set (lp_fields arr). protection_range_end f = SIZE_MAX"
  shows "add_protection_range_fields_active al arr p depth = None"
proof -
  have "\<exists>i \<in> set [0..<lp_size arr]. i < lp_size arr \<longrightarrow> protection_range_end (lp_fields arr ! i) = SIZE_MAX"
    using assms(4) by (force simp: in_set_conv_nth)
  with active_loop_moved [OF assms(2) _ _ assms(3)] assms(1) show ?thesis
    by (simp add: add_protection_range_fields_active_def lp_inv_def)
qed

theorem branch_entry_uses_freed_block_witness:
  "add_protection_range_fields_active (\<lambda>_. Some 8192)
     (sample_ranges (replicate 9 (sample_range 7 0 1 SIZE_MAX))) 3 1 = None"
  using branch_entry_uses_freed_block
    [of "sample_ranges (replicate 9 (sample_range 7 0 1 SIZE_MAX))" "\<lambda>_. Some 8192" 3 1]
  by (simp add: sample_inv)

section \<open>How far the array grows\<close>

text \<open>The ends of the linked lists: only they are continued, and continuing keeps their number.\<close>

definition lp_tails :: "lock_protection_field list \<Rightarrow> nat" where
  "lp_tails fs = length (filter (\<lambda>f. next_prot_range f = None) fs)"

lemma lp_tails_simps [simp]:
  "lp_tails [] = 0" "lp_tails (fs @ gs) = lp_tails fs + lp_tails gs"
  "lp_tails [f] = (if next_prot_range f = None then 1 else 0)"
  by (simp_all add: lp_tails_def)

lemma lp_tails_continue:
  assumes "i < length fs" "next_prot_range (fs ! i) = None" "next_prot_range f \<noteq> None"
  shows "lp_tails (fs[i := f] @ [continued p g]) = lp_tails fs"
proof -
  have "fs = take i fs @ [fs ! i] @ drop (Suc i) fs" using assms(1) by (simp add: id_take_nth_drop)
  then have "lp_tails fs = lp_tails (take i fs) + 1 + lp_tails (drop (Suc i) fs)"
    using assms(2) by (metis add.assoc lp_tails_simps(2,3))
  moreover have "lp_tails (fs[i := f]) = lp_tails (take i fs) + lp_tails (drop (Suc i) fs)"
    using assms(1,3) by (simp add: upd_conv_take_nth_drop lp_tails_def)
  ultimately show ?thesis by (simp add: continued_def)
qed

lemma lp_tails_move [simp]: "lp_tails (map (move_link d) fs) = lp_tails fs"
  by (simp add: lp_tails_def filter_map comp_def)

lemma lp_tails_close [simp]: "lp_tails (map (close_range h e) fs) = lp_tails fs"
  by (simp add: lp_tails_def filter_map comp_def)

abbreviation tail_at :: "protection_field_array \<Rightarrow> nat \<Rightarrow> bool" where
  "tail_at arr i \<equiv> next_prot_range (lp_fields arr ! i) = None"

lemma tails_below_size: "length (filter (tail_at arr) [0..<lp_size arr]) = lp_tails (lp_fields arr)"
proof -
  have "filter (\<lambda>f. next_prot_range f = None) (map ((!) (lp_fields arr)) [0..<lp_size arr])
      = map ((!) (lp_fields arr)) (filter (tail_at arr) [0..<lp_size arr])"
    by (simp add: filter_map comp_def)
  then show ?thesis unfolding lp_tails_def map_nth by simp
qed

lemma loop_growth:
  assumes nil: "\<And>arr. loop arr [] = Some arr"
    and step: "\<And>arr i is. lp_inv arr \<Longrightarrow> in_place al (lp_block arr) \<Longrightarrow> i < lp_size arr \<Longrightarrow> lp_size arr < ARR_LIMIT \<Longrightarrow>
      loop arr (i # is) = loop arr is \<or>
      tail_at arr i \<and> (\<exists>f cap. next_prot_range f \<noteq> None \<and>
        loop arr (i # is) = loop (arr\<lparr>lp_capacity := cap, lp_fields := (lp_fields arr)[i := f] @ [continued p (lp_fields arr ! i)]\<rparr>) is \<and>
        lp_inv (arr\<lparr>lp_capacity := cap, lp_fields := (lp_fields arr)[i := f] @ [continued p (lp_fields arr ! i)]\<rparr>))"
  shows "lp_inv arr \<Longrightarrow> in_place al (lp_block arr) \<Longrightarrow> distinct is \<Longrightarrow> \<forall>i \<in> set is. i < lp_size arr \<Longrightarrow>
    lp_size arr + length is \<le> ARR_LIMIT \<Longrightarrow> loop arr is = Some arr' \<Longrightarrow>
    lp_tails (lp_fields arr') = lp_tails (lp_fields arr) \<and>
    lp_size arr' \<le> lp_size arr + length (filter (tail_at arr) is)"
proof (induction "is" arbitrary: arr)
  case (Cons i "is")
  have i: "i < lp_size arr" "lp_size arr < ARR_LIMIT" using Cons.prems(4,5) by auto
  from step [OF Cons.prems(1,2) i, of "is"] show ?case
  proof (elim disjE conjE exE)
    assume "loop arr (i # is) = loop arr is"
    with Cons.IH [of arr] Cons.prems show ?thesis by auto
  next
    fix f cap
    define arr2 where "arr2 = arr\<lparr>lp_capacity := cap, lp_fields := (lp_fields arr)[i := f] @ [continued p (lp_fields arr ! i)]\<rparr>"
    assume tl: "tail_at arr i" "next_prot_range f \<noteq> None"
      and eq: "loop arr (i # is) = loop (arr\<lparr>lp_capacity := cap, lp_fields := (lp_fields arr)[i := f] @ [continued p (lp_fields arr ! i)]\<rparr>) is"
        "lp_inv (arr\<lparr>lp_capacity := cap, lp_fields := (lp_fields arr)[i := f] @ [continued p (lp_fields arr ! i)]\<rparr>)"
    have size: "lp_block arr2 = lp_block arr" "lp_size arr2 = Suc (lp_size arr)"
      by (simp_all add: arr2_def)
    have same: "tail_at arr2 j \<longleftrightarrow> tail_at arr j" if "j \<in> set is" for j
      using that Cons.prems(3,4) by (cases "j = i") (auto simp: arr2_def nth_append)
    have in_size: "\<forall>j \<in> set is. j < lp_size arr2" "lp_size arr2 + length is \<le> ARR_LIMIT"
      using Cons.prems(4,5) size by auto
    have "lp_tails (lp_fields arr') = lp_tails (lp_fields arr2) \<and>
      lp_size arr' \<le> lp_size arr2 + length (filter (tail_at arr2) is)"
      by (rule Cons.IH) (use eq size in_size Cons.prems(2,3,6) in \<open>auto simp: arr2_def\<close>)
    moreover have "lp_tails (lp_fields arr2) = lp_tails (lp_fields arr)"
      using lp_tails_continue [OF i(1) tl] by (simp add: arr2_def)
    moreover have "filter (tail_at arr2) is = filter (tail_at arr) is"
      using same by (rule filter_cong [OF refl])
    ultimately show ?thesis using tl(1) size by simp
  qed
qed (simp add: nil)

lemma active_growth:
  assumes "lp_inv arr" "in_place al (lp_block arr)" "2 * lp_size arr \<le> ARR_LIMIT" "p < SIZE_MAX"
    and "add_protection_range_fields_active al arr p depth = Some arr'"
  shows "lp_tails (lp_fields arr') = lp_tails (lp_fields arr) \<and>
    lp_size arr' \<le> lp_size arr + lp_tails (lp_fields arr)"
proof -
  let ?u = "\<lambda>new g. g\<lparr>next_prot_range := Some new, protection_range_end := p, branch_depth := depth\<rparr>"
  have step: "active_loop al arr p depth (i # is) = active_loop al arr p depth is \<or>
      tail_at arr i \<and> (\<exists>f cap. next_prot_range f \<noteq> None \<and>
        active_loop al arr p depth (i # is) = active_loop al (arr\<lparr>lp_capacity := cap, lp_fields := (lp_fields arr)[i := f] @ [continued p (lp_fields arr ! i)]\<rparr>) p depth is \<and>
        lp_inv (arr\<lparr>lp_capacity := cap, lp_fields := (lp_fields arr)[i := f] @ [continued p (lp_fields arr ! i)]\<rparr>))"
    if a: "lp_inv arr" "in_place al (lp_block arr)" "i < lp_size arr" "lp_size arr < ARR_LIMIT" for arr i "is"
  proof (cases "protection_range_end (lp_fields arr ! i) = SIZE_MAX")
    case False
    with a(3) show ?thesis by simp
  next
    case True
    have nx: "tail_at arr i"
      using lp_links_open_next [of "lp_block arr" "lp_fields arr"] a(1,3) True by (simp add: lp_inv_def)
    show ?thesis
      by (rule continue_step [OF a(1,3,4,2) nx, of ?u p "\<lambda>a. active_loop al a p depth is"])
        (use assms(4) a(3) True nx in \<open>auto intro!: exI [of _ "?u _ _"]\<close>)
  qed
  from loop_growth [of "\<lambda>a is. active_loop al a p depth is" al p arr "[0..<lp_size arr]" arr', OF _ step]
  show ?thesis
    using assms by (simp add: add_protection_range_fields_active_def tails_below_size)
qed

lemma inactive_growth:
  assumes "lp_inv arr" "in_place al (lp_block arr)" "2 * lp_size arr \<le> ARR_LIMIT"
    and "add_protection_range_fields_inactive al arr p depth = Some arr'"
  shows "lp_tails (lp_fields arr') = lp_tails (lp_fields arr) \<and>
    lp_size arr' \<le> lp_size arr + lp_tails (lp_fields arr)"
proof -
  let ?u = "\<lambda>new g. g\<lparr>next_prot_range := Some new\<rparr>"
  have step: "inactive_loop al arr p depth (i # is) = inactive_loop al arr p depth is \<or>
      tail_at arr i \<and> (\<exists>f cap. next_prot_range f \<noteq> None \<and>
        inactive_loop al arr p depth (i # is) = inactive_loop al (arr\<lparr>lp_capacity := cap, lp_fields := (lp_fields arr)[i := f] @ [continued p (lp_fields arr ! i)]\<rparr>) p depth is \<and>
        lp_inv (arr\<lparr>lp_capacity := cap, lp_fields := (lp_fields arr)[i := f] @ [continued p (lp_fields arr ! i)]\<rparr>))"
    if a: "lp_inv arr" "in_place al (lp_block arr)" "i < lp_size arr" "lp_size arr < ARR_LIMIT" for arr i "is"
  proof (cases "tail_at arr i \<and> protection_range_end (lp_fields arr ! i) \<noteq> SIZE_MAX \<and> branch_depth (lp_fields arr ! i) = depth")
    case False
    with a(3) show ?thesis by auto
  next
    case True
    show ?thesis
      by (rule continue_step [OF a(1,3,4,2) True [THEN conjunct1], of ?u p "\<lambda>a. inactive_loop al a p depth is"])
        (use a(3) True in \<open>auto intro!: exI [of _ "?u _ _"]\<close>)
  qed
  from loop_growth [of "\<lambda>a is. inactive_loop al a p depth is" al p arr "[0..<lp_size arr]" arr', OF _ step]
  show ?thesis
    using assms by (simp add: add_protection_range_fields_inactive_def tails_below_size)
qed

section \<open>Comparing two accesses\<close>

text \<open>C13: The walk over the linked lists visits every element once: it never overruns the
  array of collected pointers, which has one slot per element, and collects exactly the
  ranges strictly around the index, so the objects collected are the objects protecting
  the access.\<close>

theorem collected_ranges_are_the_protecting_ones:
  assumes "lp_inv arr"
  shows "\<exists>fs. get_lp_fields_in_range arr v = Some fs \<and> length fs \<le> lp_size arr \<and>
    mset (map lock_obj_hash fs) = mset (map lock_obj_hash
      (filter (\<lambda>f. protection_range_start f < v \<and> v < protection_range_end f) (lp_fields arr)))"
proof -
  obtain fs where fs: "get_lp_fields_in_range arr v = Some fs"
    "image_mset lock_obj_hash (mset fs) = prot_objs arr v"
    using in_range_prot_objs [OF assms] by blast
  have "length fs = size (prot_objs arr v)" unfolding fs(2) [symmetric] by simp
  also have "\<dots> \<le> lp_size arr"
    by (simp add: prot_objs_def flip: mset_filter)
  finally show ?thesis using fs by (simp add: prot_objs_def protecting_def)
qed

theorem collected_ranges_are_the_protecting_ones_witness:
  "\<exists>fs. get_lp_fields_in_range (sample_ranges [sample_range 7 0 1 9, sample_range 8 0 4 6]) 5 = Some fs \<and> length fs \<le> 2"
  using collected_ranges_are_the_protecting_ones
    [of "sample_ranges [sample_range 7 0 1 9, sample_range 8 0 4 6]" 5]
  by (auto simp: sample_inv)

text \<open>C19: The comparison never returns protected for two accesses that hold locks but no
  common one: a verdict of \<open>Shared_Protected\<close> with any lock held at the first access means
  that every lock object held there is held at the second.\<close>

theorem protected_verdict_has_common_lock:
  assumes "lp_inv a" "lp_inv b"
    and "matching_protection_field_arrays a b i j = Some Shared_Protected" "h \<in># prot_objs a i"
  shows "h \<in># prot_objs b j"
  using matching_Protected [OF assms(1-3)] assms(4) by blast

theorem protected_verdict_has_common_lock_witness:
  "7 \<in># prot_objs (sample_ranges [sample_range 7 0 1 9]) 2"
proof -
  have "matching_protection_field_arrays (sample_ranges [sample_range 7 0 1 9]) (sample_ranges [sample_range 7 0 1 9]) 5 2
    = Some Shared_Protected"
    by (subst matching_flat) (simp_all add: sample_inv sample_prot_objs protecting_def)
  from protected_verdict_has_common_lock [OF _ _ this] show ?thesis
    by (simp add: sample_inv sample_prot_objs protecting_def)
qed

text \<open>Without branches the comparison decides exactly whether both accesses hold
  equally many locks and the objects of the first are among those of the second.\<close>

theorem straight_line_verdict:
  assumes "lp_inv a" "lp_inv b" "\<forall>f \<in> set (lp_fields b). branch_depth f = 0"
  shows "matching_protection_field_arrays a b i j = Some
    (if size (prot_objs a i) = size (prot_objs b j) \<and> set_mset (prot_objs a i) \<subseteq> set_mset (prot_objs b j)
     then Shared_Protected else Shared_Unprotected)"
  using assms by (rule matching_flat)

theorem straight_line_verdict_witness:
  "matching_protection_field_arrays (sample_ranges [sample_range 7 0 1 9]) (sample_ranges [sample_range 8 0 1 9]) 5 2
     = Some Shared_Unprotected"
  by (subst straight_line_verdict) (simp_all add: sample_inv sample_prot_objs protecting_def)

text \<open>Two accesses that are made without any lock held are reported as protected by
  the comparison, although nothing protects them: with no range around either index the
  numbers agree and no object has to be found.\<close>

theorem lockless_accesses_count_as_protected:
  assumes "lp_inv a" "lp_inv b" "prot_objs a i = {#}" "prot_objs b j = {#}"
  shows "matching_protection_field_arrays a b i j = Some Shared_Protected"
proof -
  obtain fa fb where "get_lp_fields_in_range a i = Some fa" "image_mset lock_obj_hash (mset fa) = {#}"
    "get_lp_fields_in_range b j = Some fb" "image_mset lock_obj_hash (mset fb) = {#}"
    using in_range_prot_objs [OF assms(1), of i] in_range_prot_objs [OF assms(2), of j] assms(3,4) by force
  then show ?thesis by (simp add: matching_protection_field_arrays_def)
qed

theorem lockless_accesses_count_as_protected_witness:
  "matching_protection_field_arrays (sample_ranges [sample_range 7 0 1 3]) (sample_ranges [sample_range 7 0 1 3]) 5 4
     = Some Shared_Protected"
  by (rule lockless_accesses_count_as_protected) (simp_all add: sample_inv sample_prot_objs protecting_def)

text \<open>A conditional lock is only noticed on the second access: the guard tests the
  second field twice, so the verdict depends on the order of the two functions.  When one
  lock around both accesses is conditional in the first function only, the comparison says
  protected, and uncertain with the functions swapped.\<close>

theorem conditional_lock_seen_on_one_side:
  assumes "get_lp_fields_in_range a i = Some [f]" "get_lp_fields_in_range b j = Some [g]"
    and "lock_obj_hash f = lock_obj_hash g" "branch_depth f \<noteq> 0" "branch_depth g = 0"
  shows "matching_protection_field_arrays a b i j = Some Shared_Protected \<and>
    matching_protection_field_arrays b a j i = Some Shared_Uncertain"
  using assms by (simp_all add: matching_protection_field_arrays_def equal_lp_fields_def)

lemma sample_in_range:
  "b < v \<Longrightarrow> v < e \<Longrightarrow>
    get_lp_fields_in_range (sample_ranges [sample_range h d b e]) v = Some [sample_range h d b e]"
  by (simp add: get_lp_fields_in_range_def lp_deref_def lp_walk.simps lp_in_range_def Let_def)

theorem conditional_lock_seen_on_one_side_witness:
  "matching_protection_field_arrays (sample_ranges [sample_range 7 1 1 9]) (sample_ranges [sample_range 7 0 1 9]) 5 5
     = Some Shared_Protected \<and>
   matching_protection_field_arrays (sample_ranges [sample_range 7 0 1 9]) (sample_ranges [sample_range 7 1 1 9]) 5 5
     = Some Shared_Uncertain"
  using conditional_lock_seen_on_one_side [OF sample_in_range sample_in_range, of 1 5 9 1 5 9 7 1 7 0] by simp

text \<open>The test for a conditional range, a continued element that is still open, never
  holds: continuing a range closes it.  On every array the operations build the disjunct
  it contributes to the range test is dead.\<close>

theorem conditional_test_never_holds:
  assumes "lp_inv arr" "f \<in> set (lp_fields arr)"
  shows "\<not> lp_cond_prot f v \<and> (lp_in_range f v \<longleftrightarrow> protection_range_start f < v \<and> v < protection_range_end f)"
  using cond_prot_never [of "lp_block arr" "lp_fields arr" f v] assms
  by (simp add: lp_inv_def lp_in_range_def)

theorem conditional_test_never_holds_witness:
  "\<not> lp_cond_prot (sample_range 7 1 2 SIZE_MAX) 5"
  using conditional_test_never_holds
    [of "sample_ranges [sample_range 7 1 2 SIZE_MAX]" "sample_range 7 1 2 SIZE_MAX" 5] sample_inv by simp

end
