(* ===== verification/Unwinding.thy ===== *)
theory Unwinding
  imports Footprint
begin

text \<open>
  What unwinding and the footprint guarantee: artificial USRs identify argument and field,
  parameters are renamed by the first parameter USR that is a prefix, marking leaves no
  plain access to a parameter or local variable, alias resolution never resolves anything,
  and the footprint is the accesses of all functions called, in order, callees inlined.
\<close>

section \<open>Artificial USRs\<close>

definition field_of :: "string \<Rightarrow> string" where
  "field_of u = (case strstr u ''::'' of None \<Rightarrow> '''' | Some field \<Rightarrow> field)"

lemma length_show_nat: "n < 10 ^ Suc k \<Longrightarrow> length (show_nat n) \<le> Suc k"
proof (induction k arbitrary: n)
  case (Suc k)
  then have "n div 10 < 10 ^ Suc k" by (simp add: less_mult_imp_div_less)
  with Suc.IH [of "n div 10"] show ?case by (subst show_nat.simps) simp
qed (subst show_nat.simps, simp)

lemma length_show_hash: "length (show_nat (unat (h :: 32 word))) \<le> 10"
proof -
  have "unat h < 2 ^ 32" using unsigned_less [of h] by simp
  then have "unat h < 10 ^ Suc 9" by simp
  then show ?thesis using length_show_nat [of "unat h" 9] by simp
qed

lemma length_show_size: "n < SIZE_LIMIT \<Longrightarrow> length (show_nat n) \<le> 20"
  using length_show_nat [of n 19] by (simp add: SIZE_LIMIT_def)

lemma artificial_usr_full:
  assumes "never_fails al" "n \<noteq> ''''" "length n < SIZE_LIMIT" "length (field_of u) \<le> 29"
  shows "generate_artificial_param_usr al (Some n) u =
    Some (''p:'' @ show_nat (unat (djb2_loop 5381 n)) @ '':'' @ show_nat (length n) @ '':'' @ n @ field_of u)"
proof -
  obtain b where "al (64 + length n) = Some b" using assms(1) by (auto simp: never_fails_def)
  then show ?thesis
    using assms(2,4) length_show_size [OF assms(3)] length_show_hash [of "djb2_loop 5381 n"]
    by (simp add: generate_artificial_param_usr_def snprintf_def field_of_def split: option.splits)
qed

lemma artificial_usr_prefix:
  assumes "never_fails al"
  shows "\<exists>s. generate_artificial_param_usr al n u = Some (CHR ''p'' # CHR '':'' # s)"
proof -
  obtain b where b: "al (64 + length (case n of None \<Rightarrow> '''' | Some s \<Rightarrow> s)) = Some b"
    using assms by (auto simp: never_fails_def)
  have take_p: "\<exists>s. take (Suc (Suc k)) (CHR ''p'' # CHR '':'' # r) = CHR ''p'' # CHR '':'' # s" for k r
    by simp
  from b show ?thesis
    by (auto simp: generate_artificial_param_usr_def snprintf_def Let_def numeral_eq_Suc)
qed

text \<open>The artificial USR of an argument identifies it: two accesses get the same USR
  exactly when they stand for the same argument name and the same field of it, as long as
  the field suffix fits the buffer (29 characters always do).  So accesses of two root
  functions are compared as the same object exactly when the command line names the same
  argument for them.\<close>

theorem artificial_usr_injective:
  assumes "never_fails al" "n1 \<noteq> ''''" "n2 \<noteq> ''''" "length n1 < SIZE_LIMIT" "length n2 < SIZE_LIMIT"
    and "length (field_of u1) \<le> 29" "length (field_of u2) \<le> 29"
  shows "generate_artificial_param_usr al (Some n1) u1 = generate_artificial_param_usr al (Some n2) u2
    \<longleftrightarrow> n1 = n2 \<and> field_of u1 = field_of u2"
proof
  assume eq: "generate_artificial_param_usr al (Some n1) u1 = generate_artificial_param_usr al (Some n2) u2"
  have sep: "CHR '':'' \<notin> set (show_nat k)" for k by (rule show_nat_no_colon)
  from eq have "show_nat (unat (djb2_loop 5381 n1)) @ CHR '':'' # show_nat (length n1) @ CHR '':'' # n1 @ field_of u1
      = show_nat (unat (djb2_loop 5381 n2)) @ CHR '':'' # show_nat (length n2) @ CHR '':'' # n2 @ field_of u2"
    by (simp add: artificial_usr_full [OF assms(1,2,4,6)] artificial_usr_full [OF assms(1,3,5,7)])
  from append_sep_eq [OF this sep sep]
  have "show_nat (length n1) @ CHR '':'' # n1 @ field_of u1 = show_nat (length n2) @ CHR '':'' # n2 @ field_of u2"
    by simp
  from append_sep_eq [OF this sep sep]
  have "length n1 = length n2" "n1 @ field_of u1 = n2 @ field_of u2" by simp_all
  then show "n1 = n2 \<and> field_of u1 = field_of u2" by simp
next
  assume "n1 = n2 \<and> field_of u1 = field_of u2"
  then show "generate_artificial_param_usr al (Some n1) u1 = generate_artificial_param_usr al (Some n2) u2"
    using artificial_usr_full [OF assms(1,2,4,6)] artificial_usr_full [OF assms(1,3,5,7)] by simp
qed

theorem artificial_usr_injective_witness:
  "generate_artificial_param_usr (\<lambda>_. Some 64) (Some ''dev'') ''c:@p::lock''
     \<noteq> generate_artificial_param_usr (\<lambda>_. Some 64) (Some ''dev'') ''c:@p''"
  using artificial_usr_injective [of "\<lambda>_. Some 64" "''dev''" "''dev''" "''c:@p::lock''" "''c:@p''"]
  by (simp add: never_fails_def field_of_def starts_with_def SIZE_LIMIT_def)

section \<open>Mapping the arguments of the command line\<close>

definition usr_chars :: "var_access \<Rightarrow> string option" where
  "usr_chars va = map_option cstr_chars (va_usr va)"

definition renamed :: "allocator \<Rightarrow> string list \<Rightarrow> string list \<Rightarrow> nat \<Rightarrow> string \<Rightarrow> string" where
  "renamed al params parsed i u =
     (if i - 1 < length params \<and> starts_with u (params ! (i - 1))
      then the (generate_artificial_param_usr al (Some (parsed ! i)) u) else u)"

lemma rename_access_ok:
  assumes "never_fails al"
  shows "\<exists>va' h'. rename_access al p (Some arg) h va = Some (va', h') \<and> va_type va' = va_type va \<and>
    usr_chars va' = (if va_is_placeholder_type (va_type va) then usr_chars va
      else map_option (\<lambda>u. if starts_with u p then the (generate_artificial_param_usr al (Some arg) u) else u) (usr_chars va))"
proof (cases "va_usr va")
  case (Some u)
  obtain s where "generate_artificial_param_usr al (Some arg) (cstr_chars u) = Some (CHR ''p'' # CHR '':'' # s)"
    using artificial_usr_prefix [OF assms] by blast
  with Some show ?thesis by (auto simp: rename_access_def usr_chars_def)
qed (auto simp: rename_access_def usr_chars_def)

lemma map_args_fold:
  assumes "never_fails al" "params \<noteq> []"
  shows "\<forall>i \<in> set is. i < length parsed \<Longrightarrow>
    \<exists>vas' h'. map_args al params parsed h vas is = Some (vas', h') \<and>
      list_all2 (\<lambda>va va'. va_type va' = va_type va \<and>
        usr_chars va' = (if va_is_placeholder_type (va_type va) then usr_chars va
          else map_option (fold (renamed al params parsed) is) (usr_chars va))) vas vas'"
proof (induction "is" arbitrary: h vas)
  case Nil
  then show ?case by (auto simp: option.map_id list_all2_same)
next
  case (Cons i "is")
  let ?R = "\<lambda>is va va'. va_type va' = va_type va \<and>
        usr_chars va' = (if va_is_placeholder_type (va_type va) then usr_chars va
          else map_option (fold (renamed al params parsed) is) (usr_chars va))"
  have tail: "\<forall>i \<in> set is. i < length parsed" "i < length parsed" using Cons.prems by auto
  show ?case
  proof (cases "i - 1 < length params")
    case False
    then have "map_args al params parsed h vas (i # is) = map_args al params parsed h vas is"
      and "fold (renamed al params parsed) (i # is) = fold (renamed al params parsed) is"
      using assms(2) by (auto simp: strs_at_def renamed_def)
    with Cons.IH [OF tail(1), of h vas] show ?thesis by presburger
  next
    case True
    let ?body = "rename_access al (params ! (i - 1)) (Some (parsed ! i))"
    obtain vas1 h1 where 1: "for_each ?body h vas = Some (vas1, h1)"
      using for_each_total [of vas ?body h] rename_access_ok [OF assms(1)] by metis
    have step: "list_all2 (?R [i]) vas vas1"
    proof (rule for_each_all2 [OF 1])
      show "?R [i] va va'" if "?body k va = Some (va', k')" for k va va' k'
        using that rename_access_ok [OF assms(1), of "params ! (i - 1)" "parsed ! i" k va] True
        by (auto simp: renamed_def [abs_def])
    qed
    obtain vas' h' where 2: "map_args al params parsed h1 vas1 is = Some (vas', h')" "list_all2 (?R is) vas1 vas'"
      using Cons.IH [OF tail(1)] by blast
    have "list_all2 (?R (i # is)) vas vas'"
      by (rule list_all2_trans [OF _ step 2(2)]) (auto simp: option.map_comp comp_def)
    moreover have "map_args al params parsed h vas (i # is) = Some (vas', h')"
      using 1 2(1) True tail(2) assms(2) by (auto simp: strs_at_def)
    ultimately show ?thesis by blast
  qed
qed

lemma renamed_stops:
  assumes "never_fails al" "\<forall>p \<in> set params. starts_with p ''c:''"
  shows "fold (renamed al params parsed) is u =
    (case List.find (\<lambda>i. i - 1 < length params \<and> starts_with u (params ! (i - 1))) is of
       None \<Rightarrow> u | Some i \<Rightarrow> the (generate_artificial_param_usr al (Some (parsed ! i)) u))"
proof -
  have no: "\<not> starts_with (CHR ''p'' # s) (params ! k)" if "k < length params" for s k
  proof -
    from assms(2) that obtain t where "params ! k = CHR ''c'' # t"
      by (force simp: starts_with_iff dest: nth_mem)
    then show ?thesis by (simp add: starts_with_def)
  qed
  have art: "fold (renamed al params parsed) is (CHR ''p'' # s) = CHR ''p'' # s" for "is" s
    by (induction "is") (auto simp: renamed_def no)
  show ?thesis
  proof (induction "is")
    case (Cons i "is")
    obtain s where s: "generate_artificial_param_usr al (Some (parsed ! i)) u = Some (CHR ''p'' # CHR '':'' # s)"
      using artificial_usr_prefix [OF assms(1)] by blast
    show ?case
    proof (cases "i - 1 < length params \<and> starts_with u (params ! (i - 1))")
      case True
      with s have "renamed al params parsed i u = CHR ''p'' # CHR '':'' # s" by (simp add: renamed_def)
      with True s art [of "is"] show ?thesis by simp
    next
      case False
      then have "renamed al params parsed i u = u" unfolding renamed_def by (rule if_not_P)
      with False Cons show ?thesis by auto
    qed
  qed simp
qed


definition plain_access :: "string \<Rightarrow> var_access_type \<Rightarrow> var_access" where
  "plain_access u t =
     \<lparr>va_usr = Some (CStr 0 u), va_name = None, va_parent_func_name = None,
      va_esc_func_spelling = None, va_esc_func_usr = None, va_esc_param_idx = NO_IDX,
      va_line = 1, va_column = 1, va_type = t, va_is_ptr_type = False\<rparr>"


section \<open>Marking\<close>

lemma mark_access_cases:
  assumes "va_usr va = Some u"
  shows "mark_access params locals va = Some (va\<lparr>va_type :=
    (if lock_mark va \<noteq> VarAccess_Null then lock_mark va
     else if va_type va \<in> {VarAccess_Read, VarAccess_Write} \<and> cstr_chars u \<in> set params \<or>
       va_type va \<in> {VarAccess_Read, VarAccess_Write, VarAccess_PtrRead, VarAccess_PtrWrite,
          VarAccess_LockAcquire, VarAccess_LockRelease} \<and> \<not> va_is_ptr_type va \<and> cstr_chars u \<in> set locals
     then VarAccess_Null else va_type va)\<rparr>)"
proof -
  have "strs_contains xs (Some u) = Some (cstr_chars u \<in> set xs)" for xs
    by (simp add: strs_contains_def)
  then show ?thesis
    using assms by (cases "va_type va") (auto simp: mark_access_def Let_def)
qed

text \<open>Marking, on every branch: an access passed as the first argument of a lock or
  unlock function becomes an acquisition or release; a plain read or write of a parameter,
  and an access to a local that is neither a pointer nor passed on, is nullified; every
  other access keeps its type.  Nothing but the type changes.\<close>

theorem marking_by_cases:
  assumes "va_usr va = Some u"
  shows "mark_access params locals va = Some (va\<lparr>va_type :=
    (if lock_mark va \<noteq> VarAccess_Null then lock_mark va
     else if va_type va \<in> {VarAccess_Read, VarAccess_Write} \<and> cstr_chars u \<in> set params \<or>
       va_type va \<in> {VarAccess_Read, VarAccess_Write, VarAccess_PtrRead, VarAccess_PtrWrite,
          VarAccess_LockAcquire, VarAccess_LockRelease} \<and> \<not> va_is_ptr_type va \<and> cstr_chars u \<in> set locals
     then VarAccess_Null else va_type va)\<rparr>)"
  using assms by (rule mark_access_cases)

theorem marking_by_cases_witness:
  "mark_access [''c:@p''] [] (plain_access ''c:@p'' VarAccess_Read)
     = Some ((plain_access ''c:@p'' VarAccess_Read)\<lparr>va_type := VarAccess_Null\<rparr>)"
  using marking_by_cases [of "plain_access ''c:@p'' VarAccess_Read" "CStr 0 ''c:@p''" "[''c:@p'']" "[]"]
  by (simp add: plain_access_def lock_mark_def)

text \<open>The functions a root function reaches through functions that are looked into.\<close>

function reached :: "'c func_info \<Rightarrow> 'c func_info list" where
  "reached f =
     (if fi_in_system_header f \<or> \<not> fi_has_definition f then []
      else f # (case fi_callees f of None \<Rightarrow> [] | Some cs \<Rightarrow> concat (map reached cs)))"
  by pat_completeness auto
termination
  by (relation "measure size") (auto simp: callee_size)

declare reached.simps [simp del]

definition lone_access :: "'c func_info \<Rightarrow> var_access \<Rightarrow> bool" where
  "lone_access f va \<longleftrightarrow> (case va_usr va of None \<Rightarrow> False | Some u \<Rightarrow>
     va_type va \<in> {VarAccess_Read, VarAccess_Write} \<and>
     (cstr_chars u \<in> set (fi_params f) \<or> \<not> va_is_ptr_type va \<and> cstr_chars u \<in> set (fi_locals f)))"

definition null_if :: "bool option \<Rightarrow> var_access \<Rightarrow> var_access option" where
  "null_if r va = map_option (\<lambda>b. if b then va\<lparr>va_type := VarAccess_Null\<rparr> else va) r"

lemma null_if_usr: "(if c then null_if r va else Some va) = Some va' \<Longrightarrow> va_usr va' = va_usr va"
  by (auto simp: null_if_def split: if_splits)

lemma mark_access_usr:
  assumes "mark_access params locals va = Some va'"
  shows "va_usr va' = va_usr va"
proof (cases "lock_mark va = VarAccess_Null")
  case True
  with assms obtain va1 where
    "(if \<not> va_is_ptr_type va \<and> va_type va \<noteq> VarAccess_Escape \<and> \<not> va_is_placeholder_type (va_type va)
      then null_if (strs_contains locals (va_usr va)) va else Some va) = Some va1"
    "(if va_type va1 = VarAccess_Read \<or> va_type va1 = VarAccess_Write
      then null_if (strs_contains params (va_usr va1)) va1 else Some va1) = Some va'"
    by (simp only: mark_access_def null_if_def [symmetric] bind_eq_Some_conv simp_thms if_False) blast
  from this [THEN null_if_usr] show ?thesis by simp
next
  case False
  with assms show ?thesis by (auto simp: mark_access_def)
qed

lemma lock_mark_range: "lock_mark va \<in> {VarAccess_Null, VarAccess_LockAcquire, VarAccess_LockRelease}"
proof -
  have "lock_type_in ps n \<in> {VarAccess_Null, VarAccess_LockAcquire, VarAccess_LockRelease}" for ps n
    by (induction ps n rule: lock_type_in.induct) auto
  then show ?thesis by (auto simp: lock_mark_def lock_primitive_type_def split: option.split)
qed

lemma mark_access_not_lone:
  assumes "mark_access (fi_params f) (fi_locals f) va = Some va'"
  shows "\<not> lone_access f va'"
proof (cases "va_usr va")
  case (Some u)
  from assms mark_access_cases [OF this, of "fi_params f" "fi_locals f"] Some lock_mark_range [of va]
  show ?thesis by (auto simp: lone_access_def split: if_splits)
next
  case None
  with mark_access_usr [OF assms] show ?thesis by (simp add: lone_access_def)
qed

lemma mark_accesses_not_lone:
  "mark_accesses (fi_params f) (fi_locals f) vas = Some vas' \<Longrightarrow> va \<in> set vas' \<Longrightarrow> \<not> lone_access f va"
  by (induction vas arbitrary: vas') (auto simp: bind_eq_Some_conv mark_access_not_lone)

lemma lone_access_frame:
  "fi_params g = fi_params f \<Longrightarrow> fi_locals g = fi_locals f \<Longrightarrow> lone_access g = lone_access f"
  by (simp add: lone_access_def fun_eq_iff split: option.split)

lemma unwind_here_not_lone:
  assumes "unwind_here al arg_usr h f parsed = Some (g, h')" "va \<in> set (accesses_of g)"
  shows "\<not> lone_access g va"
proof -
  obtain f2 where m: "unwind_marks f2 = Some g"
    using assms(1) by (auto simp: unwind_here_def bind_eq_Some_conv)
  note fr = unwind_marks_frame(2,3) [OF m]
  from m assms(2) obtain vas vas' where "mark_accesses (fi_params f2) (fi_locals f2) vas = Some vas'" "va \<in> set vas'"
    by (auto simp: unwind_marks_def accesses_of_def split: option.splits)
  then have "\<not> lone_access f2 va" by (rule mark_accesses_not_lone)
  then show ?thesis by (simp add: lone_access_frame [OF fr])
qed

lemma unwind_not_lone:
  "unwind_func_info al arg_usr h f parsed = Some (f', h') \<Longrightarrow> g \<in> set (reached f') \<Longrightarrow>
    va \<in> set (accesses_of g) \<Longrightarrow> \<not> lone_access g va"
proof (induction al arg_usr h f parsed arbitrary: f' h' g va rule: unwind_func_info.induct)
  case (1 al arg_usr h f parsed)
  show ?case
  proof (cases "fi_in_system_header f \<or> \<not> fi_has_definition f")
    case True
    with 1(2) have "f' = f" by (simp add: unwind_func_info.simps [of al arg_usr h f])
    with True 1(3) show ?thesis by (auto simp: reached.simps [of f])
  next
    case False
    with 1(2) obtain f1 h1 where here: "unwind_here al arg_usr h f parsed = Some (f1, h1)"
      by (auto simp: unwind_func_info.simps [of al arg_usr h f] split: option.splits)
    show ?thesis
    proof (cases "fi_callees f1")
      case None
      with False here 1(2) have "f' = f1"
        by (simp add: unwind_func_info.simps [of al arg_usr h f])
      with None 1(3) have "g = f1" by (simp add: reached.simps [of f1] split: if_splits)
      with unwind_here_not_lone [OF here] 1(4) show ?thesis by simp
    next
      case (Some cs)
      with False here 1(2) obtain cs' where cs': "f' = set_callees (Some cs') f1"
        "for_each (\<lambda>h g. unwind_func_info al arg_usr h g None) h1 cs = Some (cs', h')"
        by (auto simp: unwind_func_info.simps [of al arg_usr h f])
      have below: "list_all2 (\<lambda>c c'. \<forall>g \<in> set (reached c'). \<forall>va \<in> set (accesses_of g). \<not> lone_access g va) cs cs'"
        by (rule for_each_all2 [OF cs'(2)]) (use 1(1) [OF False here] Some in blast)
      from 1(3) have "g = f' \<or> (\<exists>c' \<in> set cs'. g \<in> set (reached c'))"
        by (auto simp: cs'(1) reached.simps [of "set_callees (Some cs') f1"] split: if_splits)
      then show ?thesis
      proof
        assume "g = f'"
        with unwind_here_not_lone [OF here, of va] 1(4) show ?thesis
          by (simp add: cs'(1) accesses_of_def lone_access_frame [of "set_callees (Some cs') f1" f1])
      next
        assume "\<exists>c' \<in> set cs'. g \<in> set (reached c')"
        then obtain i where "i < length cs'" "g \<in> set (reached (cs' ! i))"
          by (auto simp: in_set_conv_nth [of _ cs'])
        with below 1(4) show ?thesis unfolding list_all2_conv_all_nth by auto
      qed
    qed
  qed
qed


definition leaf_func :: "string list \<Rightarrow> string list \<Rightarrow> var_access list \<Rightarrow> unit func_info" where
  "leaf_func params locals vas = FuncInfo None None None None params locals None None (Some vas) False True"


section \<open>Aliases\<close>

text \<open>C29: The step that replaces parameters of callees by the variables passed to them
  never replaces anything: it runs on the call markers, whose argument index is the one
  that stands for no argument, so the USR it looks for is the empty string of the compiler
  library, and no access has an empty USR.\<close>

theorem alias_resolution_resolves_nothing:
  assumes "\<And>c. arg_usr c NO_IDX = ''''"
    and "\<forall>va \<in> set vas. va_type va = VarAccess_Call \<longrightarrow> va_esc_param_idx va = NO_IDX"
    and "\<forall>g \<in> set callees. \<forall>va \<in> set (accesses_of g).
      va_is_placeholder_type (va_type va) \<or> (\<exists>u. va_usr va = Some u \<and> cstr_chars u \<noteq> '''')"
    and "n + length (filter (\<lambda>va. va_type va = VarAccess_Call) vas) \<le> length callees"
  shows "resolve_calls arg_usr h callees n vas = Some (callees, h)"
  using assms(2,4)
proof (induction vas arbitrary: n)
  case (Cons va vas)
  have same: "for_each (resolve_access '''' v) h ws = Some (ws, h)"
    if "\<forall>w \<in> set ws. va_is_placeholder_type (va_type w) \<or> (\<exists>u. va_usr w = Some u \<and> cstr_chars u \<noteq> '''')" for v ws
    using that by (induction ws) (auto simp: resolve_access_def)
  have al_call: "resolve_var_access_alias arg_usr h (Some (callees ! n)) va = Some (Some (callees ! n), h)"
    if "n < length callees" "va_type va = VarAccess_Call"
  proof -
    have "set_var_accesses (fi_var_accesses f) f = f" for f :: "'b func_info"
      by (cases f) (simp add: set_var_accesses_def)
    then have "set_var_accesses (Some vs) f = f" if "fi_var_accesses f = Some vs" for f :: "'b func_info" and vs
      using that by metis
    moreover have "va_esc_param_idx va = NO_IDX" using Cons.prems(1) that(2) by simp
    moreover have "\<forall>w \<in> set (accesses_of (callees ! n)). va_is_placeholder_type (va_type w) \<or>
        (\<exists>u. va_usr w = Some u \<and> cstr_chars u \<noteq> '''')"
      using assms(3) nth_mem [OF that(1)] by blast
    ultimately show ?thesis
      using assms(1) same
      by (auto simp: resolve_var_access_alias_def accesses_of_def Let_def split: option.split)
  qed
  show ?case
    using Cons.prems Cons.IH [of n] Cons.IH [of "Suc n"] al_call
    by (cases "va_type va = VarAccess_Call") (auto simp: Let_def)
qed simp

theorem alias_resolution_resolves_nothing_witness:
  "resolve_calls (\<lambda>c i. if i = 0 then ''c:@p'' else '''') 7
     [leaf_func [''c:@p''] [] [plain_access ''c:@p'' VarAccess_PtrWrite]] 0
     [(plain_access ''c:@F@g'' VarAccess_Call)\<lparr>va_esc_param_idx := NO_IDX\<rparr>]
   = Some ([leaf_func [''c:@p''] [] [plain_access ''c:@p'' VarAccess_PtrWrite]], 7)"
  by (rule alias_resolution_resolves_nothing)
    (simp_all add: NO_IDX_def UINT_MAX_def leaf_func_def accesses_of_def plain_access_def)

section \<open>The footprint\<close>

definition kept :: "var_access \<Rightarrow> bool" where
  "kept va \<longleftrightarrow> va_type va \<noteq> VarAccess_Null \<and> va_type va \<noteq> VarAccess_Call"

text \<open>Every call marker has its callee.\<close>

definition calls_match :: "'c func_info \<Rightarrow> bool" where
  "calls_match f \<longleftrightarrow> (case fi_callees f of None \<Rightarrow> True | Some cs \<Rightarrow> num_calls (accesses_of f) = length cs)"

definition collected :: "'c func_info list \<Rightarrow> var_access list" where
  "collected gs = concat (map (filter kept \<circ> accesses_of) gs)"

lemma collected_simps [simp]:
  "collected [] = []" "collected (g # gs) = filter kept (accesses_of g) @ collected gs"
  "collected (gs @ hs) = collected gs @ collected hs"
  by (simp_all add: collected_def)

lemma footprint_loop_leaf:
  "fi_callees f = None \<Longrightarrow> footprint_loop f n vas acc = Some (acc @ filter kept vas)"
  by (induction vas arbitrary: acc) (auto simp: kept_def)

lemma footprint_loop_inlines:
  assumes "fi_callees f = Some cs"
    and "\<And>g acc. g \<in> set cs \<Longrightarrow> \<exists>fp. build_var_access_footprint g acc = Some (acc @ fp) \<and>
      mset fp = mset (collected (reached g))"
  shows "n + num_calls vas = length cs \<Longrightarrow>
    \<exists>fp. footprint_loop f n vas acc = Some (acc @ fp) \<and> subseq (filter kept vas) fp \<and>
      mset fp = mset (filter kept vas) + mset (collected (concat (map reached (drop n cs))))"
proof (induction vas arbitrary: n acc)
  case (Cons va vas)
  show ?case
  proof (cases "va_type va = VarAccess_Call")
    case True
    with Cons.prems have n: "n < length cs" "Suc n + num_calls vas = length cs" by (auto simp: num_calls_def)
    obtain fp1 where 1: "build_var_access_footprint (cs ! n) acc = Some (acc @ fp1)"
      "mset fp1 = mset (collected (reached (cs ! n)))"
      using assms(2) nth_mem [OF n(1)] by blast
    obtain fp2 where 2: "footprint_loop f (Suc n) vas (acc @ fp1) = Some ((acc @ fp1) @ fp2)"
      "subseq (filter kept vas) fp2"
      "mset fp2 = mset (filter kept vas) + mset (collected (concat (map reached (drop (Suc n) cs))))"
      using Cons.IH [OF n(2)] by blast
    have "drop n cs = cs ! n # drop (Suc n) cs" using n(1) by (simp add: Cons_nth_drop_Suc)
    moreover have "subseq (filter kept vas) (fp1 @ fp2)" using 2(2) by (rule list_emb_append2)
    moreover have "\<not> kept va" using True by (simp add: kept_def)
    ultimately show ?thesis
      using True n 1 2 assms(1) by (intro exI [of _ "fp1 @ fp2"]) auto
  next
    case False
    then obtain fp where "footprint_loop f n vas (if kept va then acc @ [va] else acc)
        = Some ((if kept va then acc @ [va] else acc) @ fp)"
      "subseq (filter kept vas) fp"
      "mset fp = mset (filter kept vas) + mset (collected (concat (map reached (drop n cs))))"
      using Cons.IH [of n] Cons.prems by (auto simp: num_calls_def)
    with False assms(1) show ?thesis
      by (intro exI [of _ "if kept va then va # fp else fp"]) (auto simp: kept_def [of va])
  qed
qed (use assms in \<open>simp add: num_calls_def\<close>)

lemma reached_callee:
  "\<not> (fi_in_system_header f \<or> \<not> fi_has_definition f) \<Longrightarrow> fi_callees f = Some cs \<Longrightarrow> g \<in> set cs \<Longrightarrow>
    set (reached g) \<subseteq> set (reached f)"
  by (auto simp: reached.simps [of f])

lemma footprint_inlines:
  "\<forall>g \<in> set (reached f). calls_match g \<Longrightarrow>
    \<exists>fp. build_var_access_footprint f acc = Some (acc @ fp) \<and> mset fp = mset (collected (reached f)) \<and>
      (f \<in> set (reached f) \<longrightarrow> subseq (filter kept (accesses_of f)) fp)"
proof (induction f arbitrary: acc rule: func_info_tree_induct)
  case (Node f)
  show ?case
  proof (cases "fi_in_system_header f \<or> \<not> fi_has_definition f")
    case True
    then show ?thesis by (auto simp: build_var_access_footprint.simps reached.simps [of f])
  next
    case False
    then have self: "f \<in> set (reached f)" by (simp add: reached.simps [of f])
    have build: "build_var_access_footprint f acc = footprint_loop f 0 (accesses_of f) acc"
      using False by (simp add: build_var_access_footprint.simps accesses_of_def split: option.split)
    show ?thesis
    proof (cases "fi_callees f")
      case None
      with False build show ?thesis
        by (simp add: footprint_loop_leaf reached.simps [of f])
    next
      case (Some cs)
      have match: "0 + num_calls (accesses_of f) = length cs"
        using Node.prems self Some by (fastforce simp: calls_match_def)
      have "\<exists>fp. build_var_access_footprint g acc = Some (acc @ fp) \<and> mset fp = mset (collected (reached g))"
        if "g \<in> set cs" for g acc
        using Node.IH [OF Some that, of acc] Node.prems reached_callee [OF False Some that] by blast
      from footprint_loop_inlines [OF Some this match, of acc] False Some build show ?thesis
        by (auto simp: reached.simps [of f])
    qed
  qed
qed

text \<open>C2: The footprint is the program inlined: when every call marker has its callee,
  building succeeds, appends to what is there, and appends exactly the accesses that were
  not nullified of every function reached, each as often as the function is reached; those
  of the root itself stay in their order.\<close>

theorem footprint_is_the_inlined_program:
  assumes "\<forall>g \<in> set (reached f). calls_match g"
  shows "\<exists>fp. build_var_access_footprint f acc = Some (acc @ fp) \<and>
    mset fp = mset (concat (map (filter kept \<circ> accesses_of) (reached f))) \<and>
    (f \<in> set (reached f) \<longrightarrow> subseq (filter kept (accesses_of f)) fp)"
  using footprint_inlines [OF assms, of acc] by (simp add: collected_def)

definition caller_func :: "unit func_info list \<Rightarrow> var_access list \<Rightarrow> unit func_info" where
  "caller_func cs vas = FuncInfo None None None None [] [] None (Some cs) (Some vas) False True"

theorem footprint_is_the_inlined_program_witness:
  "\<exists>fp. build_var_access_footprint (caller_func [leaf_func [] [] [plain_access ''c:@x'' VarAccess_Write]]
       [plain_access ''c:@x'' VarAccess_Read, plain_access ''c:@F@g'' VarAccess_Call]) [] = Some fp \<and>
     mset fp = {#plain_access ''c:@x'' VarAccess_Read, plain_access ''c:@x'' VarAccess_Write#}"
proof -
  let ?f = "caller_func [leaf_func [] [] [plain_access ''c:@x'' VarAccess_Write]]
       [plain_access ''c:@x'' VarAccess_Read, plain_access ''c:@F@g'' VarAccess_Call]"
  have r: "reached ?f = [?f, leaf_func [] [] [plain_access ''c:@x'' VarAccess_Write]]"
    by (simp add: reached.simps leaf_func_def caller_func_def)
  from footprint_is_the_inlined_program [of ?f "[]"] show ?thesis
    unfolding r by (auto simp: calls_match_def num_calls_def accesses_of_def leaf_func_def caller_func_def
        kept_def plain_access_def)
qed

text \<open>Every call in a function that has callees must have one: the footprint reads
  behind the callee array exactly when there are more call markers than callees.\<close>

theorem footprint_overruns_callees:
  assumes "\<not> fi_in_system_header f" "fi_has_definition f" "fi_callees f = Some cs"
    and "\<And>g acc. g \<in> set cs \<Longrightarrow> build_var_access_footprint g acc \<noteq> None"
  shows "build_var_access_footprint f acc = None \<longleftrightarrow> length cs < num_calls (accesses_of f)"
proof -
  have loop: "footprint_loop f n vas acc = None \<longleftrightarrow> length cs < n + num_calls vas" if "n \<le> length cs" for n vas acc
    using that
  proof (induction vas arbitrary: n acc)
    case (Cons va vas)
    show ?case
    proof (cases "va_type va = VarAccess_Call")
      case True
      show ?thesis
      proof (cases "n < length cs")
        case n: True
        then obtain acc' where "build_var_access_footprint (cs ! n) acc = Some acc'" using assms(4) by fastforce
        with True n Cons assms(3) show ?thesis by (simp add: num_calls_def)
      qed (use True Cons.prems assms(3) in \<open>simp add: num_calls_def\<close>)
    next
      case False
      with Cons assms(3) show ?thesis by (simp add: num_calls_def)
    qed
  qed (simp add: num_calls_def)
  have "build_var_access_footprint f acc = footprint_loop f 0 (accesses_of f) acc"
    using assms(1,2) by (simp add: build_var_access_footprint.simps accesses_of_def split: option.split)
  with loop [of 0] show ?thesis by simp
qed

theorem footprint_overruns_callees_witness:
  "build_var_access_footprint (caller_func [] [plain_access ''c:@F@g'' VarAccess_Call]) [] = None"
  using footprint_overruns_callees [of "caller_func [] [plain_access ''c:@F@g'' VarAccess_Call]" "[]" "[]"]
  by (simp add: num_calls_def accesses_of_def plain_access_def caller_func_def)

end
