(* ===== verification/Races.thy ===== *)
theory Races
  imports Overlap Lock_Protection Unwinding
begin

text \<open>
  What the comparison of two functions promises: the search for overlaps pairs accesses to
  the same variable off, one with one; the annotation of a footprint always succeeds on a
  well-formed one and, without branches, records exactly the locks held; the search for
  unprotected accesses reports every pair whose protections do not match and nothing else.
\<close>

section \<open>Traces\<close>

definition all_named :: "'c func_info \<Rightarrow> bool" where
  "all_named f \<longleftrightarrow> (\<forall>g \<in> set (tree_nodes f). fi_name g \<noteq> None)"

lemma all_named_callee:
  "all_named f \<Longrightarrow> fi_callees f = Some cs \<Longrightarrow> g \<in> set cs \<Longrightarrow> all_named g"
  by (auto simp: all_named_def tree_nodes.simps [of f])

lemma all_named_self: "all_named f \<Longrightarrow> \<exists>p. fi_name f = Some p"
  by (auto simp: all_named_def tree_nodes.simps [of f])

lemma trace_total: "all_named f \<Longrightarrow> \<exists>out. trace_va_overlap src f va ct = Some out"
proof (induction f arbitrary: ct rule: func_info_tree_induct)
  case (Node f)
  obtain p where p: "fi_name f = Some p" using all_named_self [OF Node.prems] by blast
  have "outputs (\<lambda>g. trace_va_overlap src g va (ct @ [cstr_chars p])) cs \<noteq> None" if "fi_callees f = Some cs" for cs
    using Node.IH [OF that] all_named_callee [OF Node.prems that] by (intro outputs_total) blast
  with p show ?case
    by (auto simp: trace_va_overlap.simps [of src f] Let_def split: option.split)
qed

section \<open>Pairing off\<close>

definition live :: "string \<Rightarrow> var_access \<Rightarrow> bool" where
  "live u va \<longleftrightarrow> \<not> va_is_placeholder_type (va_type va) \<and> usr_chars va = Some u"

definition shared :: "var_access \<Rightarrow> var_access \<Rightarrow> bool" where
  "shared va vb \<longleftrightarrow> (\<exists>u. live u va \<and> live u vb)"

text \<open>How many accesses to a variable are still to be reported.\<close>

definition num_live :: "string \<Rightarrow> var_access list \<Rightarrow> nat" where
  "num_live u vas = length (filter (live u) vas)"

definition usrs_known :: "var_access list \<Rightarrow> bool" where
  "usrs_known vas \<longleftrightarrow> (\<forall>va \<in> set vas. va_is_placeholder_type (va_type va) \<or> va_usr va \<noteq> None)"

lemma live_null [simp]: "\<not> live u (va\<lparr>va_type := VarAccess_Null\<rparr>)"
  by (simp add: live_def)

lemma length_nullify [simp]: "length (nullify i vas) = length vas"
  by (simp add: nullify_def)

lemma live_nullify: "i < length vas \<Longrightarrow> live u (nullify k vas ! i) \<longleftrightarrow> i \<noteq> k \<and> live u (vas ! i)"
  by (cases "i = k") (simp_all add: nullify_def)

lemma nullify_twice: "nullify i (nullify i vas) = nullify i vas"
  by (cases "i < length vas") (simp_all add: nullify_def list_update_beyond)

lemma usrs_known_nullify: "usrs_known vas \<Longrightarrow> usrs_known (nullify i vas)"
  by (auto simp: usrs_known_def nullify_def dest!: set_update_subset_insert [THEN subsetD])

lemma num_live_nullify:
  assumes "i < length vas"
  shows "num_live u (nullify i vas) + (if live u (vas ! i) then 1 else 0) = num_live u vas"
proof -
  have "vas = take i vas @ [vas ! i] @ drop (Suc i) vas" using assms by (simp add: id_take_nth_drop)
  then have "num_live u vas = num_live u (take i vas) + num_live u [vas ! i] + num_live u (drop (Suc i) vas)"
    by (metis add.assoc filter_append length_append num_live_def)
  moreover have "num_live u (nullify i vas) = num_live u (take i vas) + num_live u (drop (Suc i) vas)"
    using assms by (simp add: nullify_def upd_conv_take_nth_drop num_live_def)
  ultimately show ?thesis by (simp add: num_live_def)
qed

lemma num_live_pos: "0 < num_live u vas \<longleftrightarrow> (\<exists>i < length vas. live u (vas ! i))"
  by (force simp: num_live_def filter_empty_conv in_set_conv_nth)

lemma equal_var_accesses_known:
  assumes "usrs_known as" "usrs_known bs" "i < length as" "j < length bs"
    and "\<not> va_is_placeholder_type (va_type (as ! i))" "\<not> va_is_placeholder_type (va_type (bs ! j))"
  shows "equal_var_accesses (as ! i) (bs ! j) = Some (shared (as ! i) (bs ! j))"
proof -
  obtain p q where "va_usr (as ! i) = Some p" "va_usr (bs ! j) = Some q"
    using assms nth_mem [OF assms(3)] nth_mem [OF assms(4)] by (fastforce simp: usrs_known_def)
  with assms(5,6) show ?thesis
    by (auto simp: equal_var_accesses_def shared_def live_def usr_chars_def)
qed

text \<open>The contract of the body of the two loops: in a ready state it reports a pair when
  both accesses are to the same variable and the pair is to be reported, and then
  nullifies both; otherwise it changes nothing.\<close>

lemma all_pairs_ball: "(\<forall>(i, j) \<in> set (all_pairs m n). P i j) \<longleftrightarrow> (\<forall>i < m. \<forall>j < n. P i j)"
  by (auto simp: all_pairs_def)

locale pair_scan =
  fixes body :: "nat \<Rightarrow> nat \<Rightarrow> scan_state \<Rightarrow> scan_state option"
    and reported :: "nat \<Rightarrow> nat \<Rightarrow> bool"
    and ready :: "scan_state \<Rightarrow> bool"
  assumes step: "ready s \<Longrightarrow> i < length (scan_a s) \<Longrightarrow> j < length (scan_b s) \<Longrightarrow>
      \<exists>s'. body i j s = Some s' \<and> ready s' \<and>
        (if shared (scan_a s ! i) (scan_b s ! j) \<and> reported i j
         then scan_a s' = nullify i (scan_a s) \<and> scan_b s' = nullify j (scan_b s)
         else s' = s)"
begin

text \<open>What one iteration keeps: lengths, the balance of the two sides, and that accesses
  only ever cease to be live.\<close>

definition balanced :: "scan_state \<Rightarrow> scan_state \<Rightarrow> bool" where
  "balanced s t \<longleftrightarrow> length (scan_a t) = length (scan_a s) \<and> length (scan_b t) = length (scan_b s) \<and>
     (\<forall>u. num_live u (scan_a t) + num_live u (scan_b s) = num_live u (scan_b t) + num_live u (scan_a s)) \<and>
     (\<forall>u. num_live u (scan_a t) \<le> num_live u (scan_a s)) \<and>
     (\<forall>u i. i < length (scan_a s) \<longrightarrow> live u (scan_a t ! i) \<longrightarrow> live u (scan_a s ! i)) \<and>
     (\<forall>u j. j < length (scan_b s) \<longrightarrow> live u (scan_b t ! j) \<longrightarrow> live u (scan_b s ! j))"

lemma balanced_refl: "balanced s s"
  by (simp add: balanced_def)

lemma balanced_trans:
  assumes "balanced r s" "balanced s t"
  shows "balanced r t"
proof -
  have "num_live u (scan_a t) + num_live u (scan_b r) = num_live u (scan_b t) + num_live u (scan_a r)" for u
  proof -
    have "num_live u (scan_a t) + num_live u (scan_b s) = num_live u (scan_b t) + num_live u (scan_a s)"
      "num_live u (scan_a s) + num_live u (scan_b r) = num_live u (scan_b s) + num_live u (scan_a r)"
      using assms by (simp_all add: balanced_def)
    then show ?thesis by simp
  qed
  moreover have "num_live u (scan_a t) \<le> num_live u (scan_a r)" for u
    using assms by (auto simp: balanced_def intro: order_trans)
  ultimately show ?thesis using assms by (simp add: balanced_def)
qed

lemma balanced_shared:
  assumes "balanced s t" "i < length (scan_a s)" "j < length (scan_b s)" "shared (scan_a t ! i) (scan_b t ! j)"
  shows "shared (scan_a s ! i) (scan_b s ! j)"
  using assms unfolding balanced_def shared_def by blast

lemma step_balanced:
  assumes "ready s" "i < length (scan_a s)" "j < length (scan_b s)"
  shows "\<exists>s'. body i j s = Some s' \<and> ready s' \<and> balanced s s' \<and>
    \<not> (shared (scan_a s' ! i) (scan_b s' ! j) \<and> reported i j) \<and>
    (\<not> (shared (scan_a s ! i) (scan_b s ! j) \<and> reported i j) \<longrightarrow> s' = s)"
proof -
  obtain s' where s': "body i j s = Some s'" "ready s'"
    "if shared (scan_a s ! i) (scan_b s ! j) \<and> reported i j
     then scan_a s' = nullify i (scan_a s) \<and> scan_b s' = nullify j (scan_b s) else s' = s"
    using step [OF assms] by blast
  show ?thesis
  proof (cases "shared (scan_a s ! i) (scan_b s ! j) \<and> reported i j")
    case True
    then have n: "scan_a s' = nullify i (scan_a s)" "scan_b s' = nullify j (scan_b s)" using s'(3) by auto
    from True obtain w where w: "live w (scan_a s ! i)" "live w (scan_b s ! j)" by (auto simp: shared_def)
    have one: "live u (scan_a s ! i) \<longleftrightarrow> u = w" "live u (scan_b s ! j) \<longleftrightarrow> u = w" for u
      using w by (auto simp: live_def)
    have c: "num_live u (scan_a s') + (if u = w then 1 else 0) = num_live u (scan_a s)"
      "num_live u (scan_b s') + (if u = w then 1 else 0) = num_live u (scan_b s)" for u
      using num_live_nullify [OF assms(2), of u] num_live_nullify [OF assms(3), of u] by (simp_all add: n one)
    have "num_live u (scan_a s') + num_live u (scan_b s) = num_live u (scan_b s') + num_live u (scan_a s) \<and>
        num_live u (scan_a s') \<le> num_live u (scan_a s)" for u
      using c [of u] by (cases "u = w") simp_all
    then have "balanced s s'"
      by (simp add: balanced_def n live_nullify)
    moreover have "\<not> shared (scan_a s' ! i) (scan_b s' ! j)"
      using assms(2) by (simp add: shared_def n live_nullify)
    ultimately show ?thesis using s'(1,2) True by blast
  next
    case False
    then have "s' = s" using s'(3) by auto
    with s' False balanced_refl show ?thesis by auto
  qed
qed

lemma loop_balanced:
  "ready s \<Longrightarrow> \<forall>(i, j) \<in> set ps. i < length (scan_a s) \<and> j < length (scan_b s) \<Longrightarrow>
    \<exists>s'. pair_loop body ps s = Some s' \<and> ready s' \<and> balanced s s' \<and>
      (\<forall>(i, j) \<in> set ps. \<not> (shared (scan_a s' ! i) (scan_b s' ! j) \<and> reported i j)) \<and>
      ((\<forall>(i, j) \<in> set ps. \<not> (shared (scan_a s ! i) (scan_b s ! j) \<and> reported i j)) \<longrightarrow> s' = s)"
proof (induction ps arbitrary: s)
  case Nil
  with balanced_refl show ?case by simp
next
  case (Cons p ps)
  obtain i j where p: "p = (i, j)" by force
  have ij: "i < length (scan_a s)" "j < length (scan_b s)" using Cons.prems(2) p by auto
  obtain s1 where s1: "body i j s = Some s1" "ready s1" "balanced s s1"
    "\<not> (shared (scan_a s1 ! i) (scan_b s1 ! j) \<and> reported i j)"
    "\<not> (shared (scan_a s ! i) (scan_b s ! j) \<and> reported i j) \<longrightarrow> s1 = s"
    using step_balanced [OF Cons.prems(1) ij] by blast
  have len: "length (scan_a s1) = length (scan_a s)" "length (scan_b s1) = length (scan_b s)"
    using s1(3) by (simp_all add: balanced_def)
  then have "\<forall>(i, j) \<in> set ps. i < length (scan_a s1) \<and> j < length (scan_b s1)"
    using Cons.prems(2) by auto
  from Cons.IH [OF s1(2) this]
  obtain s' where s': "pair_loop body ps s1 = Some s'" "ready s'" "balanced s1 s'"
    "\<forall>(i, j) \<in> set ps. \<not> (shared (scan_a s' ! i) (scan_b s' ! j) \<and> reported i j)"
    "(\<forall>(i, j) \<in> set ps. \<not> (shared (scan_a s1 ! i) (scan_b s1 ! j) \<and> reported i j)) \<longrightarrow> s' = s1"
    by blast
  have "\<not> (shared (scan_a s' ! i) (scan_b s' ! j) \<and> reported i j)"
    using s1(4) balanced_shared [OF s'(3), of i j] ij len by auto
  then have "\<forall>(i, j) \<in> set (p # ps). \<not> (shared (scan_a s' ! i) (scan_b s' ! j) \<and> reported i j)"
    using s'(4) p by simp
  moreover have "balanced s s'" using s1(3) s'(3) by (rule balanced_trans)
  moreover have "pair_loop body (p # ps) s = Some s'" using s1(1) s'(1) p by simp
  moreover have "s' = s" if "\<forall>(i, j) \<in> set (p # ps). \<not> (shared (scan_a s ! i) (scan_b s ! j) \<and> reported i j)"
  proof -
    from that p have "\<not> (shared (scan_a s ! i) (scan_b s ! j) \<and> reported i j)"
      "\<forall>(i, j) \<in> set ps. \<not> (shared (scan_a s ! i) (scan_b s ! j) \<and> reported i j)" by simp_all
    with s1(5) s'(5) show ?thesis by blast
  qed
  ultimately show ?case using s'(2) by blast
qed

text \<open>The whole scan: no pair to report is left; nothing happens when there is none.\<close>

lemma scan_all:
  assumes "ready s"
  shows "\<exists>s'. pair_loop body (all_pairs (length (scan_a s)) (length (scan_b s))) s = Some s' \<and> ready s' \<and> balanced s s' \<and>
    (\<forall>i < length (scan_a s). \<forall>j < length (scan_b s).
       \<not> (shared (scan_a s' ! i) (scan_b s' ! j) \<and> reported i j)) \<and>
    ((\<forall>i < length (scan_a s). \<forall>j < length (scan_b s).
       \<not> (shared (scan_a s ! i) (scan_b s ! j) \<and> reported i j)) \<longrightarrow> s' = s)"
proof -
  let ?ps = "all_pairs (length (scan_a s)) (length (scan_b s))"
  have "\<forall>(i, j) \<in> set ?ps. i < length (scan_a s) \<and> j < length (scan_b s)"
    unfolding all_pairs_ball by blast
  from loop_balanced [OF assms this] obtain s' where "pair_loop body ?ps s = Some s'" "ready s'" "balanced s s'"
    "\<forall>(i, j) \<in> set ?ps. \<not> (shared (scan_a s' ! i) (scan_b s' ! j) \<and> reported i j)"
    "(\<forall>(i, j) \<in> set ?ps. \<not> (shared (scan_a s ! i) (scan_b s ! j) \<and> reported i j)) \<longrightarrow> s' = s"
    by blast
  then show ?thesis unfolding all_pairs_ball by blast
qed

text \<open>When every pair is to be reported the two sides are paired off.\<close>

lemma pairs_off:
  assumes "balanced s t" "\<forall>i < length (scan_a s). \<forall>j < length (scan_b s). \<not> shared (scan_a t ! i) (scan_b t ! j)"
  shows "num_live u (scan_a t) = num_live u (scan_a s) - num_live u (scan_b s)"
    and "num_live u (scan_b t) = num_live u (scan_b s) - num_live u (scan_a s)"
proof -
  have "\<not> (0 < num_live u (scan_a t) \<and> 0 < num_live u (scan_b t))"
    using assms unfolding num_live_pos by (auto simp: balanced_def shared_def)
  moreover have "num_live u (scan_a t) + num_live u (scan_b s) = num_live u (scan_b t) + num_live u (scan_a s)"
    using assms(1) by (simp add: balanced_def)
  ultimately show "num_live u (scan_a t) = num_live u (scan_a s) - num_live u (scan_b s)"
    and "num_live u (scan_b t) = num_live u (scan_b s) - num_live u (scan_a s)"
    by linarith+
qed

end

lemma report_pair_ok:
  assumes "all_named fa" "all_named fb"
  shows "\<exists>s'. report_pair src fa fb headline c i j s = Some s' \<and>
    scan_a s' = nullify i (scan_a s) \<and> scan_b s' = nullify j (scan_b s)"
  using trace_total [OF assms(1), of src "scan_a s ! i" "[]"] trace_total [OF assms(2), of src "scan_b s ! j" "[]"]
  by (auto simp: report_pair_def)

definition scan_ready :: "'c func_info \<Rightarrow> 'c func_info \<Rightarrow> scan_state \<Rightarrow> bool" where
  "scan_ready fa fb s \<longleftrightarrow> all_named fa \<and> all_named fb \<and> usrs_known (scan_a s) \<and> usrs_known (scan_b s)"

lemma shared_live: "shared va vb \<Longrightarrow> \<not> va_is_placeholder_type (va_type va) \<and> \<not> va_is_placeholder_type (va_type vb)"
  by (auto simp: shared_def live_def)

interpretation overlap: pair_scan "overlap_at src fa fb" "\<lambda>i j. True" "scan_ready fa fb"
  for src :: "'c source_info" and fa fb
proof
  fix s i j
  assume s: "scan_ready fa fb s" "i < length (scan_a s)" "j < length (scan_b s)"
  then have named: "all_named fa" "all_named fb" and known: "usrs_known (scan_a s)" "usrs_known (scan_b s)"
    by (simp_all add: scan_ready_def)
  note eq = equal_var_accesses_known [OF known s(2,3)]
  show "\<exists>s'. overlap_at src fa fb i j s = Some s' \<and> scan_ready fa fb s' \<and>
      (if shared (scan_a s ! i) (scan_b s ! j) \<and> True
       then scan_a s' = nullify i (scan_a s) \<and> scan_b s' = nullify j (scan_b s) else s' = s)"
  proof (cases "shared (scan_a s ! i) (scan_b s ! j)")
    case True
    obtain s' where "report_pair src fa fb (CLR_VAR @ ''Variable overlap:'' @ CLR_RESET) CLR_VAR i j s = Some s'"
      "scan_a s' = nullify i (scan_a s)" "scan_b s' = nullify j (scan_b s)"
      using report_pair_ok [OF named] by blast
    with True shared_live [OF True] eq named known show ?thesis
      by (simp add: overlap_at_def Let_def scan_ready_def usrs_known_nullify)
  next
    case False
    with eq s(1) show ?thesis
      by (auto simp: overlap_at_def Let_def)
  qed
qed

definition verdict_reported :: "protection_field_array \<Rightarrow> protection_field_array \<Rightarrow> nat \<Rightarrow> nat \<Rightarrow> bool" where
  "verdict_reported arr_a arr_b i j \<longleftrightarrow>
     matching_protection_field_arrays arr_a arr_b i j \<in> {Some Shared_Unprotected, Some Shared_Uncertain} \<or>
     lp_size arr_a = 0 \<or> lp_size arr_b = 0"

lemma matching_total:
  assumes "lp_inv a" "lp_inv b"
  shows "\<exists>q. matching_protection_field_arrays a b i j = Some q"
  using in_range_prot_objs [OF assms(1), of i] in_range_prot_objs [OF assms(2), of j]
  by (auto simp: matching_protection_field_arrays_def)

interpretation unprotected: pair_scan "unprotected_at src arr_a arr_b fa fb" "verdict_reported arr_a arr_b"
  "\<lambda>s. scan_ready fa fb s \<and> lp_inv arr_a \<and> lp_inv arr_b"
  for src :: "'c source_info" and arr_a arr_b fa fb
proof
  fix s i j
  assume s: "scan_ready fa fb s \<and> lp_inv arr_a \<and> lp_inv arr_b" "i < length (scan_a s)" "j < length (scan_b s)"
  then have named: "all_named fa" "all_named fb" and known: "usrs_known (scan_a s)" "usrs_known (scan_b s)"
    by (simp_all add: scan_ready_def)
  note eq = equal_var_accesses_known [OF known s(2,3)]
  obtain q where q: "matching_protection_field_arrays arr_a arr_b i j = Some q"
    using matching_total s(1) by blast
  show "\<exists>s'. unprotected_at src arr_a arr_b fa fb i j s = Some s' \<and> (scan_ready fa fb s' \<and> lp_inv arr_a \<and> lp_inv arr_b) \<and>
      (if shared (scan_a s ! i) (scan_b s ! j) \<and> verdict_reported arr_a arr_b i j
       then scan_a s' = nullify i (scan_a s) \<and> scan_b s' = nullify j (scan_b s) else s' = s)"
  proof (cases "shared (scan_a s ! i) (scan_b s ! j)")
    case True
    obtain s' where "report_pair src fa fb (unprotected_headline q)
          (if q = Shared_Uncertain then CLR_UNCERTAIN else CLR_UNPROTECTED) i j s = Some s'"
      "scan_a s' = nullify i (scan_a s)" "scan_b s' = nullify j (scan_b s)"
      using report_pair_ok [OF named] by blast
    with True shared_live [OF True] eq named known s(1) q show ?thesis
      by (cases q) (simp_all add: unprotected_at_def Let_def scan_ready_def usrs_known_nullify verdict_reported_def bad_protection_def)
  next
    case False
    with eq s(1) show ?thesis
      by (auto simp: unprotected_at_def Let_def)
  qed
qed

section \<open>Overlaps\<close>


definition sample_func :: "var_access list \<Rightarrow> unit func_info" where
  "sample_func vas = FuncInfo None None (Some (CStr 0 ''f'')) None [] [] (Some vas) None (Some vas) False True"

lemma sample_func_simps [simp]:
  "all_named (sample_func vas)" "fi_access_footprint (sample_func vas) = Some vas"
  by (simp_all add: all_named_def tree_nodes.simps sample_func_def)

lemma plain_access_simps [simp]:
  "va_type (plain_access u t) = t" "va_usr (plain_access u t) = Some (CStr 0 u)"
  "usr_chars (plain_access u t) = Some u"
  by (simp_all add: plain_access_def usr_chars_def)


section \<open>The annotation succeeds\<close>

text \<open>A footprint the annotation can process: locks have a pair and an object, every if
  statement is followed by the marker of its then block.\<close>

definition annotatable :: "lock_pair_arr \<Rightarrow> var_access list \<Rightarrow> bool" where
  "annotatable pairs fp \<longleftrightarrow> (\<forall>i < length fp.
     (va_type (fp ! i) = VarAccess_LockAcquire \<longrightarrow> va_usr (fp ! i) \<noteq> None \<and>
        (\<exists>p. get_pair_by_lock_func pairs (map_option cstr_chars (va_esc_func_spelling (fp ! i))) = Some p \<and>
             \<not> lock_pair_is_null p)) \<and>
     (va_type (fp ! i) = VarAccess_LockRelease \<longrightarrow> va_usr (fp ! i) \<noteq> None) \<and>
     (va_type (fp ! i) = VarAccess_IfStmt \<longrightarrow> find_then_block fp (i + 1) \<noteq> None))"

lemma find_then_block_Some: "find_then_block fp k = Some t \<Longrightarrow> t < length fp"
  by (auto simp: find_then_block_def find_Some_iff)

lemma add_field_block:
  "in_place al (lp_block arr) \<Longrightarrow> add_lock_protection_field al arr pair va i = Some arr' \<Longrightarrow> lp_block arr' = lp_block arr"
  by (auto simp: add_lock_protection_field_def lp_grow_def lp_append_def Let_def in_place_def reallocarray_def
      update_lp_field_array_pointers_def bind_eq_Some_conv split: if_splits option.splits)

text \<open>The state of the loop after \<open>k\<close> accesses.\<close>

definition annotated :: "allocator \<Rightarrow> int \<Rightarrow> nat \<Rightarrow> protection_field_array \<Rightarrow> bool" where
  "annotated al addr k arr \<longleftrightarrow> lp_inv arr \<and> lp_block arr = addr \<and> lp_tails (lp_fields arr) \<le> k \<and> lp_size arr \<le> k * k"

lemma annotated_limit:
  assumes "annotated al addr k arr" "k < 524288"
  shows "2 * lp_size arr \<le> ARR_LIMIT" "lp_size arr < ARR_LIMIT"
proof -
  have "k * k \<le> 524288 * 524288" using assms(2) by (intro mult_le_mono) auto
  then show "2 * lp_size arr \<le> ARR_LIMIT" "lp_size arr < ARR_LIMIT"
    using assms(1) by (simp_all add: annotated_def ARR_LIMIT_def)
qed

lemma annotated_Suc:
  assumes "annotated al addr k arr" "lp_inv arr'" "lp_block arr' = addr"
    and "lp_tails (lp_fields arr') \<le> Suc (lp_tails (lp_fields arr))" "lp_size arr' \<le> lp_size arr + max 1 (lp_tails (lp_fields arr))"
  shows "annotated al addr (Suc k) arr'"
  using assms by (auto simp: annotated_def max_def split: if_splits)

lemma annotate_acquire:
  assumes a: "annotated al addr k arr" and al: "in_place al addr" and k: "k < 524288"
    and p: "\<not> lock_pair_is_null p" "va_usr va \<noteq> None"
  shows "\<exists>arr'. add_lock_protection_field al arr p va i = Some arr' \<and> annotated al addr (Suc k) arr'"
proof -
  obtain f where f: "init_lp_field p va i = Some f" "next_prot_range f = None"
    using p by (auto simp: init_lp_field_def lock_pair_is_null_def)
  obtain arr' d where arr': "add_lock_protection_field al arr p va i = Some arr'" "lp_inv arr'"
    "lp_fields arr' = map (move_link d) (lp_fields arr) @ [f]"
    using add_field_ok [OF _ annotated_limit(2) [OF a k] in_place_never_fails [OF al] f(1)] a
    by (auto simp: annotated_def)
  moreover have "lp_block arr' = addr"
    using add_field_block [OF _ arr'(1)] al a by (simp add: annotated_def)
  ultimately show ?thesis
    using f(2) by (intro exI conjI annotated_Suc [OF a]) auto
qed

lemma annotate_release:
  assumes a: "annotated al addr k arr" and u: "va_usr va = Some u"
  shows "\<exists>arr'. set_protection_range_end arr (va_usr va) i = Some arr' \<and> annotated al addr (Suc k) arr'"
  using set_protection_range_end_map [of arr u i] a u
  by (auto intro!: annotated_Suc [OF a] simp: annotated_def)

lemma annotate_enter:
  assumes a: "annotated al addr k arr" and al: "in_place al addr" and k: "k < 524288" and t: "t < SIZE_MAX"
  shows "\<exists>arr'. add_protection_range_fields_active al arr t depth = Some arr' \<and> annotated al addr (Suc k) arr'"
proof -
  have i: "lp_inv arr" "in_place al (lp_block arr)" "lp_block arr = addr" using a al by (simp_all add: annotated_def)
  obtain arr' where arr': "add_protection_range_fields_active al arr t depth = Some arr'" "lp_inv arr'" "lp_block arr' = addr"
    using active_loop_ok [of arr al t "[0..<lp_size arr]" depth] i annotated_limit [OF a k] t
    by (auto simp: add_protection_range_fields_active_def)
  with active_growth [OF i(1,2) annotated_limit(1) [OF a k] t arr'(1)] show ?thesis
    by (intro exI conjI annotated_Suc [OF a]) auto
qed

lemma annotate_else:
  assumes a: "annotated al addr k arr" and al: "in_place al addr" and k: "k < 524288"
  shows "\<exists>arr'. add_protection_range_fields_inactive al arr t depth = Some arr' \<and> annotated al addr (Suc k) arr'"
proof -
  have i: "lp_inv arr" "in_place al (lp_block arr)" "lp_block arr = addr" using a al by (simp_all add: annotated_def)
  obtain arr' where arr': "add_protection_range_fields_inactive al arr t depth = Some arr'" "lp_inv arr'" "lp_block arr' = addr"
    using inactive_loop_ok [of arr al "[0..<lp_size arr]" t depth] i annotated_limit [OF a k]
    by (auto simp: add_protection_range_fields_inactive_def)
  with inactive_growth [OF i(1,2) annotated_limit(1) [OF a k] arr'(1)] show ?thesis
    by (intro exI conjI annotated_Suc [OF a]) auto
qed

lemma annotated_mono: "annotated al addr k arr \<Longrightarrow> annotated al addr (Suc k) arr"
  by (auto simp: annotated_def)

lemma annotate_loop_ok:
  assumes ann: "annotatable pairs fp" and al: "in_place al addr"
  shows "annotated al addr k arr \<Longrightarrow> k + length is \<le> 524288 \<Longrightarrow> length fp \<le> 524288 \<Longrightarrow> \<forall>i \<in> set is. i < length fp \<Longrightarrow>
    \<exists>arr'. annotate_loop al pairs fp arr depth is = Some arr' \<and> lp_inv arr' \<and> lp_block arr' = addr"
proof (induction "is" arbitrary: k arr depth)
  case Nil
  then show ?case by (simp add: annotated_def)
next
  case (Cons i "is")
  have i: "i < length fp" and k: "k < 524288" using Cons.prems by auto
  note IH = Cons.IH [OF _ _ Cons.prems(3), of "Suc k"]
  have rest: "Suc k + length is \<le> 524288" "\<forall>j \<in> set is. j < length fp" using Cons.prems by auto
  note a = Cons.prems(1)
  show ?case
  proof (cases "va_type (fp ! i)")
    case VarAccess_LockAcquire
    then obtain p where p: "get_pair_by_lock_func pairs (map_option cstr_chars (va_esc_func_spelling (fp ! i))) = Some p"
      "\<not> lock_pair_is_null p" "va_usr (fp ! i) \<noteq> None" using ann i by (auto simp: annotatable_def)
    obtain arr1 where "add_lock_protection_field al arr p (fp ! i) i = Some arr1" "annotated al addr (Suc k) arr1"
      using annotate_acquire [OF a al k p(2,3)] by blast
    with IH [of arr1 depth] rest VarAccess_LockAcquire p(1) show ?thesis by simp
  next
    case VarAccess_LockRelease
    then obtain u where "va_usr (fp ! i) = Some u" using ann i by (auto simp: annotatable_def)
    from annotate_release [OF a this] obtain arr1 where
      "set_protection_range_end arr (va_usr (fp ! i)) i = Some arr1" "annotated al addr (Suc k) arr1" by blast
    with IH [of arr1 depth] rest VarAccess_LockRelease show ?thesis by simp
  next
    case VarAccess_IfStmt
    then obtain t where t: "find_then_block fp (i + 1) = Some t" using ann i by (auto simp: annotatable_def)
    have "t < SIZE_MAX"
      using find_then_block_Some [OF t] Cons.prems(3) by (simp add: SIZE_MAX_def SIZE_LIMIT_def)
    from annotate_enter [OF a al k this, of "sz_add depth 1"] obtain arr1 where
      "add_protection_range_fields_active al arr t (sz_add depth 1) = Some arr1" "annotated al addr (Suc k) arr1" by blast
    with IH [of arr1 "sz_add depth 1"] rest VarAccess_IfStmt t show ?thesis by simp
  next
    case VarAccess_ElseStmt
    from annotate_else [OF a al k, of i "sz_sub depth 1"] obtain arr1 where
      "add_protection_range_fields_inactive al arr i (sz_sub depth 1) = Some arr1" "annotated al addr (Suc k) arr1" by blast
    with IH [of arr1 depth] rest VarAccess_ElseStmt show ?thesis by simp
  qed (use IH [OF annotated_mono [OF a] rest(1) rest(2)] in simp_all)
qed

lemma annotate_ok:
  assumes "annotatable pairs fp" "in_place al addr" "length fp \<le> 524288"
  shows "\<exists>arr. annotate_lock_protection_ranges al pairs fp (init_protection_field_array addr) = Some arr \<and>
    lp_inv arr \<and> lp_block arr = addr"
proof -
  have "annotated al addr 0 (init_protection_field_array addr)"
    using lp_inv_init by (simp add: annotated_def init_protection_field_array_def)
  from annotate_loop_ok [OF assms(1,2) this _ assms(3)] assms(3) show ?thesis
    by (simp add: annotate_lock_protection_ranges_def)
qed

text \<open>The annotation of a well-formed footprint of up to 524288 accesses always succeeds
  while the array is not moved, and leaves the linked lists of ranges intact: only the ends
  of lists are continued, so the array grows by at most one element per acquisition at
  every branch and never near the limits of its sizes.\<close>

theorem annotation_succeeds:
  assumes "annotatable pairs fp" "in_place al addr" "length fp \<le> 524288"
  shows "\<exists>arr. annotate_lock_protection_ranges al pairs fp (init_protection_field_array addr) = Some arr \<and> lp_inv arr"
  using annotate_ok [OF assms] by blast

definition mutex_pairs :: lock_pair_arr where
  "mutex_pairs = \<lparr>lpair_data = [lpair ''mutex_lock'' ''mutex_unlock''], lpair_size = 1\<rparr>"

definition lock_op :: "var_access_type \<Rightarrow> var_access" where
  "lock_op t = (plain_access ''c:@m'' t)\<lparr>va_esc_func_spelling := Some (CStr 1 ''mutex_lock'')\<rparr>"

lemma lock_op_simps [simp]:
  "va_type (lock_op t) = t" "va_usr (lock_op t) = Some (CStr 0 ''c:@m'')" "usr_chars (lock_op t) = Some ''c:@m''"
  "get_pair_by_lock_func mutex_pairs (map_option cstr_chars (va_esc_func_spelling (lock_op t)))
    = Some (lpair ''mutex_lock'' ''mutex_unlock'')"
  "\<not> lock_pair_is_null (lpair l u)"
  by (simp_all add: lock_op_def plain_access_def usr_chars_def mutex_pairs_def get_pair_by_lock_func_def lpair_def
      lock_pair_is_null_def)

theorem annotation_succeeds_witness:
  "\<exists>arr. annotate_lock_protection_ranges (\<lambda>_. Some 4096) mutex_pairs
      [lock_op VarAccess_LockAcquire, plain_access ''c:@x'' VarAccess_IfStmt, plain_access ''c:@x'' VarAccess_ThenBlock,
       lock_op VarAccess_LockRelease, plain_access ''c:@x'' VarAccess_EndIf] (init_protection_field_array 4096) = Some arr \<and>
     lp_inv arr"
proof (rule annotation_succeeds)
  show "annotatable mutex_pairs [lock_op VarAccess_LockAcquire, plain_access ''c:@x'' VarAccess_IfStmt,
      plain_access ''c:@x'' VarAccess_ThenBlock, lock_op VarAccess_LockRelease, plain_access ''c:@x'' VarAccess_EndIf]"
    by (simp add: annotatable_def All_less_Suc find_then_block_def upt_conv_Cons)
qed (simp_all add: in_place_def)

text \<open>An if statement without a marker of its then block behind it sends the search for
  the marker past the end of the footprint, wherever it stands.\<close>

theorem annotation_overruns_without_then_block:
  assumes "i < length fp" "va_type (fp ! i) = VarAccess_IfStmt" "find_then_block fp (i + 1) = None"
  shows "annotate_lock_protection_ranges al pairs fp arr = None"
proof -
  have "annotate_loop al pairs fp arr depth is = None" if "i \<in> set is" for arr depth "is"
    using that
  proof (induction "is" arbitrary: arr depth)
    case (Cons k "is")
    show ?case
    proof (cases "k = i")
      case True
      with assms(2,3) show ?thesis by simp
    next
      case False
      with Cons have "annotate_loop al pairs fp arr' depth' is = None" for arr' depth' by auto
      then show ?thesis by (cases "va_type (fp ! k)") simp_all
    qed
  qed simp
  then show ?thesis using assms(1) by (simp add: annotate_lock_protection_ranges_def)
qed

theorem annotation_overruns_without_then_block_witness:
  "annotate_lock_protection_ranges (\<lambda>_. Some 4096) mutex_pairs
     [lock_op VarAccess_LockAcquire, plain_access ''c:@x'' VarAccess_IfStmt, plain_access ''c:@x'' VarAccess_Read]
     (init_protection_field_array 4096) = None"
  by (rule annotation_overruns_without_then_block [of 1])
    (simp_all add: find_then_block_def upt_conv_Cons)

section \<open>Straight-line functions\<close>

definition straight :: "var_access list \<Rightarrow> bool" where
  "straight fp \<longleftrightarrow> (\<forall>va \<in> set fp. va_type va \<notin> {VarAccess_IfStmt, VarAccess_ElseStmt, VarAccess_EndIf})"

definition lock_step :: "lock_pair_arr \<Rightarrow> var_access \<Rightarrow> (lock_primitive_pair \<times> var_access) lock_event" where
  "lock_step pairs va =
     (if va_type va = VarAccess_LockAcquire
      then Acquire (the (get_pair_by_lock_func pairs (map_option cstr_chars (va_esc_func_spelling va))), va)
      else if va_type va = VarAccess_LockRelease then Release (lpair '''' '''', va)
      else Access)"

text \<open>The locks held at the \<open>k\<close>-th access: the objects acquired and not released since; at an
  acquisition its own object is not yet held, at a release it no longer is.\<close>

definition held :: "lock_pair_arr \<Rightarrow> var_access list \<Rightarrow> nat \<Rightarrow> 32 word list" where
  "held pairs fp k =
     held_at lock_obj (lockset lock_obj [] (map (lock_step pairs) (take k fp))) (lock_step pairs (fp ! k))"

lemma annotate_straight_events:
  assumes "annotatable pairs fp" "straight fp"
  shows "i \<le> length fp \<Longrightarrow> annotate_loop al pairs fp arr depth [i..<length fp] =
    run_events (\<lambda>arr l i. add_lock_protection_field al arr (fst l) (snd l) i)
      (\<lambda>arr l i. set_protection_range_end arr (va_usr (snd l)) i) arr i (map (lock_step pairs) (drop i fp))"
proof (induction "length fp - i" arbitrary: i arr)
  case (Suc n)
  then have i: "i < length fp" "n = length fp - Suc i" by simp_all
  have IH: "annotate_loop al pairs fp arr depth [Suc i..<length fp] =
    run_events (\<lambda>arr l i. add_lock_protection_field al arr (fst l) (snd l) i)
      (\<lambda>arr l i. set_protection_range_end arr (va_usr (snd l)) i) arr (Suc i) (map (lock_step pairs) (drop (Suc i) fp))"
    for arr using Suc.hyps(1) [OF i(2)] i(1) by simp
  have d: "drop i fp = fp ! i # drop (Suc i) fp" "[i..<length fp] = i # [Suc i..<length fp]"
    using i(1) by (simp_all add: Cons_nth_drop_Suc upt_conv_Cons)
  have s: "va_type (fp ! i) \<notin> {VarAccess_IfStmt, VarAccess_ElseStmt, VarAccess_EndIf}"
    using assms(2) i(1) by (auto simp: straight_def)
  have g: "va_type (fp ! i) = VarAccess_LockAcquire \<Longrightarrow>
      \<exists>p. get_pair_by_lock_func pairs (map_option cstr_chars (va_esc_func_spelling (fp ! i))) = Some p"
    using assms(1) i(1) by (auto simp: annotatable_def)
  show ?case unfolding d
    using s g IH by (cases "va_type (fp ! i)") (auto simp: lock_step_def)
qed simp

lemma lock_step_valid:
  assumes "annotatable pairs fp" "Acquire l \<in> set (map (lock_step pairs) fp) \<or> Release l \<in> set (map (lock_step pairs) fp)"
  shows "lock_valid l"
  using assms by (fastforce simp: lock_step_def lock_valid_def annotatable_def in_set_conv_nth lpair_def
      lock_pair_is_null_def split: if_splits)

lemma annotate_straight_ok:
  assumes "annotatable pairs fp" "straight fp" "never_fails al" "length fp \<le> 524288"
  shows "\<exists>arr. annotate_lock_protection_ranges al pairs fp (init_protection_field_array addr) = Some arr \<and>
    flat_ranges al arr \<and> lp_size arr = length (filter (\<lambda>va. va_type va = VarAccess_LockAcquire) fp) \<and>
    (\<forall>k < length fp. prot_objs arr k = mset (held pairs fp k))"
proof -
  let ?es = "map (lock_step pairs) fp" and ?init = "init_protection_field_array addr"
  have init: "flat_ranges al ?init" "field_ranges ?init = []"
    using assms(3) lp_inv_init by (simp_all add: flat_ranges_def field_ranges_def init_protection_field_array_def)
  have valid: "\<forall>l. Acquire l \<in> set ?es \<or> Release l \<in> set ?es \<longrightarrow> lock_valid l"
    using lock_step_valid [OF assms(1)] by blast
  have lim: "0 + length ?es < SIZE_MAX" "length (field_ranges ?init) + length ?es \<le> ARR_LIMIT"
    using assms(4) by (simp_all add: init(2) SIZE_MAX_def SIZE_LIMIT_def ARR_LIMIT_def)
  have before: "ranges_before (field_ranges ?init) 0" by (simp add: init(2) ranges_before_def)
  from lp.run_lockset [OF init(1) before valid lim] obtain arr where
    run: "run_events (\<lambda>arr l i. add_lock_protection_field al arr (fst l) (snd l) i)
      (\<lambda>arr l i. set_protection_range_end arr (va_usr (snd l)) i) ?init 0 ?es = Some arr" "flat_ranges al arr"
    "\<forall>k < length ?es. ranges_at (field_ranges arr) (0 + k)
      = held_at lock_obj (lockset lock_obj (open_ranges (field_ranges ?init)) (take k ?es)) (?es ! k)"
    by blast
  have "length (field_ranges arr) = length (field_ranges ?init) + length (filter (\<lambda>e. \<exists>l. e = Acquire l) ?es)"
    by (rule lp.run_opens [OF init(1) valid lim(2) run(1)])
  moreover have "length (filter (\<lambda>e. \<exists>l. e = Acquire l) ?es) = length (filter (\<lambda>va. va_type va = VarAccess_LockAcquire) fp)"
    by (induction fp) (simp_all add: lock_step_def)
  moreover have "length (field_ranges arr) = lp_size arr" by (simp add: field_ranges_def)
  ultimately have size: "lp_size arr = length (filter (\<lambda>va. va_type va = VarAccess_LockAcquire) fp)"
    unfolding init(2) list.size add_0 by metis
  have "annotate_lock_protection_ranges al pairs fp ?init = Some arr"
    using annotate_straight_events [OF assms(1,2), of 0 al ?init 0] run(1)
    by (simp add: annotate_lock_protection_ranges_def)
  moreover have "prot_objs arr k = mset (held pairs fp k)"
    if "k < length fp" for k
    using run(3) that
    by (simp add: flat_ranges_prot_objs held_def take_map open_ranges_def init(2))
  ultimately show ?thesis using run(2) size by blast
qed

text \<open>C3: For functions without branches the annotation computes the set of locks held, and
  the comparison of two accesses says protected exactly when both hold equally many lock
  objects and those of the first are among those of the second.\<close>

theorem straight_line_verdict_by_held_locks:
  assumes "annotatable pairs fa" "straight fa" "annotatable pairs fb" "straight fb"
    and "never_fails al_a" "never_fails al_b" "length fa \<le> 524288" "length fb \<le> 524288"
  shows "\<exists>arr_a arr_b.
    annotate_lock_protection_ranges al_a pairs fa (init_protection_field_array addr_a) = Some arr_a \<and>
    annotate_lock_protection_ranges al_b pairs fb (init_protection_field_array addr_b) = Some arr_b \<and>
    (\<forall>i < length fa. \<forall>j < length fb.
       matching_protection_field_arrays arr_a arr_b i j = Some
         (if length (held pairs fa i) = length (held pairs fb j) \<and> set (held pairs fa i) \<subseteq> set (held pairs fb j)
          then Shared_Protected else Shared_Unprotected))"
proof -
  obtain arr_a where a: "annotate_lock_protection_ranges al_a pairs fa (init_protection_field_array addr_a) = Some arr_a"
    "flat_ranges al_a arr_a" "\<forall>k < length fa. prot_objs arr_a k = mset (held pairs fa k)"
    using annotate_straight_ok [OF assms(1,2,5,7)] by blast
  obtain arr_b where b: "annotate_lock_protection_ranges al_b pairs fb (init_protection_field_array addr_b) = Some arr_b"
    "flat_ranges al_b arr_b" "\<forall>k < length fb. prot_objs arr_b k = mset (held pairs fb k)"
    using annotate_straight_ok [OF assms(3,4,6,8)] by blast
  have flat: "lp_inv arr_a" "lp_inv arr_b" "\<forall>f \<in> set (lp_fields arr_b). branch_depth f = 0"
    using a(2) b(2) by (simp_all add: flat_ranges_def)
  show ?thesis using a(1,3) b(1,3) matching_flat [OF flat] by auto
qed

lemma sample_annotatable:
  "annotatable mutex_pairs [lock_op VarAccess_LockAcquire, plain_access u t, lock_op VarAccess_LockRelease]"
  if "t \<notin> {VarAccess_LockAcquire, VarAccess_LockRelease, VarAccess_IfStmt}"
  using that by (simp add: annotatable_def All_less_Suc)

lemma sample_straight:
  "straight [lock_op VarAccess_LockAcquire, plain_access u t, lock_op VarAccess_LockRelease]"
  if "t \<notin> {VarAccess_IfStmt, VarAccess_ElseStmt, VarAccess_EndIf}"
  using that by (simp add: straight_def)

lemma sample_held:
  "held mutex_pairs [lock_op VarAccess_LockAcquire, plain_access u t, lock_op VarAccess_LockRelease] 1
    = [lock_tracking_gen_hash ''c:@m'']" if "t \<notin> {VarAccess_LockAcquire, VarAccess_LockRelease}"
  using that by (simp add: held_def lock_step_def lock_obj_def show_ptr_def)

theorem straight_line_verdict_by_held_locks_witness:
  "\<exists>arr_a arr_b.
     annotate_lock_protection_ranges (\<lambda>_. Some 4096) mutex_pairs
       [lock_op VarAccess_LockAcquire, plain_access ''c:@x'' VarAccess_Write, lock_op VarAccess_LockRelease]
       (init_protection_field_array 64) = Some arr_a \<and>
     annotate_lock_protection_ranges (\<lambda>_. Some 8192) mutex_pairs
       [lock_op VarAccess_LockAcquire, plain_access ''c:@x'' VarAccess_Read, lock_op VarAccess_LockRelease]
       (init_protection_field_array 128) = Some arr_b \<and>
     matching_protection_field_arrays arr_a arr_b 1 1 = Some Shared_Protected"
proof -
  let ?fa = "[lock_op VarAccess_LockAcquire, plain_access ''c:@x'' VarAccess_Write, lock_op VarAccess_LockRelease]"
  let ?fb = "[lock_op VarAccess_LockAcquire, plain_access ''c:@x'' VarAccess_Read, lock_op VarAccess_LockRelease]"
  have "annotatable mutex_pairs ?fa" "annotatable mutex_pairs ?fb" "straight ?fa" "straight ?fb"
    by (simp_all add: sample_annotatable sample_straight)
  from straight_line_verdict_by_held_locks [OF this(1,3,2,4), of "\<lambda>_. Some 4096" "\<lambda>_. Some 8192" 64 128]
  obtain arr_a arr_b where
    arr: "annotate_lock_protection_ranges (\<lambda>_. Some 4096) mutex_pairs ?fa (init_protection_field_array 64) = Some arr_a"
    "annotate_lock_protection_ranges (\<lambda>_. Some 8192) mutex_pairs ?fb (init_protection_field_array 128) = Some arr_b"
    and v: "\<forall>i < length ?fa. \<forall>j < length ?fb. matching_protection_field_arrays arr_a arr_b i j = Some
        (if length (held mutex_pairs ?fa i) = length (held mutex_pairs ?fb j) \<and>
            set (held mutex_pairs ?fa i) \<subseteq> set (held mutex_pairs ?fb j)
         then Shared_Protected else Shared_Unprotected)"
    by (auto simp: never_fails_def)
  from v [rule_format, of 1 1] have "matching_protection_field_arrays arr_a arr_b 1 1 = Some Shared_Protected"
    by (simp add: sample_held [unfolded One_nat_def])
  with arr show ?thesis by blast
qed

section \<open>The search for unprotected accesses\<close>

lemma unprotected_scan:
  assumes "annotate_lock_protection_ranges al_a pairs as (init_protection_field_array addr_a) = Some arr_a" "lp_inv arr_a"
    and "annotate_lock_protection_ranges al_b pairs bs (init_protection_field_array addr_b) = Some arr_b" "lp_inv arr_b"
    and "all_named fa" "all_named fb"
    and "fi_access_footprint fa = Some as" "fi_access_footprint fb = Some bs" "usrs_known as" "usrs_known bs"
  shows "\<exists>s. find_unprotected_va al_a addr_a al_b addr_b pairs src fa fb = Some s \<and>
    (\<forall>i < length as. \<forall>j < length bs. \<not> (shared (scan_a s ! i) (scan_b s ! j) \<and> verdict_reported arr_a arr_b i j)) \<and>
    ((\<forall>i < length as. \<forall>j < length bs. \<not> (shared (as ! i) (bs ! j) \<and> verdict_reported arr_a arr_b i j)) \<longrightarrow>
       s = \<lparr>scan_out = '''', scan_a = as, scan_b = bs\<rparr>)"
proof -
  have "scan_ready fa fb \<lparr>scan_out = '''', scan_a = as, scan_b = bs\<rparr> \<and> lp_inv arr_a \<and> lp_inv arr_b"
    using assms by (simp add: scan_ready_def)
  from unprotected.scan_all [OF this, of src] assms(1,3,7,8) show ?thesis
    by (auto simp: find_unprotected_va_def)
qed



text \<open>C30: A race outside all critical sections is missed: when both functions are free of
  branches, both take some lock somewhere, and every pair of accesses to a common variable
  is made while neither function holds a lock, the search prints nothing.\<close>

theorem lockless_race_is_missed:
  assumes "annotatable pairs as" "straight as" "never_fails al_a" "length as \<le> 524288"
    and "annotatable pairs bs" "straight bs" "never_fails al_b" "length bs \<le> 524288"
    and "all_named fa" "all_named fb"
    and "fi_access_footprint fa = Some as" "fi_access_footprint fb = Some bs" "usrs_known as" "usrs_known bs"
    and locks: "\<exists>va \<in> set as. va_type va = VarAccess_LockAcquire" "\<exists>vb \<in> set bs. va_type vb = VarAccess_LockAcquire"
    and free: "\<And>i j. i < length as \<Longrightarrow> j < length bs \<Longrightarrow> shared (as ! i) (bs ! j) \<Longrightarrow>
      held pairs as i = [] \<and> held pairs bs j = []"
  shows "find_unprotected_va al_a addr_a al_b addr_b pairs src fa fb =
    Some \<lparr>scan_out = '''', scan_a = as, scan_b = bs\<rparr>"
proof -
  obtain arr_a where a: "annotate_lock_protection_ranges al_a pairs as (init_protection_field_array addr_a) = Some arr_a"
    "flat_ranges al_a arr_a" "lp_size arr_a = length (filter (\<lambda>va. va_type va = VarAccess_LockAcquire) as)"
    "\<forall>k < length as. prot_objs arr_a k = mset (held pairs as k)"
    using annotate_straight_ok [OF assms(1-4)] by blast
  obtain arr_b where b: "annotate_lock_protection_ranges al_b pairs bs (init_protection_field_array addr_b) = Some arr_b"
    "flat_ranges al_b arr_b" "lp_size arr_b = length (filter (\<lambda>va. va_type va = VarAccess_LockAcquire) bs)"
    "\<forall>k < length bs. prot_objs arr_b k = mset (held pairs bs k)"
    using annotate_straight_ok [OF assms(5-8)] by blast
  have inv: "lp_inv arr_a" "lp_inv arr_b" "\<forall>f \<in> set (lp_fields arr_b). branch_depth f = 0"
    using a(2) b(2) by (simp_all add: flat_ranges_def)
  have sizes: "lp_size arr_a \<noteq> 0" "lp_size arr_b \<noteq> 0"
    unfolding a(3) b(3) using locks by (auto simp: filter_empty_conv)
  have "\<not> (shared (as ! i) (bs ! j) \<and> verdict_reported arr_a arr_b i j)" if ij: "i < length as" "j < length bs" for i j
  proof
    assume sh: "shared (as ! i) (bs ! j) \<and> verdict_reported arr_a arr_b i j"
    then have "prot_objs arr_a i = {#}" "prot_objs arr_b j = {#}"
      using free [OF ij] a(4) b(4) ij by auto
    then have "matching_protection_field_arrays arr_a arr_b i j = Some Shared_Protected"
      by (simp add: matching_flat [OF inv])
    with sh sizes show False by (simp add: verdict_reported_def bad_protection_def)
  qed
  with unprotected_scan [OF a(1) inv(1) b(1) inv(2) assms(9-14), of src] show ?thesis by blast
qed

theorem lockless_race_is_missed_witness:
  "find_unprotected_va (\<lambda>_. Some 4096) 64 (\<lambda>_. Some 8192) 128 mutex_pairs
      \<lparr>file_name = (\<lambda>_. ''a.c''), source_line = (\<lambda>_ _ _. '''')\<rparr>
      (sample_func [plain_access ''c:@x'' VarAccess_Write, lock_op VarAccess_LockAcquire, lock_op VarAccess_LockRelease])
      (sample_func [plain_access ''c:@x'' VarAccess_Write, lock_op VarAccess_LockAcquire, lock_op VarAccess_LockRelease])
    = Some \<lparr>scan_out = '''',
        scan_a = [plain_access ''c:@x'' VarAccess_Write, lock_op VarAccess_LockAcquire, lock_op VarAccess_LockRelease],
        scan_b = [plain_access ''c:@x'' VarAccess_Write, lock_op VarAccess_LockAcquire, lock_op VarAccess_LockRelease]\<rparr>"
proof (rule lockless_race_is_missed)
  let ?vas = "[plain_access ''c:@x'' VarAccess_Write, lock_op VarAccess_LockAcquire, lock_op VarAccess_LockRelease]"
  show "annotatable mutex_pairs ?vas" "annotatable mutex_pairs ?vas"
    by (simp_all add: annotatable_def All_less_Suc)
  fix i j
  assume ij: "i < length ?vas" "j < length ?vas" "shared (?vas ! i) (?vas ! j)"
  have "held mutex_pairs ?vas k = []" if "k < length ?vas" for k
    using that by (auto simp: less_Suc_eq held_def lock_step_def lock_obj_def)
  with ij show "held mutex_pairs ?vas i = [] \<and> held mutex_pairs ?vas j = []" by blast
qed (simp_all add: straight_def never_fails_def usrs_known_def)

section \<open>Named variables\<close>

text \<open>C31: A variable named on the command line is selected exactly as written: \<open>func@arg\<close>
  selects the accesses to the variable \<open>arg\<close> made in the function \<open>func\<close>, and a name
  without \<open>@\<close> the accesses to the global variable of that name.\<close>

theorem named_variable_selection:
  assumes "va_parent_func_name va = Some pf" "va_name va = Some vn" "va_usr va = Some u" "CHR 0x40 \<notin> set name"
  shows "is_exclusive globals (name @ CHR 0x40 # arg) va = Some (cstr_chars pf = name \<and> cstr_chars vn = arg) \<and>
    is_exclusive globals name va = Some (cstr_chars vn = name \<and> cstr_chars u \<in> set globals)"
proof -
  have "mark_postfix_func_name (name @ CHR 0x40 # arg) = Some (name, arg)"
    using assms(4) by (simp add: mark_postfix_func_name_def)
  moreover have "mark_postfix_func_name name = None"
    using strchr_None [of name "CHR 0x40"] assms(4) by (simp add: mark_postfix_func_name_def)
  ultimately show ?thesis
    using assms(1-3) by (auto simp: is_exclusive_def strcmp_ptr_def strs_contains_def)
qed

theorem named_variable_selection_witness:
  "is_exclusive [''c:@x''] ''f@p'' ((plain_access ''c:@x'' VarAccess_Read)
     \<lparr>va_name := Some (CStr 0 ''p''), va_parent_func_name := Some (CStr 1 ''f'')\<rparr>) = Some True"
  using named_variable_selection [of "(plain_access ''c:@x'' VarAccess_Read)
     \<lparr>va_name := Some (CStr 0 ''p''), va_parent_func_name := Some (CStr 1 ''f'')\<rparr>" "CStr 1 ''f''" "CStr 0 ''p''"
     "CStr 0 ''c:@x''" "''f''" "[''c:@x'']" "''p''"] by simp

end
