(* ===== verification/Cmdline.thy ===== *)
theory Cmdline
  imports Types
begin

text \<open>
  The command line (\<open>src/core.c\<close>, lines 1212 to 1516): function calls, lists of strings and
  options.  Strings are pushed to \<open>DynamicAOS\<close> arrays, here lists of strings; allocation
  succeeds.  The library's \<open>glob\<close> is a parameter.
\<close>

section \<open>Function calls\<close>

definition rtrim :: "string \<Rightarrow> string" where
  "rtrim s = rev (dropWhile isspace (rev s))"

text \<open>The end of an argument: a comma outside parentheses, or the end of the text.\<close>

fun span_arg :: "int \<Rightarrow> string \<Rightarrow> string \<times> string" where
  "span_arg depth [] = ([], [])"
| "span_arg depth (c # cs) =
     (if c = CHR ''('' then (let (a, r) = span_arg (depth + 1) cs in (c # a, r))
      else if c = CHR '')'' then (let (a, r) = span_arg (depth - 1) cs in (c # a, r))
      else if c = CHR '','' \<and> depth = 0 then ([], c # cs)
      else (let (a, r) = span_arg depth cs in (c # a, r)))"

lemma span_arg_append: "span_arg depth s = (a, r) \<Longrightarrow> s = a @ r"
  by (induction depth s arbitrary: a r rule: span_arg.induct) (auto simp: Let_def split: if_splits prod.splits)

definition skip_comma :: "string \<Rightarrow> string" where
  "skip_comma r = (case r of [] \<Rightarrow> [] | c # cs \<Rightarrow> if c = CHR '','' then cs else r)"

lemma span_arg_progress:
  assumes "s \<noteq> []" "span_arg 0 s = (a, r)"
  shows "length (skip_comma r) < length s"
proof -
  have s: "s = a @ r" using span_arg_append [OF assms(2)] .
  show ?thesis
  proof (cases a)
    case Nil
    with assms s obtain c cs where c: "s = c # cs" "r = c # cs" by (cases s) auto
    with assms(2) Nil have "c = CHR '',''" by (auto simp: Let_def split: if_splits prod.splits)
    with c show ?thesis by (simp add: skip_comma_def)
  next
    case (Cons c cs)
    have "length (skip_comma r) \<le> length r" by (simp add: skip_comma_def split: list.split)
    with s Cons show ?thesis by simp
  qed
qed

text \<open>The loop over the text between the parentheses; blank arguments are dropped.\<close>

function parse_args :: "string \<Rightarrow> string list" where
  "parse_args text =
     (let s = dropWhile isspace text
      in if s = [] then []
         else let (a, r) = span_arg 0 s
              in (if rtrim a \<noteq> [] then [rtrim a] else []) @ parse_args (skip_comma r))"
  by pat_completeness auto
termination
proof (relation "measure length", goal_cases)
  case (2 str s p a r)
  then have "length (skip_comma r) < length (dropWhile isspace str)"
    using span_arg_progress [of "dropWhile isspace str" a r] by simp
  also have "\<dots> \<le> length str" by (rule length_dropWhile_le)
  finally show ?case by simp
qed simp

declare parse_args.simps [simp del]

text \<open>What is pushed to \<open>out\<close>, with the error code.\<close>

definition parse_func_call :: "string option \<Rightarrow> string list option \<Rightarrow> prong_error \<times> string list option" where
  "parse_func_call input out =
     (case (input, out) of
        (Some text, Some xs) \<Rightarrow>
          (case strchr text (CHR ''('') of
             None \<Rightarrow> (ERR_SYNTAX, out)
           | Some p \<Rightarrow>
               let func_name = rtrim (take p text)
               in if func_name = [] then (ERR_SYNTAX, out)
                  else (case strrchr (drop p text) (CHR '')'') of
                          None \<Rightarrow> (ERR_SYNTAX, Some (xs @ [func_name]))
                        | Some q \<Rightarrow> (ERR_OK, Some (xs @ func_name # parse_args (take (q - 1) (drop (Suc p) text))))))
      | _ \<Rightarrow> (ERR_INVALID_ARG, out))"

definition is_usr_param_postfix :: "string \<Rightarrow> string \<Rightarrow> bool" where
  "is_usr_param_postfix usr param_name =
     (let usr_len = length usr; param_len = length param_name
      in if usr_len < param_len then False
         else if drop (usr_len - param_len) usr \<noteq> param_name then False
         else if param_len < usr_len \<and> usr ! (usr_len - param_len - 1) \<noteq> CHR 0x40 then False
         else True)"

section \<open>Lists of strings\<close>

text \<open>The pieces between separators; both loops cut the copy in place and walk over it.\<close>

fun pieces :: "char \<Rightarrow> string \<Rightarrow> string list" where
  "pieces sep [] = [[]]"
| "pieces sep (c # cs) =
     (if c = sep then [] # pieces sep cs
      else case pieces sep cs of [] \<Rightarrow> [[c]] | p # ps \<Rightarrow> (c # p) # ps)"

definition is_blank :: "char \<Rightarrow> bool" where
  "is_blank c \<longleftrightarrow> c = CHR '' '' \<or> c = CHR 0x09"

definition list_entries :: "char \<Rightarrow> string \<Rightarrow> string list" where
  "list_entries sep str_in = filter (\<lambda>s. s \<noteq> []) (map (dropWhile is_blank) (pieces sep str_in))"

definition split_semicolon_list :: "string \<Rightarrow> string list \<Rightarrow> string list" where
  "split_semicolon_list str_in xs = xs @ list_entries (CHR '';'') str_in"

text \<open>\<open>glob\<close> of the library: the paths that match, or an error, which is at most printed.\<close>

datatype glob_result = Glob_Paths "string list" | Glob_NoSpace | Glob_Aborted | Glob_NoMatch

definition glob_paths :: "glob_result \<Rightarrow> string list" where
  "glob_paths r = (case r of Glob_Paths ps \<Rightarrow> ps | _ \<Rightarrow> [])"

definition split_comma_list :: "(string \<Rightarrow> glob_result) \<Rightarrow> string \<Rightarrow> string list \<Rightarrow> string list" where
  "split_comma_list glob str_in xs = xs @ concat (map (glob_paths \<circ> glob) (list_entries (CHR '','') str_in))"

section \<open>Options\<close>

record cmdline =
  cl_file_names :: "string list"
  cl_func_names :: "string list"
  cl_trace_var_names :: "string list"
  cl_lock_pairs :: "string list"
  cl_extra_args :: "string list"
  cl_compdb_dir :: "string option"
  cl_max_threads :: nat
  arg_track_locking :: bool
  arg_silence_warnings :: bool
  arg_verbose :: bool
  arg_help :: bool

definition DEFAULT_MAX_THREADS :: nat where
  "DEFAULT_MAX_THREADS = 2"

definition prong_init_cmdline :: cmdline where
  "prong_init_cmdline =
     \<lparr>cl_file_names = [], cl_func_names = [], cl_trace_var_names = [], cl_lock_pairs = [],
      cl_extra_args = [], cl_compdb_dir = None, cl_max_threads = DEFAULT_MAX_THREADS,
      arg_track_locking = False, arg_silence_warnings = False, arg_verbose = False, arg_help = False\<rparr>"

text \<open>\<open>atoi\<close>: blanks, a sign, digits up to the first other character; out of the range of
  \<open>int\<close> it is undefined.\<close>

definition is_digit :: "char \<Rightarrow> bool" where
  "is_digit c \<longleftrightarrow> 48 \<le> (of_char c :: nat) \<and> (of_char c :: nat) \<le> 57"

definition atoi :: "string \<Rightarrow> int option" where
  "atoi s =
     (let t = dropWhile isspace s;
          neg = (t \<noteq> [] \<and> hd t = CHR ''-'');
          u = (if t \<noteq> [] \<and> (hd t = CHR ''-'' \<or> hd t = CHR ''+'') then tl t else t);
          n = int (read_digits 0 (takeWhile is_digit u));
          v = (if neg then - n else n)
      in if - 2147483648 \<le> v \<and> v \<le> 2147483647 then Some v else None)"

definition to_size_t :: "int \<Rightarrow> nat" where
  "to_size_t v = nat (v mod int SIZE_LIMIT)"

definition process_arg :: "(string \<Rightarrow> glob_result) \<Rightarrow> string \<Rightarrow> cmdline \<Rightarrow> cmdline option" where
  "process_arg glob cmd_arg st =
     (if starts_with cmd_arg ''--files=''
      then Some (st\<lparr>cl_file_names := split_comma_list glob (drop 8 cmd_arg) (cl_file_names st)\<rparr>)
      else if starts_with cmd_arg ''--functions=''
      then Some (st\<lparr>cl_func_names := split_semicolon_list (drop 12 cmd_arg) (cl_func_names st)\<rparr>)
      else if starts_with cmd_arg ''--trace=''
      then Some (st\<lparr>cl_trace_var_names := split_semicolon_list (drop 8 cmd_arg) (cl_trace_var_names st)\<rparr>)
      else if starts_with cmd_arg ''--compdb-dir=''
      then Some (st\<lparr>cl_compdb_dir := Some (drop 13 cmd_arg)\<rparr>)
      else if starts_with cmd_arg ''--lock-pairs=''
      then Some (st\<lparr>cl_lock_pairs := split_semicolon_list (drop 13 cmd_arg) (cl_lock_pairs st), arg_track_locking := True\<rparr>)
      else if starts_with cmd_arg ''-j''
      then map_option (\<lambda>v. st\<lparr>cl_max_threads := to_size_t v\<rparr>) (atoi (drop 2 cmd_arg))
      else if cmd_arg = ''--track-locking'' then Some (st\<lparr>arg_track_locking := True\<rparr>)
      else if cmd_arg = ''--silence-warnings'' then Some (st\<lparr>arg_silence_warnings := True\<rparr>)
      else if cmd_arg = ''--verbose'' then Some (st\<lparr>arg_verbose := True\<rparr>)
      else if cmd_arg = ''--help'' then Some (st\<lparr>arg_help := True\<rparr>)
      else Some (st\<lparr>cl_extra_args := cl_extra_args st @ [cmd_arg]\<rparr>))"

fun process_arg_loop :: "(string \<Rightarrow> glob_result) \<Rightarrow> string list \<Rightarrow> cmdline \<Rightarrow> cmdline option" where
  "process_arg_loop glob [] st = Some st"
| "process_arg_loop glob (a # as) st = Option.bind (process_arg glob a st) (process_arg_loop glob as)"

text \<open>\<open>argv\<close> without the name of the program.\<close>

definition process_args :: "(string \<Rightarrow> glob_result) \<Rightarrow> string list \<Rightarrow> cmdline \<Rightarrow> (prong_error \<times> cmdline) option" where
  "process_args glob argv st =
     map_option (\<lambda>st'. (if cl_func_names st' = [] \<or> cl_file_names st' = [] then ERR_INVALID_ARG else ERR_OK, st'))
       (process_arg_loop glob argv st)"

section \<open>Properties\<close>

definition sep_by :: "string \<Rightarrow> string list \<Rightarrow> string" where
  "sep_by sep xs = (case xs of [] \<Rightarrow> [] | x # ys \<Rightarrow> x @ concat (map (\<lambda>y. sep @ y) ys))"

lemma sep_by_Cons: "sep_by sep (x # xs) = (if xs = [] then x else x @ sep @ sep_by sep xs)"
  by (cases xs) (simp_all add: sep_by_def)

text \<open>An argument: no blanks at its ends, parentheses balanced, commas inside them only.\<close>

fun commas_inside :: "int \<Rightarrow> string \<Rightarrow> bool" where
  "commas_inside d [] \<longleftrightarrow> d = 0"
| "commas_inside d (c # cs) \<longleftrightarrow>
     (if c = CHR ''('' then commas_inside (d + 1) cs
      else if c = CHR '')'' then commas_inside (d - 1) cs
      else (c = CHR '','' \<longrightarrow> d \<noteq> 0) \<and> commas_inside d cs)"

definition call_arg :: "string \<Rightarrow> bool" where
  "call_arg a \<longleftrightarrow> a \<noteq> [] \<and> \<not> isspace (hd a) \<and> \<not> isspace (last a) \<and> commas_inside 0 a"

lemma span_arg_commas_inside:
  "commas_inside d a \<Longrightarrow> r = [] \<or> hd r = CHR '','' \<Longrightarrow> span_arg d (a @ r) = (a, r)"
proof (induction d a rule: commas_inside.induct)
  case (1 d)
  then show ?case by (cases r) auto
qed (auto split: if_splits)

lemma rtrim_id: "a \<noteq> [] \<Longrightarrow> \<not> isspace (last a) \<Longrightarrow> rtrim a = a"
  by (cases a rule: rev_cases) (simp_all add: rtrim_def)

lemma rtrim_blanks: "\<forall>c \<in> set b. isspace c \<Longrightarrow> rtrim (a @ b) = rtrim a"
  by (simp add: rtrim_def dropWhile_append)

lemma not_space [simp]: "\<not> isspace (CHR '','')" "isspace (CHR '' '')"
  by (simp_all add: isspace_def)

lemma parse_args_join:
  "\<forall>a \<in> set as. call_arg a \<Longrightarrow> parse_args (sep_by '', '' as) = as"
proof (induction "as")
  case Nil
  show ?case by (simp add: sep_by_def parse_args.simps)
next
  case (Cons a as)
  have a: "a \<noteq> []" "\<not> isspace (hd a)" "rtrim a = a" "commas_inside 0 a"
    using Cons.prems by (simp_all add: call_arg_def rtrim_id)
  have step: "parse_args (a @ r) = a # parse_args (skip_comma r)" if "r = [] \<or> hd r = CHR '',''" for r
  proof -
    have "dropWhile isspace (a @ r) = a @ r" using a(1,2) by (cases a) auto
    with span_arg_commas_inside [OF a(4) that] a(1,3) show ?thesis
      by (simp add: parse_args.simps [of "a @ r"])
  qed
  have skip: "parse_args (CHR '' '' # s) = parse_args s" for s
    by (simp add: parse_args.simps [of "CHR '' '' # s"] parse_args.simps [of s])
  show ?case
  proof (cases "as = []")
    case True
    with step [of "[]"] show ?thesis
      by (simp add: sep_by_Cons skip_comma_def parse_args.simps [of "[]"])
  next
    case False
    with step [of "'', '' @ sep_by '', '' as"] Cons skip show ?thesis
      by (simp add: sep_by_Cons skip_comma_def)
  qed
qed

text \<open>C26: A function call written as \<open>name(arg, arg, ...)\<close> is parsed back to its name and
  its arguments, in order, blanks around the name's parenthesis aside; arguments may
  contain parentheses and, inside them, commas.\<close>

theorem func_call_roundtrip:
  assumes "name \<noteq> []" "\<not> isspace (last name)" "CHR ''('' \<notin> set name" "\<forall>c \<in> set blanks. isspace c"
    and "\<forall>a \<in> set as. call_arg a"
  shows "parse_func_call (Some (name @ blanks @ ''('' @ sep_by '', '' as @ '')'')) (Some xs) = (ERR_OK, Some (xs @ name # as))"
proof -
  let ?args = "sep_by '', '' as"
  have "\<not> isspace (CHR ''('')" by (simp add: isspace_def)
  then have "CHR ''('' \<notin> set (name @ blanks)" using assms(3,4) by auto
  from strchr_append [OF this, of "?args @ '')''"]
  have p: "strchr (name @ blanks @ ''('' @ ?args @ '')'') (CHR ''('') = Some (length name + length blanks)" by simp
  have q: "strrchr (''('' @ ?args @ '')'') (CHR '')'') = Some (Suc (length ?args))"
    using strrchr_append [of "CHR '')''" "[]" "''('' @ ?args"] by simp
  let ?text = "name @ blanks @ ''('' @ ?args @ '')''" and ?p = "length name + length blanks"
  have t: "take ?p ?text = name @ blanks" "drop ?p ?text = ''('' @ ?args @ '')''"
    "take (length ?args) (drop (Suc ?p) ?text) = ?args"
    by (simp_all add: drop_append)
  have "rtrim (name @ blanks) = name" using assms(1,2,4) by (simp add: rtrim_blanks rtrim_id)
  with assms(1) show ?thesis
    unfolding parse_func_call_def p prod.case option.case t q Let_def diff_Suc_1
    by (simp add: parse_args_join [OF assms(5)])
qed

theorem func_call_roundtrip_witness:
  "parse_func_call (Some ''run (dev, cb(a, b))'') (Some []) = (ERR_OK, Some [''run'', ''dev'', ''cb(a, b)''])"
  using func_call_roundtrip [of "''run''" "'' ''" "[''dev'', ''cb(a, b)'']" "[]"]
  by (simp add: call_arg_def isspace_def sep_by_def)

lemma pieces_append:
  "sep \<notin> set x \<Longrightarrow> pieces sep (x @ sep # s) = x # pieces sep s"
  by (induction x) (auto split: list.split)

lemma pieces_last: "sep \<notin> set x \<Longrightarrow> pieces sep x = [x]"
  by (induction x) auto

lemma list_entries_join:
  assumes "\<forall>x \<in> set xs. x \<noteq> [] \<and> sep \<notin> set x \<and> \<not> is_blank (hd x)"
  shows "list_entries sep (sep_by [sep] xs) = xs"
proof -
  have id: "dropWhile is_blank x = x" if "x \<in> set xs" for x
    using assms that by (cases x) auto
  have "pieces sep (sep_by [sep] xs) = xs" if "xs \<noteq> []"
    using assms that
  proof (induction xs)
    case (Cons x xs)
    then show ?case by (auto simp: sep_by_Cons pieces_append pieces_last)
  qed simp
  moreover have "map (dropWhile is_blank) xs = xs" using id by (simp add: map_idI)
  ultimately show ?thesis using assms
    by (cases "xs = []") (auto simp: list_entries_def sep_by_def filter_id_conv)
qed

text \<open>A semicolon-separated list of non-empty strings without leading blanks is split
  back into exactly its strings, behind those already there.\<close>

theorem semicolon_list_roundtrip:
  assumes "\<forall>x \<in> set xs. x \<noteq> [] \<and> CHR '';'' \<notin> set x \<and> \<not> is_blank (hd x)"
  shows "split_semicolon_list (sep_by '';'' xs) ys = ys @ xs"
  using list_entries_join [OF assms] by (simp add: split_semicolon_list_def)

theorem semicolon_list_roundtrip_witness:
  "split_semicolon_list ''f(a);g(b)'' [''h()''] = [''h()'', ''f(a)'', ''g(b)'']"
  using semicolon_list_roundtrip [of "[''f(a)'', ''g(b)'']" "[''h()'']"]
  by (simp add: sep_by_def is_blank_def)

text \<open>A USR names a parameter exactly when it ends with the parameter's name, alone or
  behind a separator.\<close>

theorem usr_param_postfix_iff:
  "is_usr_param_postfix usr param \<longleftrightarrow> (\<exists>pre. usr = pre @ param \<and> (pre = [] \<or> last pre = CHR 0x40))"
proof
  assume "is_usr_param_postfix usr param"
  then have le: "length param \<le> length usr" and d: "drop (length usr - length param) usr = param"
    and c: "length param < length usr \<Longrightarrow> usr ! (length usr - length param - 1) = CHR 0x40"
    by (auto simp: is_usr_param_postfix_def Let_def split: if_splits)
  let ?pre = "take (length usr - length param) usr"
  have "usr = ?pre @ param" using d by (metis append_take_drop_id)
  moreover have "?pre = [] \<or> last ?pre = CHR 0x40"
  proof (cases "length param < length usr")
    case True
    then have "last ?pre = ?pre ! (length ?pre - 1)" by (intro last_conv_nth) auto
    with True c show ?thesis by simp
  qed simp
  ultimately show "\<exists>pre. usr = pre @ param \<and> (pre = [] \<or> last pre = CHR 0x40)" by blast
next
  assume "\<exists>pre. usr = pre @ param \<and> (pre = [] \<or> last pre = CHR 0x40)"
  then show "is_usr_param_postfix usr param"
    by (auto simp: is_usr_param_postfix_def Let_def nth_append last_conv_nth)
qed

text \<open>\<open>-j\<close> without a number, or with one that is not a number, asks for no thread at all:
  the number of threads is the value of the last \<open>-j\<close> option as the C library reads it, zero
  included, and no test rejects it.\<close>

theorem job_count_may_be_zero:
  assumes "process_args glob (pre @ [''-j'' @ s]) st = Some (e, st')" "s = [] \<or> \<not> isspace (hd s) \<and> hd s \<notin> {CHR ''-'', CHR ''+''} \<and> \<not> is_digit (hd s)"
  shows "cl_max_threads st' = 0"
proof -
  have loop: "process_arg_loop glob (xs @ ys) st = Option.bind (process_arg_loop glob xs st) (process_arg_loop glob ys)" for xs ys st
  proof (induction xs arbitrary: st)
    case (Cons a xs)
    then show ?case by (cases "process_arg glob a st") simp_all
  qed simp
  have "dropWhile isspace s = s" using assms(2) by (cases s) auto
  then have "atoi s = Some 0" using assms(2) by (cases s) (auto simp: atoi_def Let_def)
  moreover have "\<not> starts_with (''-j'' @ s) p" if "p \<in> {''--files='', ''--functions='', ''--trace='', ''--compdb-dir='', ''--lock-pairs=''}" for p
    using that by (auto simp: starts_with_def)
  ultimately have "process_arg glob (''-j'' @ s) st1 = Some (st1\<lparr>cl_max_threads := 0\<rparr>)" for st1
    by (simp add: process_arg_def to_size_t_def starts_with_def)
  then show ?thesis using assms(1) by (auto simp: process_args_def loop bind_eq_Some_conv)
qed

theorem job_count_may_be_zero_witness:
  "\<exists>st. process_args (\<lambda>p. Glob_Paths [p]) [''--files=a.c'', ''--functions=f(x)'', ''-j''] prong_init_cmdline = Some (ERR_OK, st) \<and>
    cl_max_threads st = 0"
proof -
  let ?p = "process_args (\<lambda>p. Glob_Paths [p]) ([''--files=a.c'', ''--functions=f(x)''] @ [''-j'' @ '''']) prong_init_cmdline"
  obtain st where "?p = Some (ERR_OK, st)"
    by (auto simp: process_args_def process_arg_def starts_with_def split_comma_list_def split_semicolon_list_def
        list_entries_def is_blank_def prong_init_cmdline_def atoi_def Let_def glob_paths_def)
  with job_count_may_be_zero [OF this] show ?thesis by auto
qed

end
