(* ===== verification/Thread_Pool.thy ===== *)
theory Thread_Pool
  imports Prelude
begin

text \<open>
  The parsing threads (\<open>src/prong_thread_pool.c\<close>) as a step relation: each thread claims
  the next file under the mutex, parses it, and goes on until no file is left or a parse
  fails.  The section between lock and unlock is one step, and so is a parse, which only
  touches the thread's own entry of the array of translation units.

  \<open>parse i\<close> stands for the compiler library on the \<open>i\<close>-th file: a translation unit or an
  error code.
\<close>

section \<open>Arguments for the compiler\<close>

text \<open>\<open>aos_append_strings\<close> on the abstract values: nothing is appended to an empty array.\<close>

definition append_strs :: "string list \<Rightarrow> string list \<Rightarrow> string list" where
  "append_strs xs ys = (if xs = [] \<or> ys = [] then xs else xs @ ys)"

definition db_args :: "string \<Rightarrow> string list list \<Rightarrow> string list" where
  "db_args file commands =
     concat (map (\<lambda>args. filter (\<lambda>a. a \<noteq> file \<and> a \<noteq> ''clang'' \<and> a \<noteq> ''-c'' \<and> a \<noteq> ''--'') (drop 1 args)) commands)"

text \<open>\<open>commands\<close>: the compile commands of the file, \<open>None\<close> without a compilation database.\<close>

definition clang_args :: "string \<Rightarrow> string list list option \<Rightarrow> string list \<Rightarrow> string list" where
  "clang_args file commands extra_args =
     append_strs (case commands of None \<Rightarrow> [] | Some cs \<Rightarrow> db_args file cs) extra_args"

section \<open>The pool\<close>

datatype thread_state = At_Loop | Claimed nat | Exit_Idle | Exit_Failed nat

record 'tu thread_pool =
  next_file_idx :: nat
  num_active :: nat
  threads :: "thread_state list"
  tu_array :: "'tu option list"

text \<open>\<open>init_thread_pool\<close> and the fresh array of translation units, no entry of which is set.\<close>

definition init_thread_pool :: "nat \<Rightarrow> nat \<Rightarrow> 'tu thread_pool" where
  "init_thread_pool num_threads num_files =
     \<lparr>next_file_idx = 0, num_active = 0, threads = replicate num_threads At_Loop,
      tu_array = replicate num_files None\<rparr>"

definition destroy_thread_pool :: "'tu thread_pool \<Rightarrow> 'tu thread_pool" where
  "destroy_thread_pool s = s\<lparr>next_file_idx := 0, num_active := 0, threads := []\<rparr>"

definition claim_file :: "nat \<Rightarrow> nat \<Rightarrow> 'tu thread_pool \<Rightarrow> 'tu thread_pool" where
  "claim_file num_files t s =
     (let tu_idx = next_file_idx s; s1 = s\<lparr>next_file_idx := sz_add tu_idx 1\<rparr>
      in if num_files \<le> tu_idx
         then s1\<lparr>num_active := sz_sub (num_active s) 1, threads := (threads s)[t := Exit_Idle]\<rparr>
         else s1\<lparr>threads := (threads s)[t := Claimed tu_idx]\<rparr>)"

definition parse_file :: "(nat \<Rightarrow> 'tu + 'e) \<Rightarrow> nat \<Rightarrow> nat \<Rightarrow> 'tu thread_pool \<Rightarrow> 'tu thread_pool" where
  "parse_file parse t tu_idx s =
     (case parse tu_idx of
        Inl tu \<Rightarrow> s\<lparr>tu_array := (tu_array s)[tu_idx := Some tu], threads := (threads s)[t := At_Loop]\<rparr>
      | Inr parse_err \<Rightarrow> s\<lparr>threads := (threads s)[t := Exit_Failed tu_idx]\<rparr>)"

inductive pool_step :: "nat \<Rightarrow> (nat \<Rightarrow> 'tu + 'e) \<Rightarrow> 'tu thread_pool \<Rightarrow> 'tu thread_pool \<Rightarrow> bool"
  for num_files parse where
  claim: "t < length (threads s) \<Longrightarrow> threads s ! t = At_Loop \<Longrightarrow>
    pool_step num_files parse s (claim_file num_files t s)"
| finish: "t < length (threads s) \<Longrightarrow> threads s ! t = Claimed i \<Longrightarrow>
    pool_step num_files parse s (parse_file parse t i s)"

inductive_cases pool_stepE: "pool_step num_files parse s s'"

definition all_exited :: "'tu thread_pool \<Rightarrow> bool" where
  "all_exited s \<longleftrightarrow> (\<forall>p \<in> set (threads s). case p of Exit_Idle \<Rightarrow> True | Exit_Failed i \<Rightarrow> True | _ \<Rightarrow> False)"

section \<open>The invariant\<close>

definition idle :: "'tu thread_pool \<Rightarrow> nat" where
  "idle s = length (filter (\<lambda>p. p = Exit_Idle) (threads s))"

fun file_of :: "thread_state \<Rightarrow> nat option" where
  "file_of (Claimed i) = Some i"
| "file_of (Exit_Failed i) = Some i"
| "file_of _ = None"

definition parsed_unit :: "(nat \<Rightarrow> 'tu + 'e) \<Rightarrow> nat \<Rightarrow> 'tu option" where
  "parsed_unit parse i = (case parse i of Inl tu \<Rightarrow> Some tu | Inr e \<Rightarrow> None)"

definition pool_inv :: "nat \<Rightarrow> nat \<Rightarrow> (nat \<Rightarrow> 'tu + 'e) \<Rightarrow> 'tu thread_pool \<Rightarrow> bool" where
  "pool_inv n num_files parse s \<longleftrightarrow>
     length (threads s) = n \<and> length (tu_array s) = num_files \<and>
     next_file_idx s \<le> num_files + idle s \<and>
     (0 < idle s \<longrightarrow> num_files \<le> next_file_idx s) \<and>
     num_active s = (if idle s = 0 then 0 else SIZE_LIMIT - idle s) \<and>
     (\<forall>t u i. t < n \<longrightarrow> u < n \<longrightarrow> file_of (threads s ! t) = Some i \<longrightarrow> file_of (threads s ! u) = Some i \<longrightarrow> t = u) \<and>
     (\<forall>t i. t < n \<longrightarrow> file_of (threads s ! t) = Some i \<longrightarrow> i < num_files \<and> i < next_file_idx s) \<and>
     (\<forall>t i. t < n \<longrightarrow> threads s ! t = Exit_Failed i \<longrightarrow> (\<exists>e. parse i = Inr e)) \<and>
     (\<forall>i < num_files. tu_array s ! i =
        (if i < next_file_idx s \<and> Claimed i \<notin> set (threads s) then parsed_unit parse i else None))"

lemma pool_invD:
  assumes "pool_inv n num_files parse s"
  shows "length (threads s) = n" "length (tu_array s) = num_files"
    "next_file_idx s \<le> num_files + idle s" "0 < idle s \<Longrightarrow> num_files \<le> next_file_idx s"
    "num_active s = (if idle s = 0 then 0 else SIZE_LIMIT - idle s)"
    "\<And>t u i. t < n \<Longrightarrow> u < n \<Longrightarrow> file_of (threads s ! t) = Some i \<Longrightarrow> file_of (threads s ! u) = Some i \<Longrightarrow> t = u"
    "\<And>t i. t < n \<Longrightarrow> file_of (threads s ! t) = Some i \<Longrightarrow> i < num_files \<and> i < next_file_idx s"
    "\<And>t i. t < n \<Longrightarrow> threads s ! t = Exit_Failed i \<Longrightarrow> \<exists>e. parse i = Inr e"
    "\<And>i. i < num_files \<Longrightarrow> tu_array s ! i =
        (if i < next_file_idx s \<and> Claimed i \<notin> set (threads s) then parsed_unit parse i else None)"
  using assms unfolding pool_inv_def by blast+

lemma pool_invI:
  assumes "length (threads s) = n" "length (tu_array s) = num_files"
    "next_file_idx s \<le> num_files + idle s" "0 < idle s \<Longrightarrow> num_files \<le> next_file_idx s"
    "num_active s = (if idle s = 0 then 0 else SIZE_LIMIT - idle s)"
    "\<And>t u i. t < n \<Longrightarrow> u < n \<Longrightarrow> file_of (threads s ! t) = Some i \<Longrightarrow> file_of (threads s ! u) = Some i \<Longrightarrow> t = u"
    "\<And>t i. t < n \<Longrightarrow> file_of (threads s ! t) = Some i \<Longrightarrow> i < num_files \<and> i < next_file_idx s"
    "\<And>t i. t < n \<Longrightarrow> threads s ! t = Exit_Failed i \<Longrightarrow> \<exists>e. parse i = Inr e"
    "\<And>i. i < num_files \<Longrightarrow> tu_array s ! i =
        (if i < next_file_idx s \<and> Claimed i \<notin> set (threads s) then parsed_unit parse i else None)"
  shows "pool_inv n num_files parse s"
  using assms unfolding pool_inv_def by blast

lemma idle_le: "idle s \<le> length (threads s)"
  by (simp add: idle_def)

lemma idle_update:
  assumes "t < length ps" "ps ! t \<noteq> Exit_Idle"
  shows "length (filter (\<lambda>p. p = Exit_Idle) (ps[t := p])) =
    length (filter (\<lambda>p. p = Exit_Idle) ps) + (if p = Exit_Idle then 1 else 0)"
proof -
  have "ps = take t ps @ [ps ! t] @ drop (Suc t) ps" using assms(1) by (simp add: id_take_nth_drop)
  then have "filter (\<lambda>p. p = Exit_Idle) ps
      = filter (\<lambda>p. p = Exit_Idle) (take t ps) @ filter (\<lambda>p. p = Exit_Idle) (drop (Suc t) ps)"
    using assms(2) by (metis (mono_tags, lifting) append_Cons append_Nil filter.simps(1,2) filter_append)
  then show ?thesis using assms(1) by (simp add: upd_conv_take_nth_drop)
qed

lemma claimed_update:
  assumes "t < length ps" "ps ! t = At_Loop"
  shows "Claimed i \<in> set (ps[t := q]) \<longleftrightarrow> q = Claimed i \<or> Claimed i \<in> set ps"
proof -
  have "ps = take t ps @ ps ! t # drop (Suc t) ps" by (rule id_take_nth_drop [OF assms(1)])
  then have "set ps = set (take t ps @ ps ! t # drop (Suc t) ps)" by (rule arg_cong)
  then show ?thesis using assms by (auto simp: upd_conv_take_nth_drop)
qed

lemma pool_inv_init: "pool_inv n num_files parse (init_thread_pool n num_files)"
  by (rule pool_invI) (simp_all add: init_thread_pool_def idle_def)

lemma pool_inv_claim:
  assumes inv: "pool_inv n num_files parse s" and lim: "num_files + n < SIZE_LIMIT"
    and t: "t < n" "threads s ! t = At_Loop"
  shows "pool_inv n num_files parse (claim_file num_files t s)"
proof -
  note I = pool_invD [OF inv]
  have "idle s < n"
  proof -
    have "idle s < length (threads s)"
      unfolding idle_def using t I(1) nth_mem [of t "threads s"]
      by (intro length_filter_less [of "threads s ! t"]) simp_all
    then show ?thesis using I(1) by simp
  qed
  then have nx: "sz_add (next_file_idx s) 1 = Suc (next_file_idx s)" "idle s < SIZE_LIMIT"
    using I(3) lim by (simp_all add: sz_add_exact)
  show ?thesis
  proof (cases "num_files \<le> next_file_idx s")
    case True
    define s' where "s' = claim_file num_files t s"
    have s': "next_file_idx s' = Suc (next_file_idx s)" "num_active s' = sz_sub (num_active s) 1"
      "threads s' = (threads s)[t := Exit_Idle]" "tu_array s' = tu_array s"
      using True nx by (simp_all add: s'_def claim_file_def Let_def)
    have idle': "idle s' = Suc (idle s)"
      using idle_update [of t "threads s" Exit_Idle] t I(1) by (simp add: idle_def s')
    have other: "threads s' ! u = (if u = t then Exit_Idle else threads s ! u)" if "u < n" for u
      using that I(1) by (auto simp: s')
    have "num_active s' = SIZE_LIMIT - idle s'"
      using I(5) nx(2) idle' size_limits by (auto simp: s' sz_sub_one SIZE_MAX_def)
    moreover have "Claimed i \<in> set (threads s') \<longleftrightarrow> Claimed i \<in> set (threads s)" for i
      using claimed_update [of t "threads s" i Exit_Idle] t I(1) by (simp add: s'(3))
    ultimately have "pool_inv n num_files parse s'"
      using I(1-3) I(6-9) idle' True other
      by (intro pool_invI) (auto simp: s' less_Suc_eq split: if_splits)
    then show ?thesis by (simp add: s'_def)
  next
    case False
    define s' where "s' = claim_file num_files t s"
    have s': "next_file_idx s' = Suc (next_file_idx s)" "num_active s' = num_active s"
      "threads s' = (threads s)[t := Claimed (next_file_idx s)]" "tu_array s' = tu_array s"
      using False nx by (simp_all add: s'_def claim_file_def Let_def)
    have idle': "idle s' = idle s"
      using idle_update [of t "threads s" "Claimed (next_file_idx s)"] t I(1) by (simp add: idle_def s')
    have other: "threads s' ! u = (if u = t then Claimed (next_file_idx s) else threads s ! u)" if "u < n" for u
      using that I(1) by (auto simp: s')
    have fresh: "file_of (threads s ! u) \<noteq> Some (next_file_idx s)" if "u < n" for u
      using I(7) that by blast
    have cl: "Claimed i \<in> set (threads s') \<longleftrightarrow> i = next_file_idx s \<or> Claimed i \<in> set (threads s)" for i
      using claimed_update [of t "threads s" i "Claimed (next_file_idx s)"] t I(1) by (auto simp: s'(3))
    have "pool_inv n num_files parse s'"
    proof (rule pool_invI)
      show "t1 = u1" if "t1 < n" "u1 < n" "file_of (threads s' ! t1) = Some i" "file_of (threads s' ! u1) = Some i" for t1 u1 i
        using that other fresh I(6) by (auto split: if_splits)
      show "i < num_files \<and> i < next_file_idx s'" if "t1 < n" "file_of (threads s' ! t1) = Some i" for t1 i
        using that other I(7) [of t1 i] False by (auto simp: s' split: if_splits)
      show "\<exists>e. parse i = Inr e" if "t1 < n" "threads s' ! t1 = Exit_Failed i" for t1 i
        using that other I(8) [of t1 i] by (auto split: if_splits)
      show "tu_array s' ! i = (if i < next_file_idx s' \<and> Claimed i \<notin> set (threads s') then parsed_unit parse i else None)"
        if "i < num_files" for i
        using I(9) [OF that] cl [of i] by (auto simp: s' less_Suc_eq)
    qed (use I(1-5) False idle' in \<open>auto simp: s'\<close>)
    then show ?thesis by (simp add: s'_def)
  qed
qed

lemma pool_inv_finish:
  assumes inv: "pool_inv n num_files parse s" and t: "t < n" "threads s ! t = Claimed k"
  shows "pool_inv n num_files parse (parse_file parse t k s)"
proof -
  note I = pool_invD [OF inv]
  have k: "k < num_files" "k < next_file_idx s" using I(7) [OF t(1)] t(2) by auto
  define p where "p = (case parse k of Inl tu \<Rightarrow> At_Loop | Inr e \<Rightarrow> Exit_Failed k)"
  define s' where "s' = parse_file parse t k s"
  have s': "next_file_idx s' = next_file_idx s" "num_active s' = num_active s"
    "threads s' = (threads s)[t := p]"
    by (simp_all add: s'_def p_def parse_file_def split: sum.split)
  have tus: "tu_array s' = (tu_array s)[k := parsed_unit parse k]"
  proof (cases "parse k")
    case (Inr e)
    have "Claimed k \<in> set (threads s)" using t I(1) by (metis nth_mem)
    then have "tu_array s ! k = None" using I(9) [OF k(1)] by simp
    then have "(tu_array s)[k := None] = tu_array s" by (metis list_update_id)
    with Inr show ?thesis by (simp add: s'_def parse_file_def parsed_unit_def)
  qed (simp add: s'_def parse_file_def parsed_unit_def)
  have p: "p \<noteq> Exit_Idle" "\<And>i. p \<noteq> Claimed i" "\<And>i. file_of p = Some i \<Longrightarrow> i = k"
    "\<And>i. p = Exit_Failed i \<Longrightarrow> \<exists>e. parse i = Inr e"
    by (auto simp: p_def split: sum.splits)
  have idle': "idle s' = idle s"
    using idle_update [of t "threads s" p] t I(1) p(1) by (simp add: idle_def s')
  have other: "threads s' ! u = (if u = t then p else threads s ! u)" if "u < n" for u
    using that I(1) by (auto simp: s')
  have only: "u = t" if "u < n" "file_of (threads s ! u) = Some k" for u
    using I(6) [OF that(1) t(1) that(2)] t(2) by simp
  have cl: "Claimed i \<in> set (threads s') \<longleftrightarrow> i \<noteq> k \<and> Claimed i \<in> set (threads s)" for i
  proof
    assume "Claimed i \<in> set (threads s')"
    then obtain u where u: "u < n" "threads s' ! u = Claimed i"
      using I(1) by (auto simp: in_set_conv_nth s'(3))
    with other p(2) have "u \<noteq> t" "threads s ! u = Claimed i" by (auto split: if_splits)
    with only u I(1) show "i \<noteq> k \<and> Claimed i \<in> set (threads s)" by (metis file_of.simps(1) nth_mem)
  next
    assume i: "i \<noteq> k \<and> Claimed i \<in> set (threads s)"
    then obtain u where u: "u < n" "threads s ! u = Claimed i" using I(1) by (auto simp: in_set_conv_nth)
    with i t(2) have "u \<noteq> t" by auto
    with u other have "threads s' ! u = Claimed i" by simp
    with u I(1) show "Claimed i \<in> set (threads s')" by (metis length_list_update nth_mem s'(3))
  qed
  have "pool_inv n num_files parse s'"
  proof (rule pool_invI)
    show "t1 = u1" if "t1 < n" "u1 < n" "file_of (threads s' ! t1) = Some i" "file_of (threads s' ! u1) = Some i" for t1 u1 i
    proof (cases "i = k")
      case True
      then show ?thesis using that other only by metis
    next
      case False
      then have "t1 \<noteq> t" "u1 \<noteq> t" using that other p(3) [of i] by (metis)+
      then show ?thesis using that other I(6) [of t1 u1 i] by simp
    qed
    show "i < num_files \<and> i < next_file_idx s'" if "t1 < n" "file_of (threads s' ! t1) = Some i" for t1 i
      using that other I(7) [of t1 i] p(3) [of i] k by (auto simp: s' split: if_splits)
    show "\<exists>e. parse i = Inr e" if "t1 < n" "threads s' ! t1 = Exit_Failed i" for t1 i
      using that other I(8) [of t1 i] p(4) by (auto split: if_splits)
    show "tu_array s' ! i = (if i < next_file_idx s' \<and> Claimed i \<notin> set (threads s') then parsed_unit parse i else None)"
      if "i < num_files" for i
      using I(9) [OF that] cl [of i] that k(2) I(2) by (cases "i = k") (simp_all add: s'(1) tus)
  qed (use I(1-5) idle' in \<open>auto simp: s' tus\<close>)
  then show ?thesis by (simp add: s'_def)
qed

lemma pool_inv_step:
  "pool_step num_files parse s s' \<Longrightarrow> pool_inv n num_files parse s \<Longrightarrow> num_files + n < SIZE_LIMIT \<Longrightarrow>
    pool_inv n num_files parse s'"
proof (erule pool_stepE)
  fix t
  assume "s' = claim_file num_files t s" "t < length (threads s)" "threads s ! t = At_Loop"
    "pool_inv n num_files parse s" "num_files + n < SIZE_LIMIT"
  then show "pool_inv n num_files parse s'"
    using pool_inv_claim [of n num_files parse s t] by (simp add: pool_invD(1))
next
  fix t i
  assume "s' = parse_file parse t i s" "t < length (threads s)" "threads s ! t = Claimed i"
    "pool_inv n num_files parse s"
  then show "pool_inv n num_files parse s'"
    using pool_inv_finish [of n num_files parse s t i] by (simp add: pool_invD(1))
qed

lemma pool_inv_reachable:
  assumes "(pool_step num_files parse)\<^sup>*\<^sup>* (init_thread_pool n num_files) s" "num_files + n < SIZE_LIMIT"
  shows "pool_inv n num_files parse s"
  using assms by (induction rule: rtranclp_induct) (auto intro: pool_inv_init pool_inv_step)

section \<open>Runs end\<close>

text \<open>Two units of work for each file not yet claimed, two for a thread that parses and one for
  a thread at the head of its loop: every step uses at least one.\<close>

fun thread_work :: "thread_state \<Rightarrow> nat" where
  "thread_work At_Loop = 1"
| "thread_work (Claimed i) = 2"
| "thread_work _ = 0"

definition pool_work :: "nat \<Rightarrow> 'tu thread_pool \<Rightarrow> nat" where
  "pool_work num_files s = 2 * (num_files - next_file_idx s) + sum_list (map thread_work (threads s))"

lemma work_update:
  assumes "t < length ps"
  shows "sum_list (map thread_work (ps[t := p])) + thread_work (ps ! t)
    = sum_list (map thread_work ps) + thread_work p"
proof -
  have "sum_list (map thread_work ps) = sum_list (map thread_work (take t ps @ ps ! t # drop (Suc t) ps))"
    using assms by (simp add: id_take_nth_drop [symmetric])
  then show ?thesis using assms by (simp add: upd_conv_take_nth_drop)
qed

lemma claim_work:
  assumes "t < length (threads s)" "threads s ! t = At_Loop" "Suc (next_file_idx s) < SIZE_LIMIT"
  shows "pool_work num_files (claim_file num_files t s) < pool_work num_files s"
  using work_update [OF assms(1), of Exit_Idle] work_update [OF assms(1), of "Claimed (next_file_idx s)"] assms(2,3)
  by (auto simp: pool_work_def claim_file_def Let_def sz_add_exact)

lemma finish_work:
  assumes "t < length (threads s)" "threads s ! t = Claimed i"
  shows "pool_work num_files (parse_file parse t i s) < pool_work num_files s"
  using work_update [OF assms(1), of At_Loop] work_update [OF assms(1), of "Exit_Failed i"] assms(2)
  by (auto simp: pool_work_def parse_file_def split: sum.split)

lemma pool_inv_no_wrap:
  assumes "pool_inv n num_files parse s" "num_files + n < SIZE_LIMIT" "t < n" "threads s ! t = At_Loop"
  shows "Suc (next_file_idx s) < SIZE_LIMIT"
proof -
  note I = pool_invD [OF assms(1)]
  have "idle s < length (threads s)"
    unfolding idle_def using assms(3,4) I(1) nth_mem [of t "threads s"]
    by (intro length_filter_less [of "threads s ! t"]) simp_all
  then show ?thesis using I(1,3) assms(2) by simp
qed

lemma pool_step_work:
  assumes "pool_step num_files parse s s'" "pool_inv n num_files parse s" "num_files + n < SIZE_LIMIT"
  shows "pool_work num_files s' < pool_work num_files s"
  using assms(1)
proof (cases rule: pool_step.cases)
  case (claim t)
  then show ?thesis
    using claim_work pool_inv_no_wrap [OF assms(2,3)] pool_invD(1) [OF assms(2)] by metis
next
  case (finish t i)
  then show ?thesis using finish_work by metis
qed

lemma pool_steps_bounded:
  "(pool_step num_files parse ^^ k) s s' \<Longrightarrow> pool_inv n num_files parse s \<Longrightarrow> num_files + n < SIZE_LIMIT \<Longrightarrow>
    pool_inv n num_files parse s' \<and> k + pool_work num_files s' \<le> pool_work num_files s"
proof (induction k arbitrary: s')
  case (Suc k)
  then obtain m where m: "(pool_step num_files parse ^^ k) s m" "pool_step num_files parse m s'" by auto
  with Suc have "pool_inv n num_files parse m" "k + pool_work num_files m \<le> pool_work num_files s" by auto
  with pool_step_work [OF m(2)] pool_inv_step [OF m(2)] Suc.prems(3) show ?case by fastforce
qed simp

lemma init_work: "pool_work num_files (init_thread_pool n num_files) = 2 * num_files + n"
  by (simp add: pool_work_def init_thread_pool_def sum_list_replicate)

lemma progress:
  "(\<exists>s'. pool_step num_files parse s s') \<longleftrightarrow> \<not> all_exited s"
proof
  assume "\<not> all_exited s"
  then obtain t where t: "t < length (threads s)"
      "case threads s ! t of Exit_Idle \<Rightarrow> False | Exit_Failed i \<Rightarrow> False | _ \<Rightarrow> True"
    by (auto simp: all_exited_def in_set_conv_nth split: thread_state.splits)
  then show "\<exists>s'. pool_step num_files parse s s'"
    by (cases "threads s ! t") (auto intro: pool_step.intros)
next
  assume "\<exists>s'. pool_step num_files parse s s'"
  then obtain s' where "pool_step num_files parse s s'" by blast
  then show "\<not> all_exited s"
    by (cases rule: pool_step.cases) (auto simp: all_exited_def intro!: bexI [OF _ nth_mem])
qed

lemma run_to_exit:
  assumes "pool_inv n num_files parse s" "num_files + n < SIZE_LIMIT"
  shows "\<exists>s'. (pool_step num_files parse)\<^sup>*\<^sup>* s s' \<and> all_exited s'"
  using assms(1)
proof (induction "pool_work num_files s" arbitrary: s rule: less_induct)
  case less
  show ?case
  proof (cases "all_exited s")
    case False
    then obtain m where m: "pool_step num_files parse s m" using progress by blast
    with less pool_step_work [OF m less.prems assms(2)] pool_inv_step [OF m less.prems assms(2)]
    obtain s' where "(pool_step num_files parse)\<^sup>*\<^sup>* m s'" "all_exited s'" by blast
    with m show ?thesis by (meson converse_rtranclp_into_rtranclp)
  qed auto
qed

lemma all_exited_iff:
  "all_exited s \<longleftrightarrow> (\<forall>t < length (threads s). threads s ! t = Exit_Idle \<or> (\<exists>i. threads s ! t = Exit_Failed i))"
proof -
  have "(case p of Exit_Idle \<Rightarrow> True | Exit_Failed i \<Rightarrow> True | _ \<Rightarrow> False)
      \<longleftrightarrow> p = Exit_Idle \<or> (\<exists>i. p = Exit_Failed i)" for p
    by (cases p) simp_all
  then show ?thesis by (simp add: all_exited_def all_set_conv_all_nth)
qed

text \<open>When every thread that has gone home failed, each on a file of its own, there are at least
  as many failing files as threads.\<close>

lemma all_failed:
  assumes inv: "pool_inv n num_files parse s" and ex: "all_exited s" and none: "idle s = 0"
  shows "n \<le> card {i. i < num_files \<and> (\<exists>e. parse i = Inr e)}"
proof -
  note I = pool_invD [OF inv]
  have failed: "\<exists>i. threads s ! t = Exit_Failed i" if "t < n" for t
  proof -
    have "threads s ! t \<in> set (threads s)" using that I(1) by simp
    with none have "threads s ! t \<noteq> Exit_Idle" by (auto simp: idle_def filter_empty_conv)
    with that ex I(1) show ?thesis by (auto simp: all_exited_iff)
  qed
  then obtain f where f: "\<And>t. t < n \<Longrightarrow> threads s ! t = Exit_Failed (f t)" by metis
  have "inj_on f {..<n}"
    using f I(6) by (intro inj_onI) (metis file_of.simps(2) lessThan_iff)
  moreover have "f ` {..<n} \<subseteq> {i. i < num_files \<and> (\<exists>e. parse i = Inr e)}"
    using f I(7,8) by fastforce
  ultimately show ?thesis using card_inj_on_le [of f "{..<n}"] by simp
qed

lemma none_claimed: "all_exited s \<Longrightarrow> Claimed i \<notin> set (threads s)"
  by (auto simp: all_exited_def split: thread_state.splits)

lemma two_claims:
  "(pool_step 2 parse ^^ 2) (init_thread_pool 2 2) (claim_file 2 1 (claim_file 2 0 (init_thread_pool 2 2)))"
proof -
  let ?a = "init_thread_pool 2 2"
  have "pool_step 2 parse ?a (claim_file 2 0 ?a)"
    by (rule pool_step.claim) (simp_all add: init_thread_pool_def)
  moreover have "pool_step 2 parse (claim_file 2 0 ?a) (claim_file 2 1 (claim_file 2 0 ?a))"
    by (rule pool_step.claim) (simp_all add: init_thread_pool_def claim_file_def Let_def)
  ultimately show ?thesis by (auto simp: numeral_2_eq_2)
qed

lemma no_thread_no_step:
  assumes "(pool_step num_files parse)\<^sup>*\<^sup>* (init_thread_pool 0 num_files) s"
  shows "next_file_idx s = 0 \<and> threads s = []"
  using assms by (induction rule: rtranclp_induct)
    (auto simp: init_thread_pool_def elim!: pool_stepE)

text \<open>A single thread claims a file only after it has parsed the one before.\<close>

lemma single_thread_stops:
  assumes "(pool_step num_files parse)\<^sup>*\<^sup>* (init_thread_pool 1 num_files) s"
    and "num_files + 1 < SIZE_LIMIT" "k < num_files" "parse k = Inr e"
  shows "next_file_idx s \<le> k \<or> next_file_idx s = Suc k \<and> (threads s = [Claimed k] \<or> threads s = [Exit_Failed k])"
  using assms(1)
proof (induction rule: rtranclp_induct)
  case (step s s')
  have len: "length (threads s) = 1"
    using pool_invD(1) [OF pool_inv_reachable [OF step.hyps(1)]] assms(2) by simp
  then obtain p where p: "threads s = [p]" by (auto simp: length_Suc_conv)
  from step.hyps(2) show ?case
  proof (cases rule: pool_step.cases)
    case (claim t)
    with p step.IH have "p = At_Loop" "next_file_idx s \<le> k" "t = 0" by auto
    then show ?thesis
      using p claim assms(2,3) by (auto simp: claim_file_def Let_def sz_add_exact)
  next
    case (finish t i)
    then show ?thesis
      using p step.IH assms(4) by (auto simp: parse_file_def split: sum.split)
  qed
qed (simp add: init_thread_pool_def)

section \<open>Properties of the pool\<close>

text \<open>C16: in every interleaving no file is given to two threads, whether one is still parsing it
  or ended on it; an entry of the array of translation units is written only with the result
  of parsing the file of that index, and is there once the file has been claimed and its
  parse is over.
\<close>
theorem files_are_claimed_once:
  assumes "(pool_step num_files parse)\<^sup>*\<^sup>* (init_thread_pool n num_files) s" "num_files + n < SIZE_LIMIT"
  shows "(t < n \<and> u < n \<and> file_of (threads s ! t) = Some i \<and> file_of (threads s ! u) = Some i \<longrightarrow> t = u) \<and>
    (i < num_files \<longrightarrow> tu_array s ! i =
       (if i < next_file_idx s \<and> Claimed i \<notin> set (threads s) then parsed_unit parse i else None))"
  using pool_invD(6,9) [OF pool_inv_reachable [OF assms]] by blast

theorem files_are_claimed_once_witness:
  "threads (claim_file 2 1 (claim_file 2 0 (init_thread_pool 2 2))) ! 0 = Claimed 0 \<and>
   threads (claim_file 2 1 (claim_file 2 0 (init_thread_pool 2 2))) ! 1 = Claimed 1 \<and>
   tu_array (claim_file 2 1 (claim_file 2 0 (init_thread_pool 2 2))) ! 1 = (None :: nat option)"
  using files_are_claimed_once [OF relpowp_imp_rtranclp [OF two_claims [of "\<lambda>i. (Inl i :: nat + nat)"]], of 0 1 1]
  by (simp add: init_thread_pool_def claim_file_def Let_def sz_add_def SIZE_LIMIT_def)

text \<open>C15: the parsing stage always comes to its end.  No schedule is longer than two steps for
  each file and one for each thread, whatever the parser answers; as long as a thread has
  not left its loop a step is possible, so the only states in which the pool stops are those
  in which every thread can be joined.
\<close>
theorem parsing_terminates:
  assumes "(pool_step num_files parse ^^ k) (init_thread_pool n num_files) s" "num_files + n < SIZE_LIMIT"
  shows "k \<le> 2 * num_files + n \<and> ((\<exists>s'. pool_step num_files parse s s') \<longleftrightarrow> \<not> all_exited s)"
  using pool_steps_bounded [OF assms(1) pool_inv_init assms(2)] progress [of num_files parse s]
  unfolding init_work by (intro conjI) (linarith, blast)

theorem parsing_terminates_witness:
  "(2::nat) \<le> 2 * 2 + 2 \<and>
   (\<exists>s'. pool_step 2 (\<lambda>i. (Inl i :: nat + nat)) (claim_file 2 1 (claim_file 2 0 (init_thread_pool 2 2))) s')"
proof -
  have "threads (claim_file 2 1 (claim_file 2 0 (init_thread_pool 2 2 :: nat thread_pool))) ! 0 = Claimed 0"
    by (simp add: init_thread_pool_def claim_file_def Let_def)
  then have "\<not> all_exited (claim_file 2 1 (claim_file 2 0 (init_thread_pool 2 2 :: nat thread_pool)))"
    unfolding all_exited_iff
    by (auto simp: init_thread_pool_def claim_file_def Let_def intro!: exI [of _ "0::nat"])
  with parsing_terminates [OF two_claims [of "\<lambda>i. (Inl i :: nat + nat)"]] show ?thesis
    by (simp add: SIZE_LIMIT_def)
qed

text \<open>C14: from any reachable state the pool can be run to its end, and when fewer files fail to
  parse than there are threads, at the end every entry of the array of translation units
  holds the outcome of parsing its file: every file the parser accepts has been parsed.
\<close>
theorem all_files_get_parsed:
  assumes "(pool_step num_files parse)\<^sup>*\<^sup>* (init_thread_pool n num_files) s" "num_files + n < SIZE_LIMIT"
    and "card {i. i < num_files \<and> (\<exists>e. parse i = Inr e)} < n"
  shows "(\<exists>s'. (pool_step num_files parse)\<^sup>*\<^sup>* s s' \<and> all_exited s') \<and>
    (all_exited s \<longrightarrow> tu_array s = map (parsed_unit parse) [0..<num_files])"
proof (intro conjI impI)
  have inv: "pool_inv n num_files parse s" by (rule pool_inv_reachable [OF assms(1,2)])
  show "\<exists>s'. (pool_step num_files parse)\<^sup>*\<^sup>* s s' \<and> all_exited s'" by (rule run_to_exit [OF inv assms(2)])
  show "tu_array s = map (parsed_unit parse) [0..<num_files]" if ex: "all_exited s"
  proof (rule nth_equalityI)
    note I = pool_invD [OF inv]
    show "length (tu_array s) = length (map (parsed_unit parse) [0..<num_files])" by (simp add: I(2))
    have "0 < idle s" using all_failed [OF inv ex] assms(3) by linarith
    then show "tu_array s ! i = map (parsed_unit parse) [0..<num_files] ! i" if "i < length (tu_array s)" for i
      using that I(2) I(4) I(9) [of i] none_claimed [OF ex] by simp
  qed
qed

theorem all_files_get_parsed_witness:
  "\<exists>s'. (pool_step 2 (\<lambda>i. if i = 0 then Inr () else Inl i))\<^sup>*\<^sup>*
      (claim_file 2 1 (claim_file 2 0 (init_thread_pool 2 2))) s' \<and> all_exited s'"
proof -
  let ?p = "\<lambda>i. if i = 0 then Inr () else Inl i :: nat + unit"
  have "{i. i < (2::nat) \<and> (\<exists>e. ?p i = Inr e)} = {0}" by auto
  then have "card {i. i < (2::nat) \<and> (\<exists>e. ?p i = Inr e)} < 2" by simp
  from all_files_get_parsed [OF relpowp_imp_rtranclp [OF two_claims [of ?p]] _ this]
  show ?thesis by (simp add: SIZE_LIMIT_def)
qed

text \<open>A single thread that fails on a file leaves every later file unparsed, and a pool of
  no threads (which \<open>-j0\<close> asks for) leaves all of them so: once such a pool has stopped,
  the entries from the failing file on hold no translation unit.
\<close>
theorem failure_leaves_files_unparsed:
  assumes "(pool_step num_files parse)\<^sup>*\<^sup>* (init_thread_pool n num_files) s" "num_files + n < SIZE_LIMIT"
    and "n = 0 \<and> k = 0 \<or> n = 1 \<and> k < num_files \<and> parse k = Inr e" "k \<le> i" "i < num_files"
  shows "tu_array s ! i = None"
proof -
  note I = pool_invD [OF pool_inv_reachable [OF assms(1,2)]]
  have "next_file_idx s \<le> k \<or> next_file_idx s = Suc k \<and> parse k = Inr e"
    using assms(3)
  proof
    assume "n = 0 \<and> k = 0"
    with no_thread_no_step [of num_files parse s] assms(1) show ?thesis by simp
  next
    assume "n = 1 \<and> k < num_files \<and> parse k = Inr e"
    with single_thread_stops [of num_files parse s k e] assms(1,2) show ?thesis by auto
  qed
  moreover from this assms(4) have "i < next_file_idx s \<Longrightarrow> parsed_unit parse i = None"
    by (auto simp: parsed_unit_def less_Suc_eq)
  ultimately show ?thesis using I(9) [OF assms(5)] by auto
qed

theorem failure_leaves_files_unparsed_witness:
  "tu_array (parse_file (\<lambda>i. Inr ()) 0 0 (claim_file 2 0 (init_thread_pool 1 2))) ! 1 = (None :: nat option)"
proof -
  let ?p = "\<lambda>i. (Inr () :: nat + unit)" and ?a = "init_thread_pool 1 2"
  have "pool_step 2 ?p ?a (claim_file 2 0 ?a)"
    by (rule pool_step.claim) (simp_all add: init_thread_pool_def)
  moreover have "pool_step 2 ?p (claim_file 2 0 ?a) (parse_file ?p 0 0 (claim_file 2 0 ?a))"
    by (rule pool_step.finish) (simp_all add: init_thread_pool_def claim_file_def Let_def)
  ultimately have "(pool_step 2 ?p)\<^sup>*\<^sup>* ?a (parse_file ?p 0 0 (claim_file 2 0 ?a))" by auto
  from failure_leaves_files_unparsed [OF this, of 0 "()" 1] show ?thesis by (simp add: SIZE_LIMIT_def)
qed

text \<open>The arguments of the command line reach the compiler only through a compilation
  database: without one, or with one whose command for the file holds nothing but the
  compiler, \<open>-c\<close>, \<open>--\<close> and the file, no argument at all is passed; otherwise the recorded
  arguments come first, in their order, and the extra ones after them.
\<close>
theorem extra_arguments_need_a_database:
  "clang_args file commands extra_args =
     (case commands of None \<Rightarrow> []
      | Some cs \<Rightarrow> if db_args file cs = [] then [] else db_args file cs @ extra_args) \<and>
   (a \<in> set (db_args file cs) \<longleftrightarrow>
      a \<notin> {file, ''clang'', ''-c'', ''--''} \<and> (\<exists>args \<in> set cs. a \<in> set (drop 1 args)))"
  by (auto simp: clang_args_def append_strs_def db_args_def split: option.split)

end
