(* ===== verification/Cursor_Arr.thy ===== *)
theory Cursor_Arr
  imports Func_Info
begin

text \<open>
  Cursors and the ancestry stack (\<open>src/cursor_arr.c\<close>): the growing array of cursors, the
  searches over it, the helpers on if statements, arguments and definitions, and the test
  for system headers.

  The compiler library is a parameter: one record holds what it answers about cursors
  and locations, and the syntax tree below every cursor.  Children are visited in the
  order the library documents: the visitor decides whether to stop, to go on with the
  next sibling or to descend first.
\<close>

section \<open>The compiler library\<close>

datatype cursor_kind =
    CXCursor_FunctionDecl | CXCursor_VarDecl | CXCursor_ParmDecl | CXCursor_CompoundStmt
  | CXCursor_IfStmt | CXCursor_DeclRefExpr | CXCursor_MemberRefExpr | CXCursor_CallExpr
  | CXCursor_BinaryOperator | CXCursor_UnaryOperator | CXCursor_ArraySubscriptExpr
  | CXCursor_OtherKind nat

datatype linkage_kind =
  CXLinkage_NoLinkage | CXLinkage_Internal | CXLinkage_External | CXLinkage_OtherLinkage

datatype unop_kind =
    CXUnaryOperator_AddrOf | CXUnaryOperator_Deref | CXUnaryOperator_PreInc | CXUnaryOperator_PostInc
  | CXUnaryOperator_PreDec | CXUnaryOperator_PostDec | CXUnaryOperator_OtherOp

datatype type_kind =
    CXType_Pointer | CXType_ConstantArray | CXType_IncompleteArray | CXType_VariableArray
  | CXType_OtherType

datatype 'c ast = Ast (ast_root: 'c) (ast_kids: "'c ast list")

text \<open>A location is an opaque number; \<open>None\<close> for a file name is NULL.  The opcodes of binary
  operators are numbers, of which the library fixes the two ends of the assignments.\<close>

record 'c clang =
  null_cursor :: 'c
  cursor_is_null :: "'c \<Rightarrow> bool"
  equal_cursors :: "'c \<Rightarrow> 'c \<Rightarrow> bool"
  cursor_location :: "'c \<Rightarrow> nat"
  cursor_end :: "'c \<Rightarrow> nat"
  cursor_kind :: "'c \<Rightarrow> cursor_kind"
  cursor_linkage :: "'c \<Rightarrow> linkage_kind"
  cursor_usr :: "'c \<Rightarrow> string"
  cursor_display_name :: "'c \<Rightarrow> string"
  cursor_spelling :: "'c \<Rightarrow> string"
  cursor_referenced :: "'c \<Rightarrow> 'c"
  cursor_type_kind :: "'c \<Rightarrow> type_kind"
  cursor_binop :: "'c \<Rightarrow> nat"
  cursor_unop :: "'c \<Rightarrow> unop_kind"
  binop_Assign :: nat
  binop_OrAssign :: nat
  is_definition :: "'c \<Rightarrow> bool"
  num_arguments :: "'c \<Rightarrow> int"
  cursor_argument :: "'c \<Rightarrow> nat \<Rightarrow> 'c"
  in_system_header_loc :: "nat \<Rightarrow> bool"
  location_file :: "nat \<Rightarrow> string option"
  presumed_line :: "nat \<Rightarrow> nat"
  presumed_column :: "nat \<Rightarrow> nat"
  subtrees :: "'c \<Rightarrow> 'c ast list"

datatype visit_result = CXChildVisit_Break | CXChildVisit_Continue | CXChildVisit_Recurse

text \<open>\<open>clang_visitChildren\<close>: the visitor gets the child, its parent and the client data.  The
  boolean tells that a visitor stopped the traversal; \<open>None\<close> is undefined behaviour of the
  visitor.\<close>

fun visit_trees ::
  "('c \<Rightarrow> 'c \<Rightarrow> 's \<Rightarrow> (visit_result \<times> 's) option) \<Rightarrow> 'c \<Rightarrow> 'c ast list \<Rightarrow> 's \<Rightarrow> (bool \<times> 's) option" where
  "visit_trees v parent [] s = Some (False, s)"
| "visit_trees v parent (Ast c kids # ts) s =
     (case v c parent s of
        None \<Rightarrow> None
      | Some (CXChildVisit_Break, s1) \<Rightarrow> Some (True, s1)
      | Some (CXChildVisit_Continue, s1) \<Rightarrow> visit_trees v parent ts s1
      | Some (CXChildVisit_Recurse, s1) \<Rightarrow>
          (case visit_trees v c kids s1 of
             None \<Rightarrow> None
           | Some (True, s2) \<Rightarrow> Some (True, s2)
           | Some (False, s2) \<Rightarrow> visit_trees v parent ts s2))"

definition visit_children ::
  "'c clang \<Rightarrow> ('c \<Rightarrow> 'c \<Rightarrow> 's \<Rightarrow> (visit_result \<times> 's) option) \<Rightarrow> 'c \<Rightarrow> 's \<Rightarrow> 's option" where
  "visit_children api v c s = map_option snd (visit_trees v c (subtrees api c) s)"

section \<open>The array\<close>

definition CURSOR_ARR_INIT_CAP :: nat where
  "CURSOR_ARR_INIT_CAP = 8"

text \<open>\<open>sizeof(CXCursor)\<close>: two 32-bit fields and three pointers; \<open>sizeof(CXCursorArr)\<close>: two
  sizes and a pointer.\<close>

definition SIZEOF_CURSOR :: nat where
  "SIZEOF_CURSOR = 32"

definition SIZEOF_CURSOR_ARR :: nat where
  "SIZEOF_CURSOR_ARR = 24"

text \<open>The block is allocated with the size of the array structure, not of an element: it
  has fewer slots than its capacity says.\<close>

definition init_cursor_array :: "'c c_array" where
  "init_cursor_array =
     \<lparr>arr_size = 0, arr_capacity = CURSOR_ARR_INIT_CAP,
      arr_data = replicate (SIZEOF_CURSOR_ARR * CURSOR_ARR_INIT_CAP div SIZEOF_CURSOR) None\<rparr>"

definition push_cursor_full :: "nat \<Rightarrow> nat \<Rightarrow> bool" where
  "push_cursor_full sz cap \<longleftrightarrow> cap < sz_mul (sz_add sz 1) SIZEOF_CURSOR"

definition push_cursor :: "allocator \<Rightarrow> 'c c_array \<Rightarrow> 'c \<Rightarrow> 'c c_array option" where
  "push_cursor al arr c = arr_push push_cursor_full SIZEOF_CURSOR al arr c"

definition pop_cursor :: "'c c_array \<Rightarrow> 'c c_array" where
  "pop_cursor arr = (if arr_size arr = 0 then arr else arr\<lparr>arr_size := sz_sub (arr_size arr) 1\<rparr>)"

text \<open>A read of a slot: \<open>None\<close> beyond the block or before a write.\<close>

definition arr_read :: "'c c_array \<Rightarrow> nat \<Rightarrow> 'c option" where
  "arr_read arr i = (if i < length (arr_data arr) then arr_data arr ! i else None)"

definition get_cursor_array_tail :: "'c c_array \<Rightarrow> 'c option" where
  "get_cursor_array_tail arr = arr_read arr (sz_sub (arr_size arr) 1)"

interpretation cursor_arr: growth_test push_cursor_full SIZEOF_CURSOR SIZEOF_CURSOR
  by unfold_locales (auto simp: push_cursor_full_def SIZEOF_CURSOR_def byte_test)

lemma init_cursor_array_ok:
  "cursor_arr.ok init_cursor_array" "arr_contents init_cursor_array = []"
  by (auto simp: cursor_arr.ok_def init_cursor_array_def arr_elems_def arr_contents_def
      CURSOR_ARR_INIT_CAP_def SIZE_LIMIT_def push_cursor_full_def SIZEOF_CURSOR_def
      SIZEOF_CURSOR_ARR_def byte_test)

section \<open>Cursors compared\<close>

definition cursors_are_equal :: "'c clang \<Rightarrow> 'c \<Rightarrow> 'c \<Rightarrow> bool" where
  "cursors_are_equal api a b \<longleftrightarrow>
     (if equal_cursors api a b then True
      else if cursor_is_null api a \<or> cursor_is_null api b then False
      else if cursor_location api a \<noteq> cursor_location api b then False
      else cursor_end api a = cursor_end api b)"

definition in_cursor_branch_visitor ::
  "'c clang \<Rightarrow> 'c \<Rightarrow> 'c \<Rightarrow> 'c \<Rightarrow> bool \<Rightarrow> (visit_result \<times> bool) option" where
  "in_cursor_branch_visitor api target cursor parent boolean =
     Some (if cursors_are_equal api cursor target then (CXChildVisit_Break, True)
           else (CXChildVisit_Recurse, boolean))"

definition in_cursor_branch :: "'c clang \<Rightarrow> 'c \<Rightarrow> 'c \<Rightarrow> bool option" where
  "in_cursor_branch api branch cursor =
     (if equal_cursors api branch cursor then Some True
      else visit_children api (in_cursor_branch_visitor api cursor) branch False)"

definition get_first_child_visitor :: "'c \<Rightarrow> 'c \<Rightarrow> 'c \<Rightarrow> (visit_result \<times> 'c) option" where
  "get_first_child_visitor cursor parent result = Some (CXChildVisit_Break, cursor)"

definition get_cursor_first_child :: "'c clang \<Rightarrow> 'c \<Rightarrow> 'c option" where
  "get_cursor_first_child api cursor =
     visit_children api get_first_child_visitor cursor (null_cursor api)"

text \<open>Anything but a binary operator is warned about and is no assignment.\<close>

definition operator_is_assignment :: "'c clang \<Rightarrow> 'c \<Rightarrow> bool" where
  "operator_is_assignment api cursor \<longleftrightarrow>
     (if cursor_kind api cursor \<noteq> CXCursor_BinaryOperator then False
      else binop_Assign api \<le> cursor_binop api cursor \<and> cursor_binop api cursor \<le> binop_OrAssign api)"

section \<open>Searching the stack\<close>

text \<open>The loop \<open>for (i = size-1; i < size; --i)\<close>: below index 0 the counter wraps around to a
  value that is no index.  A size is a \<open>size_t\<close>.  \<open>Some None\<close>: no element.\<close>

function scan_down :: "('c \<Rightarrow> bool) \<Rightarrow> 'c c_array \<Rightarrow> nat \<Rightarrow> nat option option" where
  "scan_down p arr i =
     (if i < arr_size arr \<and> arr_size arr < SIZE_LIMIT
      then (case arr_read arr i of
              None \<Rightarrow> None
            | Some c \<Rightarrow> if p c then Some (Some i) else scan_down p arr (sz_sub i 1))
      else Some None)"
  by pat_completeness auto
termination
proof (relation "measure (\<lambda>(p, arr, i). if i < arr_size arr then Suc i else 0)", goal_cases)
  case (2 p arr i c)
  then show ?case by (cases i) (auto simp: sz_sub_one SIZE_MAX_def)
qed simp

declare scan_down.simps [simp del]

fun scan_up :: "('c \<Rightarrow> bool) \<Rightarrow> 'c option list \<Rightarrow> nat \<Rightarrow> nat option option" where
  "scan_up p [] i = Some None"
| "scan_up p (slot # slots) i =
     (case slot of None \<Rightarrow> None | Some c \<Rightarrow> if p c then Some (Some i) else scan_up p slots (Suc i))"

definition ANCESTOR_NOT_FOUND :: nat where
  "ANCESTOR_NOT_FOUND = UINT_MAX"

definition cursor_at :: "'c clang \<Rightarrow> 'c c_array \<Rightarrow> nat option \<Rightarrow> 'c option" where
  "cursor_at api stack found = (case found of None \<Rightarrow> Some (null_cursor api) | Some i \<Rightarrow> arr_read stack i)"

definition base_offset :: "'c c_array \<Rightarrow> nat option \<Rightarrow> nat" where
  "base_offset stack found =
     (case found of None \<Rightarrow> ANCESTOR_NOT_FOUND | Some i \<Rightarrow> sz_sub (arr_size stack) i)"

definition in_cursor_stack :: "'c clang \<Rightarrow> 'c c_array \<Rightarrow> 'c \<Rightarrow> bool option" where
  "in_cursor_stack api stack cursor =
     map_option (\<lambda>found. found \<noteq> None)
       (scan_down (\<lambda>c. cursors_are_equal api c cursor) stack (sz_sub (arr_size stack) 1))"

definition get_cursor_of_kind :: "'c clang \<Rightarrow> 'c c_array \<Rightarrow> cursor_kind \<Rightarrow> 'c option" where
  "get_cursor_of_kind api stack target_kind =
     Option.bind (scan_down (\<lambda>c. cursor_kind api c = target_kind) stack (sz_sub (arr_size stack) 1))
       (cursor_at api stack)"

definition is_assignment :: "'c clang \<Rightarrow> 'c \<Rightarrow> bool" where
  "is_assignment api c \<longleftrightarrow> cursor_kind api c = CXCursor_BinaryOperator \<and> operator_is_assignment api c"

definition get_binop_assignment :: "'c clang \<Rightarrow> 'c c_array \<Rightarrow> 'c option" where
  "get_binop_assignment api stack =
     Option.bind (scan_down (is_assignment api) stack (sz_sub (arr_size stack) 1)) (cursor_at api stack)"

definition get_farthest_memb_expr :: "'c clang \<Rightarrow> 'c c_array \<Rightarrow> 'c option" where
  "get_farthest_memb_expr api stack =
     Option.bind (scan_up (\<lambda>c. cursor_kind api c = CXCursor_MemberRefExpr) (arr_elems stack) 0)
       (cursor_at api stack)"

definition get_farthest_memb_offset :: "'c clang \<Rightarrow> 'c c_array \<Rightarrow> nat option" where
  "get_farthest_memb_offset api stack =
     map_option (\<lambda>found. case found of None \<Rightarrow> ANCESTOR_NOT_FOUND | Some i \<Rightarrow> i)
       (scan_up (\<lambda>c. cursor_kind api c = CXCursor_MemberRefExpr) (arr_elems stack) 0)"

definition get_cursor_offset_of_kind :: "'c clang \<Rightarrow> 'c c_array \<Rightarrow> cursor_kind \<Rightarrow> nat option" where
  "get_cursor_offset_of_kind api stack target_kind =
     map_option (base_offset stack)
       (scan_down (\<lambda>c. cursor_kind api c = target_kind) stack (sz_sub (arr_size stack) 1))"

definition get_binop_assignment_offset :: "'c clang \<Rightarrow> 'c c_array \<Rightarrow> nat option" where
  "get_binop_assignment_offset api stack =
     map_option (base_offset stack) (scan_down (is_assignment api) stack (sz_sub (arr_size stack) 1))"

definition get_cursor_by_offset :: "'c clang \<Rightarrow> 'c c_array \<Rightarrow> nat \<Rightarrow> 'c option" where
  "get_cursor_by_offset api stack offset =
     (if sz_sub (arr_size stack) 1 < offset then Some (null_cursor api)
      else arr_read stack (sz_sub (sz_sub (arr_size stack) offset) 1))"

subsection \<open>The searches on the list of elements\<close>

text \<open>The innermost element with a property, and its distance from the end, starting at 1.\<close>

definition innermost :: "('c \<Rightarrow> bool) \<Rightarrow> 'c list \<Rightarrow> 'c option" where
  "innermost p xs = List.find p (rev xs)"

definition distance :: "('c \<Rightarrow> bool) \<Rightarrow> 'c list \<Rightarrow> nat option" where
  "distance p xs =
     (let k = length (takeWhile (\<lambda>x. \<not> p x) (rev xs)) in if k < length xs then Some (Suc k) else None)"

context growth_test
begin

lemma read_ok:
  assumes "ok arr" "i < arr_size arr"
  shows "arr_read arr i = Some (arr_contents arr ! i)"
proof -
  have len: "i < length (arr_data arr)" using assms by (simp add: ok_def)
  then have el: "i < length (arr_elems arr)" "arr_elems arr ! i = arr_data arr ! i"
    using assms(2) by (simp_all add: arr_elems_def)
  then have "arr_data arr ! i \<noteq> None" using assms(1) nth_mem [OF el(1)] by (metis ok_def)
  with len el show ?thesis by (auto simp: arr_read_def arr_contents_def)
qed

lemma contents_length: "ok arr \<Longrightarrow> length (arr_contents arr) = arr_size arr"
  by (simp add: ok_def arr_contents_def arr_elems_def)

lemma scan_down_at:
  assumes "ok arr"
  shows "i < arr_size arr \<Longrightarrow> scan_down p arr i =
    Some (let k = length (takeWhile (\<lambda>x. \<not> p x) (rev (take (Suc i) (arr_contents arr))))
          in if k < Suc i then Some (i - k) else None)"
proof (induction i)
  case 0
  have "arr_size arr < SIZE_LIMIT" using assms by (simp add: ok_def)
  moreover have "take (Suc 0) (arr_contents arr) = [arr_contents arr ! 0]"
    using 0 contents_length [OF assms] by (simp add: take_Suc_conv_app_nth)
  moreover have "\<not> SIZE_MAX < arr_size arr" using \<open>arr_size arr < SIZE_LIMIT\<close> by (simp add: SIZE_MAX_def)
  ultimately show ?case
    using 0 by (simp add: scan_down.simps [of p arr] read_ok [OF assms])
next
  case (Suc i)
  have lim: "arr_size arr < SIZE_LIMIT" using assms by (simp add: ok_def)
  then have "sz_sub (Suc i) 1 = i" using Suc.prems by (simp add: sz_sub_one)
  moreover have "take (Suc (Suc i)) (arr_contents arr) = take (Suc i) (arr_contents arr) @ [arr_contents arr ! Suc i]"
    using Suc.prems contents_length [OF assms] by (simp add: take_Suc_conv_app_nth)
  ultimately show ?case
    using Suc lim by (simp add: scan_down.simps [of p arr "Suc i"] read_ok [OF assms] Let_def)
qed

lemma scan_down_top:
  assumes "ok arr"
  shows "scan_down p arr (sz_sub (arr_size arr) 1) =
    Some (map_option (\<lambda>d. arr_size arr - d) (distance p (arr_contents arr)))"
proof (cases "arr_size arr")
  case 0
  then have "arr_contents arr = []" by (simp add: arr_contents_def arr_elems_def)
  with 0 show ?thesis by (simp add: scan_down.simps [of p arr] distance_def)
next
  case (Suc n)
  then have "sz_sub (arr_size arr) 1 = n" using assms by (simp add: ok_def sz_sub_one)
  with Suc scan_down_at [OF assms, of n p] contents_length [OF assms] show ?thesis
    by (simp add: distance_def Let_def)
qed

end

lemma distance_bounds: "distance p xs = Some d \<Longrightarrow> 0 < d \<and> d \<le> length xs"
  by (auto simp: distance_def Let_def split: if_splits)

lemma distance_None: "distance p xs = None \<longleftrightarrow> (\<forall>x \<in> set xs. \<not> p x)"
proof -
  have "length (takeWhile q ys) < length ys \<longleftrightarrow> (\<exists>y \<in> set ys. \<not> q y)" for q :: "'a \<Rightarrow> bool" and ys
    by (induction ys) auto
  from this [of "\<lambda>x. \<not> p x" "rev xs"] show ?thesis by (simp add: distance_def Let_def)
qed

lemma innermost_distance: "innermost p xs = map_option (\<lambda>d. xs ! (length xs - d)) (distance p xs)"
proof -
  have "List.find p ys = (let k = length (takeWhile (\<lambda>x. \<not> p x) ys) in if k < length ys then Some (ys ! k) else None)" for ys
    by (induction ys) (auto simp: Let_def)
  from this [of "rev xs"] show ?thesis by (auto simp: innermost_def distance_def Let_def rev_nth)
qed

lemma distance_snoc: "distance p (xs @ [x]) = (if p x then Some 1 else map_option Suc (distance p xs))"
  by (simp add: distance_def Let_def)

lemma cursor_at_top:
  assumes "cursor_arr.ok stack"
  shows "cursor_at api stack (map_option (\<lambda>d. arr_size stack - d) (distance p (arr_contents stack)))
    = Some (case innermost p (arr_contents stack) of None \<Rightarrow> null_cursor api | Some c \<Rightarrow> c)"
proof (cases "distance p (arr_contents stack)")
  case (Some d)
  with distance_bounds [OF Some] cursor_arr.contents_length [OF assms] cursor_arr.read_ok [OF assms, of "arr_size stack - d"]
  show ?thesis by (simp add: cursor_at_def innermost_distance)
qed (simp add: cursor_at_def innermost_distance)

lemma base_offset_top:
  assumes "cursor_arr.ok stack"
  shows "base_offset stack (map_option (\<lambda>d. arr_size stack - d) (distance p (arr_contents stack)))
    = (case distance p (arr_contents stack) of None \<Rightarrow> ANCESTOR_NOT_FOUND | Some d \<Rightarrow> d)"
proof (cases "distance p (arr_contents stack)")
  case (Some d)
  have "d \<le> arr_size stack" "arr_size stack < SIZE_LIMIT"
    using distance_bounds [OF Some] cursor_arr.contents_length [OF assms] assms by (auto simp: cursor_arr.ok_def)
  with Some show ?thesis by (simp add: base_offset_def sz_sub_exact)
qed (simp add: base_offset_def)

lemmas scan_top = cursor_arr.scan_down_top cursor_arr.scan_down_top [unfolded One_nat_def]

lemma pop_cursor_ok:
  assumes "cursor_arr.ok stack"
  shows "cursor_arr.ok (pop_cursor stack) \<and> arr_contents (pop_cursor stack) = butlast (arr_contents stack)"
proof (cases "arr_size stack = 0")
  case True
  then show ?thesis using assms by (simp add: pop_cursor_def arr_contents_def arr_elems_def)
next
  case False
  have "arr_size stack < SIZE_LIMIT" "arr_size stack \<le> length (arr_data stack)"
    using assms by (auto simp: cursor_arr.ok_def)
  with False have "arr_elems (pop_cursor stack) = butlast (arr_elems stack)" "arr_size (pop_cursor stack) = arr_size stack - 1"
    by (simp_all add: pop_cursor_def arr_elems_def sz_sub_one butlast_take)
  with assms False show ?thesis
    by (auto simp: cursor_arr.ok_def arr_contents_def pop_cursor_def map_butlast dest: in_set_butlastD)
qed

text \<open>The definition of a called function is looked for among the top-level declarations of
  all translation units; a later unit overrides an earlier one.\<close>

definition find_call_definition_visitor ::
  "'c clang \<Rightarrow> 'c \<Rightarrow> 'c \<Rightarrow> 'c \<Rightarrow> 'c \<Rightarrow> (visit_result \<times> 'c) option" where
  "find_call_definition_visitor api callexpr_cursor cursor parent callexpr_def =
     Some (if cursor_kind api cursor = CXCursor_FunctionDecl \<and> is_definition api cursor \<and>
              cursor_usr api callexpr_cursor = cursor_usr api cursor
           then (CXChildVisit_Break, cursor)
           else (CXChildVisit_Continue, callexpr_def))"

fun find_definition_loop :: "'c clang \<Rightarrow> 'c \<Rightarrow> 'c list \<Rightarrow> 'c \<Rightarrow> 'c option" where
  "find_definition_loop api callexpr_cursor [] callexpr_def = Some callexpr_def"
| "find_definition_loop api callexpr_cursor (tu_cursor # tus) callexpr_def =
     Option.bind (visit_children api (find_call_definition_visitor api callexpr_cursor) tu_cursor callexpr_def)
       (find_definition_loop api callexpr_cursor tus)"

text \<open>\<open>tu_cursors\<close>: the cursors of the translation units, one for each file.\<close>

definition find_callexpr_definition :: "'c clang \<Rightarrow> 'c list \<Rightarrow> 'c \<Rightarrow> 'c option" where
  "find_callexpr_definition api tu_cursors callexpr_cursor =
     find_definition_loop api callexpr_cursor tu_cursors (null_cursor api)"

section \<open>If statements and arguments\<close>

record 'c ifstmt_info =
  condition_block :: 'c
  then_block :: 'c
  else_block :: 'c

text \<open>The client data, and the static counter of the children seen.\<close>

definition get_ifstmt_info_visitor ::
  "'c \<Rightarrow> 'c \<Rightarrow> 'c ifstmt_info \<times> nat \<Rightarrow> (visit_result \<times> 'c ifstmt_info \<times> nat) option" where
  "get_ifstmt_info_visitor cursor parent = (\<lambda>(if_info, ifstmt_child_idx).
     Some (CXChildVisit_Continue,
       (if ifstmt_child_idx = 0 then if_info\<lparr>condition_block := cursor\<rparr>
        else if ifstmt_child_idx = 1 then if_info\<lparr>then_block := cursor\<rparr>
        else if_info\<lparr>else_block := cursor\<rparr>),
       sz_add ifstmt_child_idx 1))"

definition get_ifstmt_info :: "'c clang \<Rightarrow> 'c \<Rightarrow> 'c ifstmt_info option" where
  "get_ifstmt_info api ifstmt_cursor =
     map_option fst (visit_children api get_ifstmt_info_visitor ifstmt_cursor
       (\<lparr>condition_block = null_cursor api, then_block = null_cursor api, else_block = null_cursor api\<rparr>, 0))"

text \<open>\<open>clang_Cursor_getNumArguments\<close> is an \<open>int\<close> converted to \<open>unsigned\<close>.\<close>

definition to_unsigned :: "int \<Rightarrow> nat" where
  "to_unsigned i = nat (i mod 4294967296)"

fun param_idx_loop :: "'c clang \<Rightarrow> 'c c_array \<Rightarrow> 'c \<Rightarrow> nat list \<Rightarrow> nat option" where
  "param_idx_loop api stack call_expr [] = Some NO_IDX"
| "param_idx_loop api stack call_expr (i # is) =
     (case in_cursor_stack api stack (cursor_argument api call_expr i) of
        None \<Rightarrow> None
      | Some True \<Rightarrow> Some i
      | Some False \<Rightarrow> param_idx_loop api stack call_expr is)"

definition get_param_idx :: "'c clang \<Rightarrow> 'c \<Rightarrow> 'c c_array \<Rightarrow> nat option" where
  "get_param_idx api call_expr stack =
     param_idx_loop api stack call_expr [0..<to_unsigned (num_arguments api call_expr)]"

section \<open>System headers\<close>

definition contains_string :: "string \<Rightarrow> string \<Rightarrow> bool" where
  "contains_string s p \<longleftrightarrow> strstr s p \<noteq> None"

text \<open>\<open>None\<close>: the location has no file name, and NULL is compared or searched.\<close>

definition prong_is_system_header :: "'c clang \<Rightarrow> nat \<Rightarrow> string list \<Rightarrow> bool option" where
  "prong_is_system_header api loc file_names =
     (if in_system_header_loc api loc then Some True
      else map_option (\<lambda>path.
             if path \<in> set file_names then False
             else list_ex (contains_string path)
               [''/linux/'', ''include/linux'', ''arch/'', ''kernel/'', ''mm/'', ''fs/''])
           (location_file api loc))"

section \<open>Lemmas\<close>

lemma visit_all_continue:
  assumes "\<And>c s. v c p s = Some (CXChildVisit_Continue, f c s)"
  shows "visit_trees v p ts s = Some (False, fold (\<lambda>t s. f (ast_root t) s) ts s)"
proof (induction ts arbitrary: s)
  case (Cons t ts)
  then show ?case by (cases t) (simp add: assms)
qed simp

text \<open>A search that stops at the first child with a property.\<close>

lemma visit_search:
  assumes "\<And>c s. v c p s = Some (if P c then (CXChildVisit_Break, f c) else (CXChildVisit_Continue, s))"
  shows "map_option snd (visit_trees v p ts s)
    = Some (case List.find P (map ast_root ts) of None \<Rightarrow> s | Some c \<Rightarrow> f c)"
proof (induction ts arbitrary: s)
  case (Cons t ts)
  then show ?case by (cases t) (auto simp: assms)
qed simp

lemma first_child:
  "get_cursor_first_child api c = Some (case subtrees api c of [] \<Rightarrow> null_cursor api | t # ts \<Rightarrow> ast_root t)"
proof (cases "subtrees api c")
  case (Cons t ts)
  then show ?thesis
    by (cases t) (simp add: get_cursor_first_child_def visit_children_def get_first_child_visitor_def)
qed (simp add: get_cursor_first_child_def visit_children_def)

definition ifstmt_step :: "'c \<Rightarrow> 'c ifstmt_info \<times> nat \<Rightarrow> 'c ifstmt_info \<times> nat" where
  "ifstmt_step c s = snd (the (get_ifstmt_info_visitor c c s))"

lemma ifstmt_visitor: "get_ifstmt_info_visitor c p s = Some (CXChildVisit_Continue, ifstmt_step c s)"
  by (simp add: ifstmt_step_def get_ifstmt_info_visitor_def split: prod.split)

lemma ifstmt_fold:
  "2 \<le> k \<Longrightarrow> k + length ts < SIZE_LIMIT \<Longrightarrow>
    fst (fold (\<lambda>t. ifstmt_step (ast_root t)) ts (info, k))
      = (if ts = [] then info else info\<lparr>else_block := ast_root (last ts)\<rparr>)"
proof (induction ts arbitrary: info k)
  case (Cons t ts)
  then have "sz_add k 1 = Suc k" by (simp add: sz_add_exact)
  with Cons.prems have "ifstmt_step (ast_root t) (info, k) = (info\<lparr>else_block := ast_root t\<rparr>, Suc k)"
    by (simp add: ifstmt_step_def get_ifstmt_info_visitor_def)
  with Cons.prems Cons.IH [of "Suc k" "info\<lparr>else_block := ast_root t\<rparr>"] show ?case by simp
qed simp

lemma ifstmt_blocks:
  assumes "subtrees api c = t0 # t1 # ts" "length ts + 2 < SIZE_LIMIT"
  shows "get_ifstmt_info api c = Some
    \<lparr>condition_block = ast_root t0, then_block = ast_root t1,
     else_block = (if ts = [] then null_cursor api else ast_root (last ts))\<rparr>"
proof -
  have one: "sz_add 0 1 = 1" "sz_add 1 1 = 2" "sz_add (Suc 0) 1 = 2" "sz_add 0 (Suc 0) = Suc 0" "sz_add (Suc 0) (Suc 0) = 2"
    using assms(2) by (auto simp: sz_add_exact)
  let ?i = "\<lparr>condition_block = ast_root t0, then_block = ast_root t1, else_block = null_cursor api\<rparr>"
  have "ifstmt_step (ast_root t1) (ifstmt_step (ast_root t0)
      (\<lparr>condition_block = null_cursor api, then_block = null_cursor api, else_block = null_cursor api\<rparr>, 0)) = (?i, 2)"
    by (simp add: ifstmt_step_def get_ifstmt_info_visitor_def one)
  then show ?thesis
    using ifstmt_fold [of 2 ts ?i] assms(2)
    by (simp add: get_ifstmt_info_def visit_children_def assms(1)
        visit_all_continue [of get_ifstmt_info_visitor c ifstmt_step, OF ifstmt_visitor])
qed

definition calls_definition :: "'c clang \<Rightarrow> 'c \<Rightarrow> 'c \<Rightarrow> bool" where
  "calls_definition api call d \<longleftrightarrow>
     cursor_kind api d = CXCursor_FunctionDecl \<and> is_definition api d \<and> cursor_usr api d = cursor_usr api call"

text \<open>The first definition in the last unit that has one.\<close>

lemma definition_found:
  "find_definition_loop api call tus d0 = Some
     (fold (\<lambda>tu d. case List.find (calls_definition api call) (map ast_root (subtrees api tu)) of None \<Rightarrow> d | Some x \<Rightarrow> x) tus d0)"
proof (induction tus arbitrary: d0)
  case (Cons tu tus)
  have "visit_children api (find_call_definition_visitor api call) tu d0 =
      Some (case List.find (calls_definition api call) (map ast_root (subtrees api tu)) of None \<Rightarrow> d0 | Some x \<Rightarrow> x)"
    unfolding visit_children_def
    by (rule visit_search) (auto simp: find_call_definition_visitor_def calls_definition_def)
  with Cons.IH show ?case by simp
qed simp


section \<open>Properties\<close>

text \<open>C38: The searches over the ancestry stack count down with an unsigned index that wraps
  around at the end; on every stack, the empty one included, they find what a search of
  the reversed list finds, the innermost ancestor of a kind or the innermost assignment,
  with its distance from the top, and nothing else.\<close>
theorem stack_searches_agree_with_lists:
  assumes "cursor_arr.ok stack"
  shows "get_cursor_of_kind api stack k =
      Some (case innermost (\<lambda>c. cursor_kind api c = k) (arr_contents stack) of None \<Rightarrow> null_cursor api | Some c \<Rightarrow> c) \<and>
    get_cursor_offset_of_kind api stack k =
      Some (case distance (\<lambda>c. cursor_kind api c = k) (arr_contents stack) of None \<Rightarrow> ANCESTOR_NOT_FOUND | Some d \<Rightarrow> d) \<and>
    get_binop_assignment api stack =
      Some (case innermost (is_assignment api) (arr_contents stack) of None \<Rightarrow> null_cursor api | Some c \<Rightarrow> c) \<and>
    get_binop_assignment_offset api stack =
      Some (case distance (is_assignment api) (arr_contents stack) of None \<Rightarrow> ANCESTOR_NOT_FOUND | Some d \<Rightarrow> d) \<and>
    in_cursor_stack api stack c = Some (\<exists>x \<in> set (arr_contents stack). cursors_are_equal api x c)"
  using distance_None [of "\<lambda>x. cursors_are_equal api x c" "arr_contents stack"]
  by (auto simp: get_cursor_of_kind_def get_cursor_offset_of_kind_def get_binop_assignment_def
      get_binop_assignment_offset_def in_cursor_stack_def scan_top [OF assms]
      cursor_at_top [OF assms] base_offset_top [OF assms])

theorem stack_searches_agree_with_lists_witness:
  "\<forall>api :: nat clang. get_cursor_of_kind api init_cursor_array CXCursor_CallExpr = Some (null_cursor api) \<and>
     get_cursor_offset_of_kind api init_cursor_array CXCursor_CallExpr = Some ANCESTOR_NOT_FOUND"
proof
  fix api :: "nat clang"
  show "get_cursor_of_kind api init_cursor_array CXCursor_CallExpr = Some (null_cursor api) \<and>
     get_cursor_offset_of_kind api init_cursor_array CXCursor_CallExpr = Some ANCESTOR_NOT_FOUND"
    using stack_searches_agree_with_lists [OF init_cursor_array_ok(1), of api CXCursor_CallExpr]
    by (simp add: init_cursor_array_ok(2) innermost_def distance_def)
qed

text \<open>The ancestry stack is a stack: although its first block is allocated with the size of
  the wrong structure, every push succeeds, puts the cursor on top and keeps the others,
  and a pop takes exactly it away again; an empty stack is left alone.\<close>
theorem cursor_stack_discipline:
  assumes "push_list (push_cursor al) init_cursor_array cs = Some stack" "never_fails al" "length cs < ARR_LIMIT"
  shows "\<exists>stack'. push_cursor al stack c = Some stack' \<and> arr_contents stack' = cs @ [c] \<and>
    get_cursor_array_tail stack' = Some c \<and> arr_contents (pop_cursor stack') = cs \<and>
    arr_contents (pop_cursor stack) = butlast cs"
proof -
  have eq: "push_cursor al = arr_push push_cursor_full SIZEOF_CURSOR al" by (simp add: push_cursor_def fun_eq_iff)
  have stack: "cursor_arr.ok stack" "arr_contents stack = cs"
    using cursor_arr.push_list_ok [OF init_cursor_array_ok(1), of cs al] assms init_cursor_array_ok(2)
    by (auto simp: eq init_cursor_array_def)
  have size: "arr_size stack = length cs" using cursor_arr.contents_length [OF stack(1)] stack(2) by simp
  obtain stack' where s: "push_cursor al stack c = Some stack'" "cursor_arr.ok stack'"
      "arr_contents stack' = cs @ [c]" "arr_size stack' = Suc (length cs)"
    using cursor_arr.push_ok [OF stack(1), of al c] assms(2,3) stack(2) size by (auto simp: eq)
  have "sz_sub (arr_size stack') 1 = length cs" using s(2,4) by (simp add: sz_sub_one cursor_arr.ok_def)
  then have "get_cursor_array_tail stack' = Some c"
    using cursor_arr.read_ok [OF s(2), of "length cs"] s(3,4) by (simp add: get_cursor_array_tail_def)
  then show ?thesis using s pop_cursor_ok [OF s(2)] pop_cursor_ok [OF stack(1)] stack(2) by auto
qed

theorem cursor_stack_discipline_witness:
  "\<exists>stack'. push_cursor (\<lambda>n. Some 0) (init_cursor_array :: nat c_array) 7 = Some stack' \<and>
    get_cursor_array_tail stack' = Some 7 \<and> arr_contents (pop_cursor stack') = []"
  using cursor_stack_discipline [of "\<lambda>n. Some 0" "[]" "init_cursor_array :: nat c_array" 7]
  by (auto simp: never_fails_def ARR_LIMIT_def)

end
