(* ===== verification/Visitor.thy ===== *)
theory Visitor
  imports Cursor_Arr Cmdline
begin

text \<open>
  The two visitors of \<open>src/core.c\<close> (lines 10 to 687): \<open>prong_visitor_walk_ast\<close> collects the
  functions named on the command line and the USRs of the globals,
  \<open>prong_visitor_walk_func\<close> walks a function body, keeps the stack of ancestors, records
  locals, parameters, markers of branches, accesses and calls, and descends into callees.

  The ancestry stack is the list of its elements, innermost last (Cursor\_Arr shows that
  the searches over the array are those over this list).  \<open>current_func\<close> is the value
  of the record the pointer denotes: while a callee is walked only its own record
  grows, and it is stored back as the last callee of its caller afterwards.

  Undefined behaviour ends a walk with a fault.  The nesting of walks into callees is bounded
  by a parameter; Visited shows how much is enough.
\<close>

section \<open>State\<close>

datatype fault = Buffer_Overflow | Undefined | Out_Of_Fuel

definition sbind :: "'e + 'a \<Rightarrow> ('a \<Rightarrow> 'e + 'b) \<Rightarrow> 'e + 'b" where
  "sbind r f = (case r of Inl e \<Rightarrow> Inl e | Inr x \<Rightarrow> f x)"

lemma sbind_simps [simp]: "sbind (Inl e) f = Inl e" "sbind (Inr x) f = f x"
  by (simp_all add: sbind_def)

lemma sbind_Inr: "sbind r f = Inr y \<longleftrightarrow> (\<exists>x. r = Inr x \<and> f x = Inr y)"
  by (cases r) simp_all

definition defined :: "'a option \<Rightarrow> fault + 'a" where
  "defined x = (case x of None \<Rightarrow> Inl Undefined | Some y \<Rightarrow> Inr y)"

lemma defined_simps [simp]: "defined (Some x) = Inr x" "defined None = Inl Undefined"
  by (simp_all add: defined_def)

lemma defined_Inr: "defined x = Inr y \<longleftrightarrow> x = Some y"
  by (cases x) simp_all

text \<open>What does not change during the walks: the library, the cursors of the translation
  units, the names of the source files and the tracking option; and \<open>last_visited\<close>
  before the first visit, a record of zeroes.\<close>

record 'c env =
  env_api :: "'c clang"
  env_tu_cursors :: "'c list"
  env_file_names :: "string list"
  env_track_locking :: bool
  env_zero_cursor :: 'c

record 'c walk =
  ancestry_stack :: "'c list"
  last_visited :: 'c
  current_func :: "'c func_info"
  touched_func_usrs :: "string list"
  next_block :: nat

abbreviation upd_func :: "('c func_info \<Rightarrow> 'c func_info) \<Rightarrow> 'c walk \<Rightarrow> 'c walk" where
  "upd_func g w \<equiv> w\<lparr>current_func := g (current_func w)\<rparr>"

definition push_stack :: "'c \<Rightarrow> 'c walk \<Rightarrow> 'c walk" where
  "push_stack c w = w\<lparr>ancestry_stack := ancestry_stack w @ [c]\<rparr>"

section \<open>Searches over the stack\<close>

definition ancestor_of_kind :: "'c clang \<Rightarrow> 'c list \<Rightarrow> cursor_kind \<Rightarrow> 'c" where
  "ancestor_of_kind api stack k =
     (case innermost (\<lambda>c. cursor_kind api c = k) stack of None \<Rightarrow> null_cursor api | Some c \<Rightarrow> c)"

definition offset_of_kind :: "'c clang \<Rightarrow> 'c list \<Rightarrow> cursor_kind \<Rightarrow> nat" where
  "offset_of_kind api stack k =
     (case distance (\<lambda>c. cursor_kind api c = k) stack of None \<Rightarrow> ANCESTOR_NOT_FOUND | Some d \<Rightarrow> d)"

definition assignment_above :: "'c clang \<Rightarrow> 'c list \<Rightarrow> 'c" where
  "assignment_above api stack =
     (case innermost (is_assignment api) stack of None \<Rightarrow> null_cursor api | Some c \<Rightarrow> c)"

definition assignment_offset :: "'c clang \<Rightarrow> 'c list \<Rightarrow> nat" where
  "assignment_offset api stack =
     (case distance (is_assignment api) stack of None \<Rightarrow> ANCESTOR_NOT_FOUND | Some d \<Rightarrow> d)"

definition on_stack :: "'c clang \<Rightarrow> 'c list \<Rightarrow> 'c \<Rightarrow> bool" where
  "on_stack api stack c \<longleftrightarrow> list_ex (\<lambda>x. cursors_are_equal api x c) stack"

definition param_idx :: "'c clang \<Rightarrow> 'c \<Rightarrow> 'c list \<Rightarrow> nat" where
  "param_idx api call_expr stack =
     (case List.find (\<lambda>i. on_stack api stack (cursor_argument api call_expr i))
             [0..<to_unsigned (num_arguments api call_expr)] of
        None \<Rightarrow> NO_IDX | Some i \<Rightarrow> i)"

text \<open>They are the operations on the array.\<close>

lemma param_idx_refines:
  assumes "cursor_arr.ok stack"
  shows "get_param_idx api call_expr stack = Some (param_idx api call_expr (arr_contents stack))"
proof -
  have on: "in_cursor_stack api stack c = Some (on_stack api (arr_contents stack) c)" for c
    using distance_None [of "\<lambda>x. cursors_are_equal api x c" "arr_contents stack"]
    by (auto simp: in_cursor_stack_def on_stack_def list_ex_iff scan_top [OF assms])
  have "param_idx_loop api stack call_expr is = Some (case List.find
      (\<lambda>i. on_stack api (arr_contents stack) (cursor_argument api call_expr i)) is of None \<Rightarrow> NO_IDX | Some i \<Rightarrow> i)" for "is"
    by (induction "is") (auto simp: on split: bool.split)
  then show ?thesis by (simp add: get_param_idx_def param_idx_def)
qed

section \<open>Recording accesses\<close>

text \<open>The list of accesses is created on first use.\<close>

definition push_access :: "var_access \<Rightarrow> 'c func_info \<Rightarrow> 'c func_info" where
  "push_access va f =
     set_var_accesses (Some ((case fi_var_accesses f of None \<Rightarrow> [] | Some vas \<Rightarrow> vas) @ [va])) f"

definition touch_accesses :: "'c func_info \<Rightarrow> 'c func_info" where
  "touch_accesses f =
     set_var_accesses (Some (case fi_var_accesses f of None \<Rightarrow> [] | Some vas \<Rightarrow> vas)) f"

text \<open>A marker has no strings of its own.\<close>

definition marker :: "var_access_type \<Rightarrow> 'c func_info \<Rightarrow> var_access" where
  "marker t f = fst (init_var_access 0 None None None None (fi_spelling f) NO_IDX 0 0 t False)"

definition push_marker :: "var_access_type \<Rightarrow> 'c func_info \<Rightarrow> 'c func_info" where
  "push_marker t f = push_access (marker t f) f"

section \<open>The ancestry stack\<close>

text \<open>Cursors are popped down to the parent of the current one; leaving an if statement is
  marked.  The stack is reversed.\<close>

fun pop_to_parent ::
  "'c clang \<Rightarrow> bool \<Rightarrow> 'c \<Rightarrow> 'c list \<Rightarrow> 'c func_info \<Rightarrow> 'c list \<times> 'c func_info" where
  "pop_to_parent api track parent [] f = ([], f)"
| "pop_to_parent api track parent (tail # rest) f =
     (if cursors_are_equal api tail parent then (tail # rest, f)
      else pop_to_parent api track parent rest
             (if cursor_kind api tail = CXCursor_IfStmt \<and> track then push_marker VarAccess_EndIf f else f))"

definition track_ancestry :: "'c env \<Rightarrow> 'c \<Rightarrow> 'c \<Rightarrow> 'c walk \<Rightarrow> 'c walk" where
  "track_ancestry en current parent w =
     (let api = env_api en;
          w1 = (if cursor_is_null api (last_visited w) then push_stack parent w
                else if \<not> cursor_is_null api parent \<and> cursors_are_equal api parent (last_visited w)
                then push_stack parent w
                else (case pop_to_parent api (env_track_locking en) parent
                             (rev (ancestry_stack w)) (current_func w) of
                        (stack, f) \<Rightarrow> w\<lparr>ancestry_stack := rev stack, current_func := f\<rparr>))
      in w1\<lparr>last_visited := current\<rparr>)"

text \<open>Declarations inside the function.\<close>

definition record_declaration :: "'c clang \<Rightarrow> 'c \<Rightarrow> 'c func_info \<Rightarrow> 'c func_info" where
  "record_declaration api current f =
     (if cursor_linkage api current = CXLinkage_NoLinkage
      then (case cursor_kind api current of
              CXCursor_VarDecl \<Rightarrow> add_local (cursor_usr api current) f
            | CXCursor_ParmDecl \<Rightarrow> add_param (cursor_usr api current) f
            | _ \<Rightarrow> f)
      else f)"

definition record_block :: "'c env \<Rightarrow> 'c \<Rightarrow> 'c \<Rightarrow> 'c func_info \<Rightarrow> fault + 'c func_info" where
  "record_block en current parent f =
     (let api = env_api en
      in if env_track_locking en \<and> cursor_kind api parent = CXCursor_IfStmt
         then sbind (defined (get_ifstmt_info api parent)) (\<lambda>info.
              Inr (if cursors_are_equal api current (then_block info)
                   then push_marker VarAccess_ThenBlock f
                   else if \<not> cursor_is_null api (else_block info) \<and> cursors_are_equal api current (else_block info)
                   then push_marker VarAccess_ElseStmt f
                   else touch_accesses f))
         else Inr f)"

definition record_if :: "'c env \<Rightarrow> 'c \<Rightarrow> 'c func_info \<Rightarrow> 'c func_info" where
  "record_if en current f =
     (if env_track_locking en \<and> cursor_kind (env_api en) current = CXCursor_IfStmt
      then push_marker VarAccess_IfStmt f else f)"

section \<open>References\<close>

text \<open>The name and the USR of an access are put together in buffers on the stack.\<close>

definition DECL_NAME_BUFFER :: nat where
  "DECL_NAME_BUFFER = 256"

definition DECL_USR_BUFFER :: nat where
  "DECL_USR_BUFFER = 384"

definition append_buffer :: "nat \<Rightarrow> string \<Rightarrow> string \<Rightarrow> fault + string" where
  "append_buffer cap s t = (if length s + length t < cap then Inr (s @ t) else Inl Buffer_Overflow)"

text \<open>The loop over the enclosing member expressions, innermost member first.\<close>

fun member_path ::
  "'c clang \<Rightarrow> 'c list \<Rightarrow> 'c \<Rightarrow> string \<times> string \<Rightarrow> fault + string \<times> string" where
  "member_path api [] previous_memberref (name, usr) = Inr (name, usr)"
| "member_path api (member_cursor # cs) previous_memberref (name, usr) =
     (if cursor_kind api member_cursor = CXCursor_MemberRefExpr
      then let member_referenced = cursor_referenced api member_cursor;
               member_spelling = cursor_spelling api member_referenced;
               sep = (if cursor_type_kind api previous_memberref = CXType_Pointer then ''->'' else ''.'')
           in sbind (append_buffer DECL_NAME_BUFFER name (sep @ member_spelling)) (\<lambda>name1.
              sbind (append_buffer DECL_USR_BUFFER usr (''::'' @ member_spelling)) (\<lambda>usr1.
              member_path api cs member_referenced (name1, usr1)))
      else member_path api cs previous_memberref (name, usr))"

text \<open>The cursors \<open>data[stack_size-i]\<close> for \<open>i\<close> from the offset to the size, exclusive: the
  outermost element is never looked at.\<close>

definition member_cursors :: "'c list \<Rightarrow> nat \<Rightarrow> 'c list" where
  "member_cursors stack offset = map (\<lambda>i. stack ! (length stack - i)) [offset..<length stack]"

definition reference_strings :: "'c clang \<Rightarrow> 'c \<Rightarrow> 'c list \<Rightarrow> fault + string \<times> string" where
  "reference_strings api referenced_cursor stack =
     sbind (append_buffer DECL_NAME_BUFFER [] (cursor_display_name api referenced_cursor)) (\<lambda>name.
     sbind (append_buffer DECL_USR_BUFFER [] (cursor_usr api referenced_cursor)) (\<lambda>usr.
     let offset = offset_of_kind api stack CXCursor_MemberRefExpr
     in if offset \<noteq> ANCESTOR_NOT_FOUND
        then member_path api (member_cursors stack offset) referenced_cursor (name, usr)
        else Inr (name, usr)))"

fun is_ptr_kind :: "type_kind \<Rightarrow> bool" where
  "is_ptr_kind CXType_OtherType = False"
| "is_ptr_kind _ = True"

text \<open>The left operand of an assignment, or the array of a subscript: the first child.\<close>

definition first_child :: "'c clang \<Rightarrow> 'c \<Rightarrow> 'c" where
  "first_child api c = (case subtrees api c of [] \<Rightarrow> null_cursor api | t # ts \<Rightarrow> ast_root t)"

lemma first_child_refines: "get_cursor_first_child api c = Some (first_child api c)"
  by (simp add: first_child first_child_def)

definition within :: "'c clang \<Rightarrow> 'c list \<Rightarrow> 'c \<Rightarrow> 'c \<Rightarrow> bool" where
  "within api stack current lhs \<longleftrightarrow> cursors_are_equal api current lhs \<or> on_stack api stack lhs"

text \<open>What kind of access a reference is; the boolean tells that it belongs to a call.
  \<open>None\<close>: nothing is recorded.\<close>

definition classify_argument :: "'c clang \<Rightarrow> 'c list \<Rightarrow> bool \<Rightarrow> var_access_type" where
  "classify_argument api stack is_ptr_type =
     (let unop_offset = offset_of_kind api stack CXCursor_UnaryOperator
      in if unop_offset < offset_of_kind api stack CXCursor_CallExpr \<and>
            unop_offset < offset_of_kind api stack CXCursor_ArraySubscriptExpr
         then (if cursor_unop api (ancestor_of_kind api stack CXCursor_UnaryOperator) = CXUnaryOperator_AddrOf
               then VarAccess_Escape else VarAccess_Read)
         else if is_ptr_type then VarAccess_Escape else VarAccess_Read)"

definition classify_subscript :: "'c clang \<Rightarrow> 'c list \<Rightarrow> 'c \<Rightarrow> var_access_type option" where
  "classify_subscript api stack current =
     (if within api stack current (first_child api (ancestor_of_kind api stack CXCursor_ArraySubscriptExpr))
      then (if assignment_offset api stack \<noteq> ANCESTOR_NOT_FOUND
            then Some (if within api stack current (first_child api (assignment_above api stack))
                       then VarAccess_PtrWrite else VarAccess_PtrRead)
            else None)
      else Some VarAccess_Read)"

definition classify_unary :: "'c clang \<Rightarrow> 'c list \<Rightarrow> 'c \<Rightarrow> var_access_type" where
  "classify_unary api stack current =
     (let unop_kind = cursor_unop api (ancestor_of_kind api stack CXCursor_UnaryOperator);
          binop_lhs = first_child api (assignment_above api stack);
          non_assign_binop_lhs = first_child api (ancestor_of_kind api stack CXCursor_BinaryOperator)
      in if unop_kind = CXUnaryOperator_Deref
         then (if assignment_offset api stack \<noteq> ANCESTOR_NOT_FOUND
               then (if within api stack current binop_lhs
                     then (if cursors_are_equal api current binop_lhs \<or> on_stack api stack non_assign_binop_lhs
                           then VarAccess_PtrWrite else VarAccess_Read)
                     else VarAccess_PtrRead)
               else VarAccess_PtrRead)
         else if unop_kind \<in> set [CXUnaryOperator_PreInc, CXUnaryOperator_PostInc,
                                 CXUnaryOperator_PreDec, CXUnaryOperator_PostDec]
         then VarAccess_Write
         else VarAccess_Read)"

definition classify_reference ::
  "'c clang \<Rightarrow> 'c list \<Rightarrow> 'c \<Rightarrow> bool \<Rightarrow> (var_access_type \<times> bool) option" where
  "classify_reference api stack current is_ptr_type =
     (let binop = assignment_offset api stack;
          unop = offset_of_kind api stack CXCursor_UnaryOperator;
          arrsubexp = offset_of_kind api stack CXCursor_ArraySubscriptExpr;
          callexpr = offset_of_kind api stack CXCursor_CallExpr
      in if callexpr < binop \<and> callexpr < arrsubexp
         then Some (classify_argument api stack is_ptr_type, True)
         else if arrsubexp < binop \<and> arrsubexp < unop
         then map_option (\<lambda>t. (t, False)) (classify_subscript api stack current)
         else if unop < binop \<and> unop < arrsubexp
         then Some (classify_unary api stack current, False)
         else if binop < unop \<and> binop < arrsubexp
         then Some (if within api stack current (first_child api (assignment_above api stack))
                    then VarAccess_Write else VarAccess_Read, False)
         else Some (VarAccess_Read, False))"

definition reference_access ::
  "'c clang \<Rightarrow> nat \<Rightarrow> 'c list \<Rightarrow> 'c \<Rightarrow> string \<times> string \<Rightarrow> bool \<Rightarrow> var_access_type \<times> bool \<Rightarrow>
   char_ptr \<Rightarrow> var_access \<times> nat" where
  "reference_access api h stack current = (\<lambda>(name, usr) is_ptr_type (t, in_call) spelling.
     let call = ancestor_of_kind api stack CXCursor_CallExpr;
         callexpr_decl = cursor_referenced api call;
         location = cursor_location api current
     in init_var_access h (Some usr) (Some name)
          (if in_call then Some (cursor_spelling api callexpr_decl) else None)
          (if in_call then Some (cursor_usr api callexpr_decl) else None)
          spelling
          (if in_call then param_idx api call stack else NO_IDX)
          (presumed_line api location) (presumed_column api location) t is_ptr_type)"

definition record_reference :: "'c env \<Rightarrow> 'c \<Rightarrow> 'c walk \<Rightarrow> fault + 'c walk" where
  "record_reference en current w =
     (let api = env_api en;
          w1 = upd_func touch_accesses w;
          referenced = cursor_referenced api current;
          is_ptr_type = is_ptr_kind (cursor_type_kind api referenced)
      in if cursor_kind api referenced \<noteq> CXCursor_VarDecl \<and> cursor_kind api referenced \<noteq> CXCursor_ParmDecl
         then Inr w1
         else sbind (reference_strings api referenced (ancestry_stack w1)) (\<lambda>strings.
              case classify_reference api (ancestry_stack w1) current is_ptr_type of
                None \<Rightarrow> Inr w1
              | Some kind \<Rightarrow>
                  (case reference_access api (next_block w1) (ancestry_stack w1) current strings is_ptr_type kind
                          (fi_spelling (current_func w1)) of
                     (va, h) \<Rightarrow> Inr (upd_func (push_access va) (w1\<lparr>next_block := h\<rparr>)))))"

section \<open>Calls\<close>

definition callee_cursor :: "'c env \<Rightarrow> 'c \<Rightarrow> fault + 'c" where
  "callee_cursor en callee_decl =
     (let api = env_api en
      in if is_definition api callee_decl then Inr callee_decl
         else sbind (defined (find_callexpr_definition api (env_tu_cursors en) callee_decl)) (\<lambda>working_cursor.
              Inr (if cursor_is_null api working_cursor then callee_decl else working_cursor)))"

text \<open>The callee gets its record and its marker; what is there afterwards is the state and
  the new record, the last of the callees.\<close>

definition push_callee :: "'c func_info \<Rightarrow> 'c func_info \<Rightarrow> 'c func_info" where
  "push_callee g f = set_callees (Some ((case fi_callees f of None \<Rightarrow> [] | Some cs \<Rightarrow> cs) @ [g])) f"

definition set_last_callee :: "'c func_info \<Rightarrow> 'c func_info \<Rightarrow> 'c func_info" where
  "set_last_callee g f = set_callees (map_option (\<lambda>cs. butlast cs @ [g]) (fi_callees f)) f"

definition enter_callee :: "'c env \<Rightarrow> 'c \<Rightarrow> 'c walk \<Rightarrow> fault + 'c func_info \<times> 'c walk" where
  "enter_callee en working_cursor w =
     (let api = env_api en;
          usr = cursor_usr api working_cursor;
          spelling = cursor_spelling api working_cursor
      in sbind (defined (prong_is_system_header api (cursor_location api working_cursor) (env_file_names en))) (\<lambda>in_header.
         case init_func_info (next_block w) (Some working_cursor) (Some usr)
                (Some (cursor_display_name api working_cursor)) (Some spelling) in_header
                (is_definition api working_cursor) of
           (g, h1) \<Rightarrow>
             (case init_var_access h1 None None (Some spelling) (Some usr) (fi_spelling (current_func w)) NO_IDX 0 0
                     VarAccess_Call False of
                (va, h2) \<Rightarrow>
                  Inr (g, upd_func (push_access va \<circ> push_callee g)
                            (w\<lparr>touched_func_usrs := touched_func_usrs w @ [usr], next_block := h2\<rparr>)))))"

definition record_call ::
  "'c env \<Rightarrow> ('c func_info \<Rightarrow> 'c walk \<Rightarrow> fault + 'c func_info \<times> 'c walk) \<Rightarrow> 'c \<Rightarrow> 'c walk \<Rightarrow> fault + 'c walk" where
  "record_call en process current w =
     (let api = env_api en; callee_decl = cursor_referenced api current
      in if cursor_is_null api callee_decl then Inr (push_stack current w)
         else sbind (callee_cursor en callee_decl) (\<lambda>working_cursor.
              if cursor_usr api working_cursor \<in> set (touched_func_usrs w)
              then Inr (push_stack current w)
              else sbind (enter_callee en working_cursor w) (\<lambda>(g, w1).
                   if fi_in_system_header g \<or> \<not> fi_has_definition g
                   then Inr (push_stack current w1)
                   else sbind (process g w1) (\<lambda>(g', w2).
                        Inr (push_stack current (upd_func (set_last_callee g') w2))))))"

section \<open>The visitor of a function\<close>

definition walk_markers :: "'c env \<Rightarrow> 'c \<Rightarrow> 'c \<Rightarrow> 'c walk \<Rightarrow> fault + 'c walk" where
  "walk_markers en current parent w =
     (let w1 = upd_func (record_declaration (env_api en) current) (track_ancestry en current parent w)
      in sbind (record_block en current parent (current_func w1)) (\<lambda>f.
         Inr (w1\<lparr>current_func := record_if en current f\<rparr>)))"

definition walk_node ::
  "'c env \<Rightarrow> ('c func_info \<Rightarrow> 'c walk \<Rightarrow> fault + 'c func_info \<times> 'c walk) \<Rightarrow> 'c \<Rightarrow> 'c walk \<Rightarrow> fault + 'c walk" where
  "walk_node en process current w =
     (if cursor_kind (env_api en) current = CXCursor_DeclRefExpr then record_reference en current w
      else if cursor_kind (env_api en) current = CXCursor_CallExpr then record_call en process current w
      else Inr w)"

definition walk_func ::
  "'c env \<Rightarrow> ('c func_info \<Rightarrow> 'c walk \<Rightarrow> fault + 'c func_info \<times> 'c walk) \<Rightarrow> 'c \<Rightarrow> 'c \<Rightarrow> 'c walk \<Rightarrow> fault + 'c walk" where
  "walk_func en process current parent w =
     sbind (walk_markers en current parent w) (walk_node en process current)"

text \<open>As a visitor: the client data may already be a fault, which ends the traversal.\<close>

definition prong_visitor_walk_func ::
  "'c env \<Rightarrow> ('c func_info \<Rightarrow> 'c walk \<Rightarrow> fault + 'c func_info \<times> 'c walk) \<Rightarrow> 'c \<Rightarrow> 'c \<Rightarrow> fault + 'c walk \<Rightarrow>
   (visit_result \<times> (fault + 'c walk)) option" where
  "prong_visitor_walk_func en process current parent r =
     Some (case sbind r (walk_func en process current parent) of
             Inl e \<Rightarrow> (CXChildVisit_Break, Inl e)
           | Inr w \<Rightarrow> (CXChildVisit_Recurse, Inr w))"

text \<open>\<open>current_func\<close> is put back after the walk.  The first argument bounds the nesting.\<close>

primrec process_func_info ::
  "nat \<Rightarrow> 'c env \<Rightarrow> 'c func_info \<Rightarrow> 'c walk \<Rightarrow> fault + 'c func_info \<times> 'c walk" where
  "process_func_info 0 en func_info w = Inl Out_Of_Fuel"
| "process_func_info (Suc n) en func_info w =
     (case fi_cursor func_info of
        None \<Rightarrow> Inl Undefined
      | Some c \<Rightarrow>
          sbind (defined (visit_children (env_api en) (prong_visitor_walk_func en (process_func_info n en)) c
                   (Inr (w\<lparr>current_func := func_info\<rparr>)))) (\<lambda>r.
          sbind r (\<lambda>w1. Inr (current_func w1, w1\<lparr>current_func := current_func w\<rparr>))))"

section \<open>Collecting functions and globals\<close>

record 'c collection =
  col_funcs :: "'c func_info list"
  col_global_usrs :: "string list"
  col_next_block :: nat

text \<open>One name of the command line: a function of that name with as many parameters as the
  call has arguments is registered.  When the name has no parenthesis nothing was written
  to the buffer that is compared.  \<open>count-1\<close> is computed on \<open>size_t\<close>.\<close>

definition match_function :: "'c clang \<Rightarrow> 'c \<Rightarrow> string \<Rightarrow> 'c collection \<Rightarrow> fault + 'c collection" where
  "match_function api parent func_name s =
     (case snd (parse_func_call (Some func_name) (Some [])) of
        None \<Rightarrow> Inl Undefined
      | Some parsed \<Rightarrow>
          if parsed = [] then Inl Undefined
          else if parsed ! 0 = cursor_spelling api parent \<and>
                  int (sz_sub (length parsed) 1) = num_arguments api parent mod int SIZE_LIMIT
          then (case init_func_info (col_next_block s) (Some parent) (Some (cursor_usr api parent))
                       (Some (cursor_display_name api parent)) (Some (cursor_spelling api parent)) False True of
                  (f, h) \<Rightarrow> Inr (s\<lparr>col_funcs := col_funcs s @ [f], col_next_block := h\<rparr>))
          else Inr s)"

fun match_functions :: "'c clang \<Rightarrow> 'c \<Rightarrow> string list \<Rightarrow> 'c collection \<Rightarrow> fault + 'c collection" where
  "match_functions api parent [] s = Inr s"
| "match_functions api parent (func_name # names) s =
     sbind (match_function api parent func_name s) (match_functions api parent names)"

definition walk_ast :: "'c clang \<Rightarrow> string list \<Rightarrow> 'c \<Rightarrow> 'c \<Rightarrow> 'c collection \<Rightarrow> fault + visit_result \<times> 'c collection" where
  "walk_ast api func_names current parent s =
     (if in_system_header_loc api (cursor_location api current) then Inr (CXChildVisit_Continue, s)
      else if cursor_kind api current = CXCursor_CompoundStmt \<and> cursor_kind api parent = CXCursor_FunctionDecl
      then sbind (match_functions api parent func_names s) (\<lambda>s1. Inr (CXChildVisit_Continue, s1))
      else if cursor_kind api current = CXCursor_VarDecl
      then Inr (CXChildVisit_Continue,
             if cursor_linkage api current = CXLinkage_External \<or> cursor_linkage api current = CXLinkage_Internal
             then s\<lparr>col_global_usrs := col_global_usrs s @ [cursor_usr api current]\<rparr> else s)
      else Inr (CXChildVisit_Recurse, s))"

definition prong_visitor_walk_ast ::
  "'c clang \<Rightarrow> string list \<Rightarrow> 'c \<Rightarrow> 'c \<Rightarrow> fault + 'c collection \<Rightarrow> (visit_result \<times> (fault + 'c collection)) option" where
  "prong_visitor_walk_ast api func_names current parent r =
     Some (case sbind r (walk_ast api func_names current parent) of
             Inl e \<Rightarrow> (CXChildVisit_Break, Inl e)
           | Inr (v, s) \<Rightarrow> (v, Inr s))"

fun process_tu_array :: "'c clang \<Rightarrow> string list \<Rightarrow> 'c list \<Rightarrow> 'c collection \<Rightarrow> fault + 'c collection" where
  "process_tu_array api func_names [] s = Inr s"
| "process_tu_array api func_names (tu_cursor # tus) s =
     sbind (defined (visit_children api (prong_visitor_walk_ast api func_names) tu_cursor (Inr s))) (\<lambda>r.
     sbind r (process_tu_array api func_names tus))"

end
