(* ===== verification/Pipeline.thy ===== *)
theory Pipeline
  imports Visitor Overlap
begin

text \<open>
  The program as a whole (\<open>src/prong.c\<close>): command line, lock pairs, parsing and diagnostics,
  collection of the functions, the walk over each, unwinding, footprints and the
  comparisons, with the error each stage returns.  Of the output only the reports of the
  comparisons are kept.

  What is outside the program is one record: the answers of \<open>glob\<close>, of the allocator and of
  the compiler library, the translation units the parsing threads left for the files,
  what uninitialised memory holds and the blocks the protection arrays of one
  comparison start in.
\<close>

section \<open>The outside\<close>

datatype severity = CXDiagnostic_Warning | CXDiagnostic_Error | CXDiagnostic_Fatal | CXDiagnostic_Other

record 'c tu =
  tu_cursor :: 'c
  tu_diagnostics :: "severity list"

record 'c world =
  w_glob :: "string \<Rightarrow> glob_result"
  w_api :: "'c clang"
  w_zero_cursor :: 'c
  w_units :: "cmdline \<Rightarrow> 'c tu option list"
  w_alloc :: allocator
  w_junk :: "lock_primitive_pair list"
  w_blocks :: "nat \<Rightarrow> nat \<Rightarrow> (allocator \<times> int) \<times> (allocator \<times> int)"
  w_source :: "'c source_info"

section \<open>Stages\<close>

text \<open>The diagnostics of one unit: any error or fatal error stops the program.  A unit that no
  thread parsed is a pointer nobody wrote.\<close>

definition has_error :: "severity list \<Rightarrow> bool" where
  "has_error diags \<longleftrightarrow> list_ex (\<lambda>d. d = CXDiagnostic_Error \<or> d = CXDiagnostic_Fatal) diags"

fun check_diagnostics :: "'c tu option list \<Rightarrow> fault + prong_error" where
  "check_diagnostics [] = Inr ERR_OK"
| "check_diagnostics (None # us) = Inl Undefined"
| "check_diagnostics (Some u # us) =
     (if has_error (tu_diagnostics u) then Inr ERR_SYNTAX else check_diagnostics us)"

fun walk_functions ::
  "nat \<Rightarrow> 'c env \<Rightarrow> 'c func_info list \<Rightarrow> 'c walk \<Rightarrow> fault + 'c func_info list \<times> 'c walk" where
  "walk_functions n en [] w = Inr ([], w)"
| "walk_functions n en (f # fs) w =
     sbind (process_func_info n en f w) (\<lambda>(f', w1).
     sbind (walk_functions n en fs w1) (\<lambda>(fs', w2). Inr (f' # fs', w2)))"

text \<open>The \<open>i\<close>-th registered function is unwound with the arguments of the \<open>i\<close>-th call of the
  command line.\<close>

fun unwind_functions ::
  "allocator \<Rightarrow> ('c option \<Rightarrow> nat \<Rightarrow> string) \<Rightarrow> string list \<Rightarrow> nat \<Rightarrow> nat \<Rightarrow> 'c func_info list \<Rightarrow>
   fault + 'c func_info list \<times> nat" where
  "unwind_functions al arg_usr func_names h i [] = Inr ([], h)"
| "unwind_functions al arg_usr func_names h i (f # fs) =
     sbind (defined (strs_at func_names i)) (\<lambda>func_call.
     sbind (defined (unwind_func_info al arg_usr h f (snd (parse_func_call func_call (Some []))))) (\<lambda>(f', h').
     sbind (unwind_functions al arg_usr func_names h' (Suc i) fs) (\<lambda>(fs', h''). Inr (f' # fs', h''))))"

definition footprint_of :: "'c func_info \<Rightarrow> 'c func_info option" where
  "footprint_of f = map_option (\<lambda>fp. set_access_footprint (Some fp) f) (build_var_access_footprint f [])"

fun build_footprints :: "'c func_info list \<Rightarrow> 'c func_info list option" where
  "build_footprints [] = Some []"
| "build_footprints (f # fs) =
     Option.bind (footprint_of f) (\<lambda>f'. map_option ((#) f') (build_footprints fs))"

fun trace_functions ::
  "'c source_info \<Rightarrow> string list \<Rightarrow> string list \<Rightarrow> 'c func_info list \<Rightarrow> string option" where
  "trace_functions src global_usrs names [] = Some ''''"
| "trace_functions src global_usrs names (f # fs) =
     Option.bind (find_exclusive_va_names src global_usrs names f) (\<lambda>(out, f').
     map_option (\<lambda>out'. out @ out') (trace_functions src global_usrs names fs))"

text \<open>The loop over the ordered pairs of functions.  A comparison nullifies accesses in the
  footprints of both functions, which the later comparisons see.\<close>

definition store_scan :: "nat \<Rightarrow> nat \<Rightarrow> scan_state \<Rightarrow> 'c func_info list \<Rightarrow> 'c func_info list" where
  "store_scan i j s fs =
     fs[i := set_access_footprint (Some (scan_a s)) (fs ! i), j := set_access_footprint (Some (scan_b s)) (fs ! j)]"

fun compare_functions ::
  "(nat \<Rightarrow> nat \<Rightarrow> 'c func_info \<Rightarrow> 'c func_info \<Rightarrow> scan_state option) \<Rightarrow> (nat \<times> nat) list \<Rightarrow>
   'c func_info list \<Rightarrow> string option" where
  "compare_functions cmp [] fs = Some ''''"
| "compare_functions cmp ((i, j) # ps) fs =
     (if i = j then compare_functions cmp ps fs
      else Option.bind (cmp i j (fs ! i) (fs ! j)) (\<lambda>s.
           map_option (\<lambda>out. scan_out s @ out) (compare_functions cmp ps (store_scan i j s fs))))"

definition compare_pair ::
  "'c world \<Rightarrow> cmdline \<Rightarrow> lock_pair_arr \<Rightarrow> nat \<Rightarrow> nat \<Rightarrow> 'c func_info \<Rightarrow> 'c func_info \<Rightarrow> scan_state option" where
  "compare_pair w cl pairs i j f g =
     (if \<not> arg_track_locking cl then find_va_overlap (w_source w) f g
      else (case w_blocks w i j of
              ((al_a, addr_a), (al_b, addr_b)) \<Rightarrow>
                find_unprotected_va al_a addr_a al_b addr_b pairs (w_source w) f g))"

definition report ::
  "'c world \<Rightarrow> cmdline \<Rightarrow> lock_pair_arr \<Rightarrow> string list \<Rightarrow> 'c func_info list \<Rightarrow> string option" where
  "report w cl pairs global_usrs fs =
     (if cl_trace_var_names cl \<noteq> [] then trace_functions (w_source w) global_usrs (cl_trace_var_names cl) fs
      else compare_functions (compare_pair w cl pairs) (List.product [0..<length fs] [0..<length fs]) fs)"

definition walk_env :: "'c world \<Rightarrow> cmdline \<Rightarrow> 'c tu option list \<Rightarrow> 'c env" where
  "walk_env w cl units =
     \<lparr>env_api = w_api w, env_tu_cursors = map (\<lambda>u. tu_cursor (the u)) units, env_file_names = cl_file_names cl,
      env_track_locking = arg_track_locking cl, env_zero_cursor = w_zero_cursor w\<rparr>"

definition arg_usr_of :: "'c world \<Rightarrow> 'c option \<Rightarrow> nat \<Rightarrow> string" where
  "arg_usr_of w c i =
     cursor_usr (w_api w) (cursor_argument (w_api w) (case c of None \<Rightarrow> w_zero_cursor w | Some x \<Rightarrow> x) i)"

text \<open>From the parsed units to the reports.\<close>

definition analyse ::
  "nat \<Rightarrow> 'c world \<Rightarrow> cmdline \<Rightarrow> lock_pair_arr \<Rightarrow> 'c tu option list \<Rightarrow> fault + prong_error \<times> string" where
  "analyse n w cl pairs units =
     (let en = walk_env w cl units
      in sbind (process_tu_array (w_api w) (cl_func_names cl) (env_tu_cursors en)
                 \<lparr>col_funcs = [], col_global_usrs = [], col_next_block = 0\<rparr>) (\<lambda>col.
         if length (col_funcs col) \<noteq> length (cl_func_names cl) then Inr (ERR_NOT_FOUND, '''')
         else
           sbind (walk_functions n en (col_funcs col)
                   \<lparr>ancestry_stack = [], last_visited = w_zero_cursor w, current_func = hd (col_funcs col),
                    touched_func_usrs = [], next_block = col_next_block col\<rparr>) (\<lambda>(fs1, walk1).
           sbind (unwind_functions (w_alloc w) (arg_usr_of w) (cl_func_names cl) (next_block walk1) 0 fs1) (\<lambda>(fs2, h).
           sbind (defined (build_footprints fs2)) (\<lambda>fs3.
           sbind (defined (report w cl pairs (col_global_usrs col) fs3)) (\<lambda>out.
           Inr (ERR_OK, out)))))))"

text \<open>\<open>argv\<close> with the name of the program first.\<close>

definition prong_main :: "nat \<Rightarrow> 'c world \<Rightarrow> string list \<Rightarrow> fault + prong_error \<times> string" where
  "prong_main n w argv =
     (if length argv < 2 then Inr (ERR_INVALID_ARG, '''')
      else sbind (defined (process_args (w_glob w) (tl argv) prong_init_cmdline)) (\<lambda>(ret, cl).
        if ret \<noteq> ERR_OK then Inr (ret, '''')
        else sbind (defined (setup_lock_pairs (w_junk w) (cl_lock_pairs cl))) (\<lambda>(ret, pairs).
          if ret \<noteq> ERR_OK then Inr (ret, '''')
          else if arg_help cl then Inr (ERR_OK, '''')
          else let units = w_units w cl
               in sbind (check_diagnostics units) (\<lambda>ret.
                  if ret \<noteq> ERR_OK then Inr (ret, '''') else analyse n w cl pairs units))))"

end
