(* ===== verification/Visited.thy ===== *)
theory Visited
  imports Visitor
begin

text \<open>
  What the walk over a function body promises: every call marker has its callee and every
  function is expanded at most once, the recursion into callees ends, every marker of an
  if statement is followed by the marker of its then block, and which access a reference
  is recorded as.
\<close>

section \<open>Functional records after an update\<close>

definition func_usr :: "'c func_info \<Rightarrow> string" where
  "func_usr f = (case fi_usr f of None \<Rightarrow> '''' | Some u \<Rightarrow> cstr_chars u)"

text \<open>What no step changes about a function.\<close>

definition same_id :: "'c func_info \<Rightarrow> 'c func_info \<Rightarrow> bool" where
  "same_id f g \<longleftrightarrow> fi_usr g = fi_usr f \<and> fi_name g = fi_name f \<and> fi_cursor g = fi_cursor f \<and> fi_spelling g = fi_spelling f \<and>
     fi_in_system_header g = fi_in_system_header f \<and> fi_has_definition g = fi_has_definition f"

lemma same_id_refl [simp]: "same_id f f"
  by (simp add: same_id_def)

lemma same_id_trans: "same_id f g \<Longrightarrow> same_id g h \<Longrightarrow> same_id f h"
  by (simp add: same_id_def)

lemma same_id_updates [simp]:
  "same_id f (set_var_accesses vas f)" "same_id f (set_callees cs f)"
  "same_id f (add_param u f)" "same_id f (add_local u f)"
  by (simp_all add: same_id_def set_var_accesses_def set_callees_def add_param_def add_local_def)

lemma func_parts [simp]:
  "accesses_of (push_access va f) = accesses_of f @ [va]" "callee_list (push_access va f) = callee_list f"
  "accesses_of (touch_accesses f) = accesses_of f" "callee_list (touch_accesses f) = callee_list f"
  "accesses_of (push_marker t f) = accesses_of f @ [marker t f]" "callee_list (push_marker t f) = callee_list f"
  "accesses_of (push_callee g f) = accesses_of f" "callee_list (push_callee g f) = callee_list f @ [g]"
  "accesses_of (set_last_callee g f) = accesses_of f"
  "callee_list (set_last_callee g f) = (if fi_callees f = None then [] else butlast (callee_list f) @ [g])"
  "accesses_of (add_param u f) = accesses_of f" "callee_list (add_param u f) = callee_list f"
  "accesses_of (add_local u f) = accesses_of f" "callee_list (add_local u f) = callee_list f"
  by (simp_all add: accesses_of_def callee_list_def push_access_def touch_accesses_def push_marker_def
      push_callee_def set_last_callee_def split: option.split)

lemma func_ids [simp]:
  "same_id f (push_access va f)" "same_id f (touch_accesses f)" "same_id f (push_marker t f)"
  "same_id f (push_callee g f)" "same_id f (set_last_callee g f)"
  by (simp_all add: push_access_def touch_accesses_def push_marker_def push_callee_def set_last_callee_def)

lemma marker_type [simp]: "va_type (marker t f) = t"
  by (simp add: marker_def init_var_access_def)

lemma va_type_init [simp]: "va_type (fst (init_var_access h u n es eu pf i l c t p)) = t"
  by (simp add: init_var_access_def Let_def split: prod.split)

section \<open>What a step appends\<close>

text \<open>\<open>extended f vas f'\<close>: the accesses \<open>vas\<close> were appended and no callee was.\<close>

definition extended :: "'c func_info \<Rightarrow> var_access list \<Rightarrow> 'c func_info \<Rightarrow> bool" where
  "extended f vas f' \<longleftrightarrow> accesses_of f' = accesses_of f @ vas \<and> callee_list f' = callee_list f \<and> same_id f f'"

lemma extended_refl: "extended f [] f"
  by (simp add: extended_def)

lemma extended_trans: "extended f vas g \<Longrightarrow> extended g vas' h \<Longrightarrow> extended f (vas @ vas') h"
  by (auto simp: extended_def intro: same_id_trans)

lemma extended_marker: "extended f [marker t f] (push_marker t f)"
  by (simp add: extended_def)

lemma pop_extends:
  "pop_to_parent api track parent stack f = (stack', f') \<Longrightarrow>
    \<exists>vas. extended f vas f' \<and> (\<forall>va \<in> set vas. va_type va = VarAccess_EndIf)"
proof (induction stack arbitrary: f)
  case (Cons tail rest)
  let ?f1 = "if cursor_kind api tail = CXCursor_IfStmt \<and> track then push_marker VarAccess_EndIf f else f"
  show ?case
  proof (cases "cursors_are_equal api tail parent")
    case True
    with Cons.prems show ?thesis using extended_refl by force
  next
    case False
    with Cons obtain vas where vas: "extended ?f1 vas f'" "\<forall>va \<in> set vas. va_type va = VarAccess_EndIf"
      by (metis pop_to_parent.simps(2))
    have "extended f (if cursor_kind api tail = CXCursor_IfStmt \<and> track then [marker VarAccess_EndIf f] else []) ?f1"
      by (simp add: extended_marker extended_refl)
    from extended_trans [OF this vas(1)] vas(2) show ?thesis by (force split: if_splits)
  qed
qed (use extended_refl in force)

lemma ancestry_extends:
  "\<exists>vas. extended (current_func w) vas (current_func (track_ancestry en c p w)) \<and>
    (\<forall>va \<in> set vas. va_type va = VarAccess_EndIf)"
proof -
  have "\<exists>vas. extended (current_func w) vas (snd (pop_to_parent (env_api en) (env_track_locking en) p
      (rev (ancestry_stack w)) (current_func w))) \<and> (\<forall>va \<in> set vas. va_type va = VarAccess_EndIf)"
    by (rule pop_extends [of _ _ _ _ _ "fst (pop_to_parent (env_api en) (env_track_locking en) p
      (rev (ancestry_stack w)) (current_func w))"]) simp
  moreover have "extended (current_func w) [] (current_func w)" by (rule extended_refl)
  ultimately show ?thesis
    by (force simp: track_ancestry_def Let_def push_stack_def split: prod.split)
qed

lemma ancestry_frame [simp]:
  "touched_func_usrs (track_ancestry en c p w) = touched_func_usrs w"
  by (auto simp: track_ancestry_def Let_def push_stack_def split: prod.split)

lemma declaration_extends: "extended f [] (record_declaration api c f)"
  by (auto simp: extended_def record_declaration_def split: cursor_kind.split)

text \<open>The marker of a block comes with a block of an if statement.\<close>

lemma block_extends:
  assumes "record_block en c p f = Inr f'"
  obtains vas where "extended f vas f'" "\<forall>va \<in> set vas. va_type va \<in> {VarAccess_ThenBlock, VarAccess_ElseStmt}"
    "\<And>info. env_track_locking en \<Longrightarrow> cursor_kind (env_api en) p = CXCursor_IfStmt \<Longrightarrow>
      get_ifstmt_info (env_api en) p = Some info \<Longrightarrow> cursors_are_equal (env_api en) c (then_block info) \<Longrightarrow>
      VarAccess_ThenBlock \<in> va_type ` set vas"
proof (cases "env_track_locking en \<and> cursor_kind (env_api en) p = CXCursor_IfStmt")
  case False
  with assms have "f' = f" by (auto simp: record_block_def Let_def)
  with that [of "[]"] False show ?thesis by (auto intro: extended_refl)
next
  case True
  with assms obtain info where info: "get_ifstmt_info (env_api en) p = Some info"
    by (auto simp: record_block_def Let_def sbind_Inr defined_Inr)
  let ?is_then = "cursors_are_equal (env_api en) c (then_block info)"
  let ?is_else = "\<not> cursor_is_null (env_api en) (else_block info) \<and> cursors_are_equal (env_api en) c (else_block info)"
  have f': "f' = (if ?is_then then push_marker VarAccess_ThenBlock f
      else if ?is_else then push_marker VarAccess_ElseStmt f else touch_accesses f)"
    using assms True info by (auto simp: record_block_def Let_def)
  have touch: "extended f [] (touch_accesses f)" by (simp add: extended_def)
  consider (yes) "?is_then" | (other) "\<not> ?is_then" "?is_else" | (none) "\<not> ?is_then" "\<not> ?is_else" by blast
  then show ?thesis
  proof cases
    case yes
    then show ?thesis using that [of "[marker VarAccess_ThenBlock f]"] f' by (simp add: extended_marker)
  next
    case other
    then show ?thesis using that [of "[marker VarAccess_ElseStmt f]"] f' info by (auto simp: extended_marker)
  next
    case none
    then have "extended f [] f'" using f' touch by auto
    then show ?thesis by (rule that) (use none info in auto)
  qed
qed

lemma if_extends:
  "extended f (if env_track_locking en \<and> cursor_kind (env_api en) c = CXCursor_IfStmt then [marker VarAccess_IfStmt f] else [])
    (record_if en c f)"
  by (simp add: record_if_def extended_marker extended_refl)

text \<open>A reference is recorded as no marker and no call.\<close>

definition plain_types :: "var_access_type set" where
  "plain_types = {VarAccess_Read, VarAccess_Write, VarAccess_PtrRead, VarAccess_PtrWrite, VarAccess_Escape}"

lemma classify_plain: "classify_reference api stack c b = Some (t, in_call) \<Longrightarrow> t \<in> plain_types"
  by (auto simp: classify_reference_def classify_argument_def classify_subscript_def classify_unary_def
      plain_types_def Let_def split: if_splits)

lemma reference_type: "reference_access api h stack c nm b (t, in_call) sp = (va, h') \<Longrightarrow> va_type va = t"
  using va_type_init by (cases nm) (auto simp: reference_access_def Let_def dest!: arg_cong [where f = fst])

lemma reference_access_usr:
  "reference_access api h stack c nm b (t, in_call) sp = (va, h') \<Longrightarrow> t \<in> plain_types \<Longrightarrow> va_usr va \<noteq> None"
  by (cases nm) (auto simp: reference_access_def init_var_access_def plain_types_def Let_def split: if_splits)

lemma record_reference_cases [consumes 1, case_names none access]:
  fixes w :: "'a walk"
  assumes "record_reference en c w = Inr w'"
  obtains "w' = upd_func touch_accesses w"
  | va h where "va_type va \<in> plain_types"
      "w' = upd_func (push_access va) (w\<lparr>current_func := touch_accesses (current_func w), next_block := h\<rparr>)"
      "va_usr va \<noteq> None"
proof -
  let ?w1 = "upd_func touch_accesses w" and ?api = "env_api en"
  let ?ptr = "is_ptr_kind (cursor_type_kind ?api (cursor_referenced ?api c))"
  let ?access_class = "classify_reference ?api (ancestry_stack ?w1) c ?ptr"
  show thesis
  proof (cases "w' = ?w1")
    case True
    then show thesis by (rule that(1))
  next
    case False
    let ?rest = "\<lambda>nm. case ?access_class of None \<Rightarrow> Inr ?w1 | Some kind \<Rightarrow>
        (case reference_access ?api (next_block ?w1) (ancestry_stack ?w1) c nm ?ptr kind (fi_spelling (current_func ?w1)) of
           (va, h) \<Rightarrow> Inr (upd_func (push_access va) (?w1\<lparr>next_block := h\<rparr>)))"
    from assms False have "sbind (reference_strings ?api (cursor_referenced ?api c) (ancestry_stack ?w1)) ?rest = Inr w'"
      unfolding record_reference_def Let_def by (metis Inr_inject)
    then obtain nm where nm: "?rest nm = (Inr w' :: fault + 'a walk)" unfolding sbind_Inr by blast
    with False obtain t in_call where k: "?access_class = Some (t, in_call)" by (cases ?access_class) auto
    obtain va h where va: "reference_access ?api (next_block ?w1) (ancestry_stack ?w1) c nm ?ptr (t, in_call)
        (fi_spelling (current_func ?w1)) = (va, h)" by fastforce
    have "va_type va \<in> plain_types" using reference_type [OF va] classify_plain [OF k] by simp
    moreover have "w' = upd_func (push_access va) (w\<lparr>current_func := touch_accesses (current_func w), next_block := h\<rparr>)"
      using nm k va by simp
    moreover have "va_usr va \<noteq> None" using reference_access_usr [OF va classify_plain [OF k]] .
    ultimately show thesis by (rule that(2))
  qed
qed

lemma reference_extends:
  assumes "record_reference en c w = Inr w'"
  shows "(\<exists>vas. extended (current_func w) vas (current_func w') \<and> va_type ` set vas \<subseteq> plain_types) \<and>
    touched_func_usrs w' = touched_func_usrs w"
proof -
  have touch: "extended (current_func w) [] (touch_accesses (current_func w))" by (simp add: extended_def)
  have push: "extended (current_func w) [va] (push_access va (touch_accesses (current_func w)))" for va
    by (simp add: extended_def same_id_trans [OF func_ids(2) func_ids(1)])
  show ?thesis using assms
  proof (cases rule: record_reference_cases)
    case none
    then show ?thesis using touch by force
  next
    case (access va h)
    then show ?thesis using push [of va] by (intro conjI exI [of _ "[va]"]) simp_all
  qed
qed

section \<open>Calls and callees\<close>

definition matched :: "'c func_info \<Rightarrow> bool" where
  "matched f \<longleftrightarrow> num_calls (accesses_of f) = length (callee_list f)"

definition below :: "'c func_info list \<Rightarrow> 'c func_info list" where
  "below gs = concat (map tree_nodes gs)"

lemma below_simps [simp]: "below [] = []" "below (g # gs) = tree_nodes g @ below gs" "below (gs @ hs) = below gs @ below hs"
  by (simp_all add: below_def)

lemma tree_nodes_below: "tree_nodes f = f # below (callee_list f)"
  by (simp add: below_def tree_nodes_callees [of f])

text \<open>From one state to a later one of the same function: as many call markers as callees
  were appended, the functions below the new callees are complete, and the list of touched
  USRs grew by theirs, none twice.\<close>

definition grew :: "'c walk \<Rightarrow> 'c walk \<Rightarrow> bool" where
  "grew w w' \<longleftrightarrow>
     (\<exists>gs vas. callee_list (current_func w') = callee_list (current_func w) @ gs \<and>
        accesses_of (current_func w') = accesses_of (current_func w) @ vas \<and> num_calls vas = length gs \<and>
        touched_func_usrs w' = touched_func_usrs w @ map func_usr (below gs) \<and>
        (\<forall>g \<in> set (below gs). matched g)) \<and>
     same_id (current_func w) (current_func w') \<and>
     (distinct (touched_func_usrs w) \<longrightarrow> distinct (touched_func_usrs w'))"

lemma grewI:
  assumes "callee_list (current_func w') = callee_list (current_func w) @ gs"
    "accesses_of (current_func w') = accesses_of (current_func w) @ vas" "num_calls vas = length gs"
    "touched_func_usrs w' = touched_func_usrs w @ map func_usr (below gs)" "\<forall>g \<in> set (below gs). matched g"
    "same_id (current_func w) (current_func w')"
    "distinct (touched_func_usrs w) \<Longrightarrow> distinct (touched_func_usrs w')"
  shows "grew w w'"
  using assms unfolding grew_def by blast

lemma grew_trans:
  assumes "grew w w1" "grew w1 w2"
  shows "grew w w2"
proof -
  from assms(1) obtain gs vas where 1: "callee_list (current_func w1) = callee_list (current_func w) @ gs"
    "accesses_of (current_func w1) = accesses_of (current_func w) @ vas" "num_calls vas = length gs"
    "touched_func_usrs w1 = touched_func_usrs w @ map func_usr (below gs)" "\<forall>g \<in> set (below gs). matched g"
    unfolding grew_def by blast
  from assms(2) obtain hs vas' where 2: "callee_list (current_func w2) = callee_list (current_func w1) @ hs"
    "accesses_of (current_func w2) = accesses_of (current_func w1) @ vas'" "num_calls vas' = length hs"
    "touched_func_usrs w2 = touched_func_usrs w1 @ map func_usr (below hs)" "\<forall>g \<in> set (below hs). matched g"
    unfolding grew_def by blast
  show ?thesis
    using 1 2 assms by (intro grewI [of _ _ "gs @ hs" "vas @ vas'"]) (auto simp: grew_def intro: same_id_trans)
qed

lemma grew_extended:
  assumes "extended (current_func w) vas (current_func w')" "num_calls vas = 0"
    "touched_func_usrs w' = touched_func_usrs w"
  shows "grew w w'"
  using assms by (intro grewI [of _ _ "[]" vas]) (auto simp: extended_def)

lemma grew_refl: "grew w w"
  by (rule grew_extended [OF extended_refl]) simp_all

lemma no_calls: "(\<And>va. va \<in> set vas \<Longrightarrow> va_type va \<noteq> VarAccess_Call) \<Longrightarrow> num_calls vas = 0"
  by (simp add: num_calls_def filter_empty_conv)

text \<open>A walk into a fresh callee record.\<close>

definition walks :: "('c func_info \<Rightarrow> 'c walk \<Rightarrow> fault + 'c func_info \<times> 'c walk) \<Rightarrow> bool" where
  "walks process \<longleftrightarrow> (\<forall>g w g' w'. process g w = Inr (g', w') \<longrightarrow> callee_list g = [] \<longrightarrow> accesses_of g = [] \<longrightarrow>
     current_func w' = current_func w \<and> same_id g g' \<and>
     touched_func_usrs w' = touched_func_usrs w @ map func_usr (below (callee_list g')) \<and>
     (\<forall>n \<in> set (tree_nodes g'). matched n) \<and>
     (distinct (touched_func_usrs w) \<longrightarrow> distinct (touched_func_usrs w')))"

lemma enter_callee_cases:
  assumes "enter_callee en c w = Inr (g, w')"
  obtains va where "current_func w' = push_access va (push_callee g (current_func w))" "va_type va = VarAccess_Call"
    "touched_func_usrs w' = touched_func_usrs w @ [cursor_usr (env_api en) c]" "func_usr g = cursor_usr (env_api en) c"
    "callee_list g = []" "accesses_of g = []" "fi_cursor g = Some c" "fi_name g \<noteq> None" "va_usr va \<noteq> None"
    "va_esc_param_idx va = NO_IDX"
proof -
  from assms obtain hd where "enter_callee en c w = Inr (g, w')"
      "prong_is_system_header (env_api en) (cursor_location (env_api en) c) (env_file_names en) = Some hd"
    by (auto simp: enter_callee_def Let_def sbind_Inr defined_Inr)
  then show thesis
    by (intro that [of "fst (init_var_access (next_block w + 3) None None (Some (cursor_spelling (env_api en) c))
          (Some (cursor_usr (env_api en) c)) (fi_spelling (current_func w)) NO_IDX 0 0 VarAccess_Call False)"])
      (auto simp: enter_callee_def Let_def init_func_info_def init_var_access_def func_usr_def callee_list_def
        accesses_of_def numeral_3_eq_3)
qed

text \<open>A call is passed over, or gets a record that is not walked, or one that is.\<close>

lemma record_call_cases [consumes 1, case_names skip leaf descend]:
  assumes "record_call en process c w = Inr w'"
  obtains "w' = push_stack c w"
  | d g w1 where "cursor_usr (env_api en) d \<notin> set (touched_func_usrs w)" "enter_callee en d w = Inr (g, w1)"
      "w' = push_stack c w1"
  | d g w1 g' w2 where "cursor_usr (env_api en) d \<notin> set (touched_func_usrs w)" "enter_callee en d w = Inr (g, w1)"
      "process g w1 = Inr (g', w2)" "w' = push_stack c (upd_func (set_last_callee g') w2)"
proof (cases "w' = push_stack c w")
  case False
  with assms obtain d g w1 where d: "cursor_usr (env_api en) d \<notin> set (touched_func_usrs w)" "enter_callee en d w = Inr (g, w1)"
      and rest: "(if fi_in_system_header g \<or> \<not> fi_has_definition g then Inr (push_stack c w1)
           else sbind (process g w1) (\<lambda>(g', w2). Inr (push_stack c (upd_func (set_last_callee g') w2)))) = Inr w'"
    by (auto simp: record_call_def Let_def sbind_Inr split: if_splits)
  show thesis
  proof (cases "fi_in_system_header g \<or> \<not> fi_has_definition g")
    case True
    with rest that(2) [OF d] show thesis by simp
  next
    case False
    with rest obtain g' w2 where "process g w1 = Inr (g', w2)" "w' = push_stack c (upd_func (set_last_callee g') w2)"
      by (auto simp: sbind_Inr)
    with that(3) [OF d] show thesis by blast
  qed
qed (rule that(1))

lemma stack_frame [simp]:
  "current_func (push_stack c w) = current_func w" "touched_func_usrs (push_stack c w) = touched_func_usrs w"
  by (simp_all add: push_stack_def)

lemma call_grows:
  assumes "walks process" "record_call en process c w = Inr w'"
  shows "grew w w'"
proof -
  have enter: "same_id (current_func w) (current_func w1) \<and> fi_callees (current_func w1) \<noteq> None"
    if "current_func w1 = push_access va (push_callee g (current_func w))" for w1 va g
    using same_id_trans [OF func_ids(4) func_ids(1)] that by (simp add: push_access_def push_callee_def)
  from assms(2) show ?thesis
  proof (cases rule: record_call_cases)
    case skip
    then show ?thesis using grew_refl by (auto simp: grew_def)
  next
    case (leaf d g w1)
    obtain va where e: "current_func w1 = push_access va (push_callee g (current_func w))" "va_type va = VarAccess_Call"
      "touched_func_usrs w1 = touched_func_usrs w @ [cursor_usr (env_api en) d]" "func_usr g = cursor_usr (env_api en) d"
      "callee_list g = []" "accesses_of g = []"
      by (rule enter_callee_cases [OF leaf(2)])
    show ?thesis
      using e enter [OF e(1)] leaf(1,3)
      by (intro grewI [of _ _ "[g]" "[va]"]) (auto simp: tree_nodes_below [of g] matched_def)
  next
    case (descend d g w1 g' w2)
    obtain va where e: "current_func w1 = push_access va (push_callee g (current_func w))" "va_type va = VarAccess_Call"
      "touched_func_usrs w1 = touched_func_usrs w @ [cursor_usr (env_api en) d]" "func_usr g = cursor_usr (env_api en) d"
      "callee_list g = []" "accesses_of g = []"
      by (rule enter_callee_cases [OF descend(2)])
    have p: "current_func w2 = current_func w1" "same_id g g'"
      "touched_func_usrs w2 = touched_func_usrs w1 @ map func_usr (below (callee_list g'))"
      "\<forall>n \<in> set (tree_nodes g'). matched n" "distinct (touched_func_usrs w1) \<longrightarrow> distinct (touched_func_usrs w2)"
      using assms(1) descend(3) e(5,6) unfolding walks_def by blast+
    have "func_usr g' = cursor_usr (env_api en) d" using p(2) e(4) by (simp add: same_id_def func_usr_def)
    moreover have "same_id (current_func w) (set_last_callee g' (current_func w1))"
      using enter [OF e(1)] func_ids(5) same_id_trans by blast
    ultimately show ?thesis
      using p e enter [OF e(1)] descend(1,4)
      by (intro grewI [of _ _ "[g']" "[va]"]) (auto simp: tree_nodes_below [of g'])
  qed
qed

text \<open>The markers of one cursor: what is left of enclosing if statements, the block it is,
  the if statement it starts.\<close>

lemma markers_extend:
  assumes "walk_markers en c p w = Inr w'"
  obtains vas where
    "extended (current_func w) (vas @ (if env_track_locking en \<and> cursor_kind (env_api en) c = CXCursor_IfStmt
       then [marker VarAccess_IfStmt (current_func w)] else [])) (current_func w')"
    "va_type ` set vas \<subseteq> {VarAccess_EndIf, VarAccess_ThenBlock, VarAccess_ElseStmt}"
    "touched_func_usrs w' = touched_func_usrs w"
    "\<And>info. env_track_locking en \<Longrightarrow> cursor_kind (env_api en) p = CXCursor_IfStmt \<Longrightarrow>
      get_ifstmt_info (env_api en) p = Some info \<Longrightarrow> cursors_are_equal (env_api en) c (then_block info) \<Longrightarrow>
      VarAccess_ThenBlock \<in> va_type ` set vas"
proof -
  let ?w1 = "upd_func (record_declaration (env_api en) c) (track_ancestry en c p w)"
  from assms obtain f where f: "record_block en c p (current_func ?w1) = Inr f"
    "w' = ?w1\<lparr>current_func := record_if en c f\<rparr>"
    unfolding walk_markers_def Let_def sbind_Inr by blast
  obtain vas1 where 1: "extended (current_func w) vas1 (current_func (track_ancestry en c p w))"
      "\<forall>va \<in> set vas1. va_type va = VarAccess_EndIf"
    using ancestry_extends [of w en c p] by blast
  have decl: "extended (current_func (track_ancestry en c p w)) [] (current_func ?w1)"
    using declaration_extends by simp
  obtain vas2 where 2: "extended (current_func ?w1) vas2 f" "\<forall>va \<in> set vas2. va_type va \<in> {VarAccess_ThenBlock, VarAccess_ElseStmt}"
    and then_marker: "\<And>info. env_track_locking en \<Longrightarrow> cursor_kind (env_api en) p = CXCursor_IfStmt \<Longrightarrow>
      get_ifstmt_info (env_api en) p = Some info \<Longrightarrow> cursors_are_equal (env_api en) c (then_block info) \<Longrightarrow>
      VarAccess_ThenBlock \<in> va_type ` set vas2"
    by (rule block_extends [OF f(1)]) blast
  have to_f: "extended (current_func w) (vas1 @ vas2) f"
    using extended_trans [OF extended_trans [OF 1(1) decl] 2(1)] by simp
  then have "marker t f = marker t (current_func w)" for t
    by (simp add: extended_def same_id_def marker_def)
  then have "extended (current_func w) ((vas1 @ vas2) @ (if env_track_locking en \<and> cursor_kind (env_api en) c = CXCursor_IfStmt
       then [marker VarAccess_IfStmt (current_func w)] else [])) (current_func w')"
    using extended_trans [OF to_f if_extends [of f en c]] f(2) by (auto split: if_splits)
  then show thesis
    using 1(2) 2(2) then_marker f(2) by (intro that [of "vas1 @ vas2"]) auto
qed

lemma walk_func_grows:
  assumes "walks process" "walk_func en process c p w = Inr w'"
  shows "grew w w'"
proof -
  from assms(2) obtain w2 where m: "walk_markers en c p w = Inr w2" and n: "walk_node en process c w2 = Inr w'"
    unfolding walk_func_def sbind_Inr by blast
  have w2: "grew w w2"
  proof (rule markers_extend [OF m])
    fix vas
    assume e: "extended (current_func w) (vas @ (if env_track_locking en \<and> cursor_kind (env_api en) c = CXCursor_IfStmt
         then [marker VarAccess_IfStmt (current_func w)] else [])) (current_func w2)"
      and t: "va_type ` set vas \<subseteq> {VarAccess_EndIf, VarAccess_ThenBlock, VarAccess_ElseStmt}"
      and u: "touched_func_usrs w2 = touched_func_usrs w"
    have "num_calls vas = 0" using t by (intro no_calls) auto
    then show ?thesis by (intro grew_extended [OF e _ u]) simp
  qed
  consider "record_reference en c w2 = Inr w'" | "record_call en process c w2 = Inr w'" | "w' = w2"
    using n unfolding walk_node_def by (metis sum.inject(2))
  then show ?thesis
  proof cases
    case 1
    from reference_extends [OF this] obtain vas where "extended (current_func w2) vas (current_func w')"
      "va_type ` set vas \<subseteq> plain_types" "touched_func_usrs w' = touched_func_usrs w2" by blast
    moreover from this(2) have "num_calls vas = 0" by (intro no_calls) (auto simp: plain_types_def image_subset_iff)
    ultimately have "grew w2 w'" by (intro grew_extended)
    with w2 show ?thesis by (rule grew_trans)
  next
    case 2
    with w2 call_grows [OF assms(1)] show ?thesis using grew_trans by blast
  next
    case 3
    with w2 show ?thesis by simp
  qed
qed

section \<open>The traversal\<close>

lemma walk_visitor_result: "\<exists>v r1. prong_visitor_walk_func en process c p r = Some (v, r1)"
  unfolding prong_visitor_walk_func_def by (metis surj_pair)

lemma walk_visit_total: "\<exists>b r'. visit_trees (prong_visitor_walk_func en process) p ts r = Some (b, r')"
proof (induction "prong_visitor_walk_func en process" p ts r rule: visit_trees.induct)
  case (2 p c kids ts r)
  obtain v r1 where v: "prong_visitor_walk_func en process c p r = Some (v, r1)"
    using walk_visitor_result [of en process c p r] by blast
  show ?case
  proof (cases v)
    case CXChildVisit_Recurse
    with 2(2) [OF v, of v r1] v obtain b r2 where
      k: "visit_trees (prong_visitor_walk_func en process) c kids r1 = Some (b, r2)" by auto
    with 2(3) [OF v, of v r1, OF _ _ k] v CXChildVisit_Recurse show ?thesis by (cases b) auto
  qed (use 2(1) [OF v] v in auto)
qed auto

text \<open>A traversal that ends without fault made a series of steps.\<close>

lemma walk_visit_steps:
  assumes "\<And>c p w w'. walk_func en process c p w = Inr w' \<Longrightarrow> R w w'"
    and "\<And>w. R w w" "\<And>w w1 w2. R w w1 \<Longrightarrow> R w1 w2 \<Longrightarrow> R w w2"
  shows "visit_trees (prong_visitor_walk_func en process) p ts r = Some (b, Inr w') \<Longrightarrow> \<exists>w. r = Inr w \<and> R w w'"
proof (induction "prong_visitor_walk_func en process" p ts r arbitrary: b w' rule: visit_trees.induct)
  case (2 p c kids ts r)
  obtain v r1 where v: "prong_visitor_walk_func en process c p r = Some (v, r1)"
    using walk_visitor_result [of en process c p r] by blast
  show ?case
  proof (cases r1)
    case (Inl e)
    with v have "v = CXChildVisit_Break" by (auto simp: prong_visitor_walk_func_def split: sum.splits)
    with v Inl 2(4) show ?thesis by simp
  next
    case (Inr w1)
    with v obtain w where w: "r = Inr w" "walk_func en process c p w = Inr w1" "v = CXChildVisit_Recurse"
      by (auto simp: prong_visitor_walk_func_def sbind_Inr split: sum.splits)
    obtain b2 r2 where k: "visit_trees (prong_visitor_walk_func en process) c kids r1 = Some (b2, r2)"
      using walk_visit_total [of en process c kids r1] by blast
    show ?thesis
    proof (cases b2)
      case True
      with 2(4) v k w(3) have r2: "r2 = Inr w'" by simp
      from 2(2) [OF v refl w(3) k [unfolded r2]] Inr have "R w1 w'" by simp
      with assms(1) [OF w(2)] assms(3) w(1) show ?thesis by blast
    next
      case False
      with 2(4) v k w(3) have rest: "visit_trees (prong_visitor_walk_func en process) p ts r2 = Some (b, Inr w')" by simp
      from 2(3) [OF v refl w(3) k refl _ rest] False obtain w2 where w2: "r2 = Inr w2" "R w2 w'" by auto
      from 2(2) [OF v refl w(3) k [unfolded w2(1)]] Inr have "R w1 w2" by simp
      with assms(1) [OF w(2)] assms(3) w(1) w2(2) show ?thesis by blast
    qed
  qed
qed (use assms(2) in auto)

lemma process_cases:
  assumes "process_func_info n en f w = Inr (f', w')"
  obtains m c b w1 where "n = Suc m" "fi_cursor f = Some c"
    "visit_trees (prong_visitor_walk_func en (process_func_info m en)) c (subtrees (env_api en) c)
       (Inr (w\<lparr>current_func := f\<rparr>)) = Some (b, Inr w1)"
    "f' = current_func w1" "w' = w1\<lparr>current_func := current_func w\<rparr>"
proof (cases n)
  case (Suc m)
  with assms obtain c where c: "fi_cursor f = Some c" by (auto split: option.splits)
  obtain b r where v: "visit_trees (prong_visitor_walk_func en (process_func_info m en)) c (subtrees (env_api en) c)
       (Inr (w\<lparr>current_func := f\<rparr>)) = Some (b, r)"
    using walk_visit_total [of en "process_func_info m en" c "subtrees (env_api en) c" "Inr (w\<lparr>current_func := f\<rparr>)"] by blast
  with assms Suc c obtain w1 where "r = Inr w1" "f' = current_func w1" "w' = w1\<lparr>current_func := current_func w\<rparr>"
    by (auto simp: visit_children_def sbind_Inr)
  with that Suc c v show thesis by blast
qed (use assms in simp)

lemma process_walks: "walks (process_func_info n en)"
proof (induction n)
  case (Suc n)
  show ?case
    unfolding walks_def
  proof (intro allI impI)
    fix g w g' w'
    assume p: "process_func_info (Suc n) en g w = Inr (g', w')" and fresh: "callee_list g = []" "accesses_of g = []"
    from p obtain c b w1 where v: "visit_trees (prong_visitor_walk_func en (process_func_info n en)) c
        (subtrees (env_api en) c) (Inr (w\<lparr>current_func := g\<rparr>)) = Some (b, Inr w1)"
      and r: "g' = current_func w1" "w' = w1\<lparr>current_func := current_func w\<rparr>"
      by (rule process_cases) auto
    have "grew (w\<lparr>current_func := g\<rparr>) w1"
      using walk_visit_steps [of en "process_func_info n en" grew, OF walk_func_grows [OF Suc] grew_refl grew_trans v]
      by auto
    then show "current_func w' = current_func w \<and> same_id g g' \<and>
        touched_func_usrs w' = touched_func_usrs w @ map func_usr (below (callee_list g')) \<and>
        (\<forall>n \<in> set (tree_nodes g'). matched n) \<and>
        (distinct (touched_func_usrs w) \<longrightarrow> distinct (touched_func_usrs w'))"
      using fresh by (auto simp: grew_def r tree_nodes_below matched_def simp del: distinct_append)
  qed
qed (simp add: walks_def)

section \<open>Where a walk can fail\<close>

lemma walk_visit_inl:
  "visit_trees (prong_visitor_walk_func en process) p ts (Inl e) = Some (b, r) \<Longrightarrow> r = Inl e"
proof (cases ts)
  case (Cons t ts')
  then show "visit_trees (prong_visitor_walk_func en process) p ts (Inl e) = Some (b, r) \<Longrightarrow> r = Inl e"
    by (cases t) (simp add: prong_visitor_walk_func_def)
qed simp

text \<open>The first fault of a traversal happens in a state the traversal reached.\<close>

lemma walk_visit_fault:
  assumes "\<And>c p w w'. walk_func en process c p w = Inr w' \<Longrightarrow> R w w'"
    and "\<And>w. R w w" "\<And>w w1 w2. R w w1 \<Longrightarrow> R w1 w2 \<Longrightarrow> R w w2"
  shows "visit_trees (prong_visitor_walk_func en process) p ts (Inr w0) = Some (b, Inl e) \<Longrightarrow>
    \<exists>c p w. R w0 w \<and> walk_func en process c p w = Inl e"
proof (induction "prong_visitor_walk_func en process" p ts "Inr w0 :: fault + 'a walk" arbitrary: b w0 rule: visit_trees.induct)
  case (2 p c kids ts)
  show ?case
  proof (cases "walk_func en process c p w0")
    case (Inl e')
    with 2(4) have "e' = e" by (simp add: prong_visitor_walk_func_def)
    with Inl assms(2) show ?thesis by blast
  next
    case (Inr w1)
    then have v: "prong_visitor_walk_func en process c p (Inr w0) = Some (CXChildVisit_Recurse, Inr w1)"
      by (simp add: prong_visitor_walk_func_def)
    obtain b2 r2 where k: "visit_trees (prong_visitor_walk_func en process) c kids (Inr w1) = Some (b2, r2)"
      using walk_visit_total [of en process c kids "Inr w1"] by blast
    show ?thesis
    proof (cases "r2 = Inl e")
      case True
      from 2(2) [OF v refl refl k [unfolded True]] obtain c p w where "R w1 w" "walk_func en process c p w = Inl e"
        by blast
      with assms(1) [OF Inr] assms(3) show ?thesis by blast
    next
      case False
      with 2(4) v k have b2: "\<not> b2" by (cases b2) auto
      with 2(4) v k have rest: "visit_trees (prong_visitor_walk_func en process) p ts r2 = Some (b, Inl e)" by simp
      show ?thesis
      proof (cases r2)
        case (Inr w2)

        from 2(3) [OF v refl refl k [unfolded Inr] refl _ rest [unfolded Inr]] b2 obtain c' p' w where
          w: "R w2 w" "walk_func en process c' p' w = Inl e" by auto
        have "R w1 w2" using walk_visit_steps [of en process R, OF assms k [unfolded Inr]] by auto
        with w assms(1) [OF \<open>walk_func en process c p w0 = Inr w1\<close>] assms(3) show ?thesis by blast
      next
        case (Inl e')
        with rest walk_visit_inl [of en process p ts e' b "Inl e"] have "e' = e" by simp
        with Inl False show ?thesis by simp
      qed
    qed
  qed
qed simp

text \<open>A fault that is due to the input: a name too long for its buffer, a location without file.\<close>

definition input_fault :: "'c env \<Rightarrow> fault \<Rightarrow> bool" where
  "input_fault en e \<longleftrightarrow>
     e = Buffer_Overflow \<and> (\<exists>c stack. reference_strings (env_api en) (cursor_referenced (env_api en) c) stack = Inl Buffer_Overflow) \<or>
     e = Undefined \<and> (\<exists>loc. location_file (env_api en) loc = None)"

lemma append_buffer_fault: "append_buffer cap s t = Inl e \<Longrightarrow> e = Buffer_Overflow"
  by (auto simp: append_buffer_def split: if_splits)

lemma sbind_Inl: "sbind r f = Inl e \<longleftrightarrow> r = Inl e \<or> (\<exists>x. r = Inr x \<and> f x = Inl e)"
  by (cases r) auto

lemma member_path_fault: "member_path api cs prev nm = Inl e \<Longrightarrow> e = Buffer_Overflow"
  by (induction api cs prev nm rule: member_path.induct)
    (auto simp: Let_def sbind_Inl split: if_splits dest: append_buffer_fault)

lemma reference_strings_fault: "reference_strings api c stack = Inl e \<Longrightarrow> e = Buffer_Overflow"
  unfolding reference_strings_def Let_def
  by (auto simp: sbind_Inl split: if_splits dest: append_buffer_fault member_path_fault)

lemma ifstmt_info_total: "\<exists>info. get_ifstmt_info api c = Some info"
  by (simp add: get_ifstmt_info_def visit_children_def
      visit_all_continue [of get_ifstmt_info_visitor c ifstmt_step, OF ifstmt_visitor])

lemma definition_total: "\<exists>d. find_callexpr_definition api tus c = Some d"
  by (simp add: find_callexpr_definition_def definition_found)

lemma markers_total: "\<exists>w'. walk_markers en c p w = Inr w'"
  using ifstmt_info_total [of "env_api en" p]
  by (auto simp: walk_markers_def record_block_def Let_def)

lemma reference_fault:
  assumes "record_reference en c w = Inl e"
  shows "input_fault en e"
proof -
  let ?r = "reference_strings (env_api en) (cursor_referenced (env_api en) c) (ancestry_stack (upd_func touch_accesses w))"
  have "?r = Inl e"
    using assms by (auto simp: record_reference_def Let_def sbind_Inl split: if_splits option.splits prod.splits)
  moreover from reference_strings_fault [OF this] have "e = Buffer_Overflow" .
  ultimately show ?thesis unfolding input_fault_def by blast
qed

lemma enter_fault: "enter_callee en c w = Inl e \<Longrightarrow> input_fault en e"
  by (auto simp: enter_callee_def Let_def sbind_Inl defined_def prong_is_system_header_def input_fault_def
      split: option.splits prod.splits if_splits)

lemma callee_cursor_total: "\<exists>d. callee_cursor en c = Inr d"
  using definition_total [of "env_api en" "env_tu_cursors en" c] by (auto simp: callee_cursor_def Let_def)

lemma call_fault:
  assumes "record_call en process c w = Inl e"
  obtains "input_fault en e"
  | d g w1 where "callee_cursor en (cursor_referenced (env_api en) c) = Inr d"
      "cursor_usr (env_api en) d \<notin> set (touched_func_usrs w)" "enter_callee en d w = Inr (g, w1)" "process g w1 = Inl e"
proof -
  let ?decl = "cursor_referenced (env_api en) c"
  obtain d where d: "callee_cursor en ?decl = Inr d" using callee_cursor_total [of en ?decl] by blast
  have new: "cursor_usr (env_api en) d \<notin> set (touched_func_usrs w)"
    and rest: "sbind (enter_callee en d w) (\<lambda>(g, w1). if fi_in_system_header g \<or> \<not> fi_has_definition g
        then Inr (push_stack c w1) else sbind (process g w1) (\<lambda>(g', w2). Inr (push_stack c (upd_func (set_last_callee g') w2)))) = Inl e"
    using assms d by (auto simp: record_call_def Let_def split: if_splits)
  show thesis
  proof (cases "enter_callee en d w")
    case (Inl e')
    with rest enter_fault [OF Inl] that(1) show thesis by simp
  next
    case (Inr r)
    then obtain g w1 where "enter_callee en d w = Inr (g, w1)" by (cases r) simp
    moreover from this rest have "process g w1 = Inl e" by (auto simp: sbind_Inl split: if_splits prod.splits)
    ultimately show thesis using that(2) d new by blast
  qed
qed

lemma walk_func_fault:
  assumes "walk_func en process c p w = Inl e"
  obtains "input_fault en e"
  | d g w0 w1 where "callee_cursor en (cursor_referenced (env_api en) c) = Inr d"
      "set (touched_func_usrs w0) = set (touched_func_usrs w)"
      "cursor_usr (env_api en) d \<notin> set (touched_func_usrs w0)" "enter_callee en d w0 = Inr (g, w1)" "process g w1 = Inl e"
proof -
  obtain w0 where m: "walk_markers en c p w = Inr w0" using markers_total [of en c p w] by blast
  have t: "touched_func_usrs w0 = touched_func_usrs w" by (rule markers_extend [OF m])
  consider "record_reference en c w0 = Inl e" | "record_call en process c w0 = Inl e"
    using assms m unfolding walk_func_def walk_node_def by (auto split: if_splits)
  then show thesis
  proof cases
    case 1
    show thesis by (rule that(1) [OF reference_fault [OF 1]])
  next
    case 2
    show thesis
    proof (rule call_fault [OF 2 that(1)])
      fix d g w1
      assume "callee_cursor en (cursor_referenced (env_api en) c) = Inr d"
        "cursor_usr (env_api en) d \<notin> set (touched_func_usrs w0)" "enter_callee en d w0 = Inr (g, w1)" "process g w1 = Inl e"
      with t show thesis by (intro that(2) [of d w0 g w1]) simp_all
    qed
  qed
qed

text \<open>A walk into a function ends: every callee entered takes its USR out of those that may
  still be entered.\<close>

lemma process_fault:
  assumes fin: "finite U"
    and U: "\<And>c d. callee_cursor en (cursor_referenced (env_api en) c) = Inr d \<Longrightarrow> cursor_usr (env_api en) d \<in> U"
  shows "card (U - set (touched_func_usrs w)) < n \<Longrightarrow> fi_cursor f \<noteq> None \<Longrightarrow>
    process_func_info n en f w = Inl e \<Longrightarrow> input_fault en e"
proof (induction n arbitrary: f w)
  case (Suc n)
  obtain c where c: "fi_cursor f = Some c" using Suc.prems(2) by blast
  let ?w = "w\<lparr>current_func := f\<rparr>"
  obtain b r where v: "visit_trees (prong_visitor_walk_func en (process_func_info n en)) c (subtrees (env_api en) c) (Inr ?w) = Some (b, r)"
    using walk_visit_total [of en "process_func_info n en" c "subtrees (env_api en) c" "Inr ?w"] by blast
  with Suc.prems(3) c have "r = Inl e"
    by (auto simp: visit_children_def sbind_Inl)
  have step: "walk_func en (process_func_info n en) c p w = Inr w' \<Longrightarrow> grew w w'" for c p w w'
    by (rule walk_func_grows [OF process_walks])
  have "\<exists>c' p' w'. grew ?w w' \<and> walk_func en (process_func_info n en) c' p' w' = Inl e"
    by (rule walk_visit_fault [of en _ grew, OF step grew_refl grew_trans v [unfolded \<open>r = Inl e\<close>]])
  then obtain c' p' w' where w': "grew ?w w'" "walk_func en (process_func_info n en) c' p' w' = Inl e" by blast
  have sub: "set (touched_func_usrs w) \<subseteq> set (touched_func_usrs w')" using w'(1) by (auto simp: grew_def)
  show ?case
  proof (rule walk_func_fault [OF w'(2)])
    fix d g w0 w1
    assume d: "callee_cursor en (cursor_referenced (env_api en) c') = Inr d"
      "set (touched_func_usrs w0) = set (touched_func_usrs w')" "cursor_usr (env_api en) d \<notin> set (touched_func_usrs w0)"
      "enter_callee en d w0 = Inr (g, w1)" "process_func_info n en g w1 = Inl e"
    have g: "fi_cursor g \<noteq> None" "touched_func_usrs w1 = touched_func_usrs w0 @ [cursor_usr (env_api en) d]"
      using enter_callee_cases [OF d(4)] by auto
    have "U - set (touched_func_usrs w1) \<subset> U - set (touched_func_usrs w)"
      using U [OF d(1)] d(2,3) g(2) sub by auto
    with fin have "card (U - set (touched_func_usrs w1)) < card (U - set (touched_func_usrs w))"
      by (intro psubset_card_mono) auto
    with Suc.IH [OF _ g(1) d(5)] Suc.prems(1) show ?case by simp
  qed
qed simp

section \<open>A small program\<close>

text \<open>\<open>f\<close> (1) tests \<open>x\<close> (5) and calls \<open>g\<close> (20) twice; \<open>g\<close> writes \<open>x\<close> and calls itself.\<close>

definition sample_api :: "nat clang" where
  "sample_api =
     \<lparr>null_cursor = 0, cursor_is_null = (\<lambda>c. c = 0), equal_cursors = (=), cursor_location = id, cursor_end = id,
      cursor_kind = (\<lambda>c. if c \<in> {1, 20} then CXCursor_FunctionDecl else if c \<in> {2, 21} then CXCursor_CompoundStmt
        else if c = 3 then CXCursor_IfStmt else if c \<in> {4, 23} then CXCursor_DeclRefExpr else if c = 5 then CXCursor_VarDecl
        else if c = 22 then CXCursor_BinaryOperator else if c \<in> {6, 7, 25} then CXCursor_CallExpr else CXCursor_OtherKind 0),
      cursor_linkage = (\<lambda>c. CXLinkage_External),
      cursor_usr = (\<lambda>c. if c = 1 then ''c:@F@f'' else if c = 20 then ''c:@F@g'' else ''c:@x''),
      cursor_display_name = (\<lambda>c. if c = 1 then ''f()'' else if c = 20 then ''g()'' else ''x''),
      cursor_spelling = (\<lambda>c. if c = 1 then ''f'' else if c = 20 then ''g'' else ''x''),
      cursor_referenced = (\<lambda>c. if c \<in> {6, 7, 25} then 20 else 5),
      cursor_type_kind = (\<lambda>c. CXType_OtherType), cursor_binop = (\<lambda>c. 22), cursor_unop = (\<lambda>c. CXUnaryOperator_OtherOp),
      binop_Assign = 22, binop_OrAssign = 32, is_definition = (\<lambda>c. True), num_arguments = (\<lambda>c. 0),
      cursor_argument = (\<lambda>c i. 0), in_system_header_loc = (\<lambda>l. False), location_file = (\<lambda>l. Some ''a.c''),
      presumed_line = id, presumed_column = id,
      subtrees = (\<lambda>c. if c = 1 then [Ast 2 [Ast 3 [Ast 4 [], Ast 6 []], Ast 7 []]]
        else if c = 3 then [Ast 4 [], Ast 6 []] else if c = 20 then [Ast 21 [Ast 22 [Ast 23 [], Ast 24 []], Ast 25 []]]
        else if c = 22 then [Ast 23 [], Ast 24 []] else [])\<rparr>"

definition sample_env :: "nat env" where
  "sample_env = \<lparr>env_api = sample_api, env_tu_cursors = [100], env_file_names = [''a.c''], env_track_locking = True,
     env_zero_cursor = 0\<rparr>"

definition sample_root :: "nat func_info" where
  "sample_root = fst (init_func_info 0 (Some 1) (Some ''c:@F@f'') (Some ''f()'') (Some ''f'') False True)"

definition sample_walk :: "nat walk" where
  "sample_walk = \<lparr>ancestry_stack = [], last_visited = env_zero_cursor sample_env, current_func = sample_root,
     touched_func_usrs = [], next_block = 3\<rparr>"

lemmas walk_run = init_func_info_def Let_def
  visit_children_def prong_visitor_walk_func_def walk_func_def walk_markers_def track_ancestry_def push_stack_def
  record_declaration_def record_block_def record_if_def walk_node_def push_marker_def push_access_def touch_accesses_def
  marker_def init_var_access_def cursors_are_equal_def get_ifstmt_info_def get_ifstmt_info_visitor_def sz_add_def
  SIZE_LIMIT_def record_reference_def reference_strings_def append_buffer_def DECL_NAME_BUFFER_def DECL_USR_BUFFER_def
  offset_of_kind_def distance_def classify_reference_def assignment_offset_def is_assignment_def
  operator_is_assignment_def ANCESTOR_NOT_FOUND_def UINT_MAX_def reference_access_def classify_argument_def
  classify_subscript_def classify_unary_def ancestor_of_kind_def innermost_def assignment_above_def within_def
  on_stack_def first_child_def param_idx_def to_unsigned_def NO_IDX_def record_call_def callee_cursor_def
  enter_callee_def prong_is_system_header_def push_callee_def set_last_callee_def accesses_of_def callee_list_def
  set_var_accesses_def set_callees_def

lemmas sample_run = sample_env_def sample_api_def sample_root_def sample_walk_def walk_run

lemma sample_result:
  "case process_func_info 2 sample_env sample_root sample_walk of
     Inl e \<Rightarrow> False
   | Inr (f, w) \<Rightarrow> map va_type (accesses_of f) = [VarAccess_IfStmt, VarAccess_Read, VarAccess_ThenBlock, VarAccess_Call] \<and>
      map (map va_type \<circ> accesses_of) (callee_list f) = [[VarAccess_EndIf, VarAccess_Write]]"
  by (simp add: sample_run numeral_2_eq_2)

lemma sample_fresh: "callee_list sample_root = []" "accesses_of sample_root = []" "fi_cursor sample_root = Some 1"
  by (simp_all add: sample_root_def init_func_info_def callee_list_def accesses_of_def)

section \<open>Properties\<close>

text \<open>C34: A walk over a function expands every function at most once, however often and
  however recursively it is called, and never one that an earlier walk has touched: the USRs
  of all functions below the walked one are distinct, new, and exactly those added to the
  touched ones, in the order of the tree; and in the walked function and in every one below
  it there are as many call markers as callees.\<close>
theorem functions_are_expanded_once:
  assumes "process_func_info n en f w = Inr (f', w')" "callee_list f = []" "accesses_of f = []"
    and "distinct (touched_func_usrs w)"
  shows "touched_func_usrs w' = touched_func_usrs w @ map func_usr (below (callee_list f')) \<and>
    distinct (map func_usr (below (callee_list f'))) \<and>
    set (map func_usr (below (callee_list f'))) \<inter> set (touched_func_usrs w) = {} \<and>
    (\<forall>g \<in> set (tree_nodes f'). num_calls (accesses_of g) = length (callee_list g))"
proof -
  from process_walks [of n en] assms have
    w': "touched_func_usrs w' = touched_func_usrs w @ map func_usr (below (callee_list f'))"
      "\<forall>g \<in> set (tree_nodes f'). matched g" "distinct (touched_func_usrs w')"
    unfolding walks_def by blast+
  moreover from w'(1,3) have "distinct (touched_func_usrs w @ map func_usr (below (callee_list f')))" by simp
  ultimately show ?thesis unfolding distinct_append matched_def by blast
qed

theorem functions_are_expanded_once_witness:
  "\<exists>f' w'. process_func_info 2 sample_env sample_root sample_walk = Inr (f', w') \<and>
    (\<forall>g \<in> set (tree_nodes f'). num_calls (accesses_of g) = length (callee_list g))"
proof -
  obtain f' w' where r: "process_func_info 2 sample_env sample_root sample_walk = Inr (f', w')"
    using sample_result by (cases "process_func_info 2 sample_env sample_root sample_walk") auto
  have "distinct (touched_func_usrs sample_walk)" by (simp add: sample_walk_def)
  from functions_are_expanded_once [OF r sample_fresh(1,2) this] r show ?thesis by blast
qed

text \<open>C35: The recursion into callees ends on recursive programs too: when the calls lead to
  functions of finitely many USRs, a nesting of one more than the number of USRs not yet
  touched is enough, and the walk returns a record, unless it overflows a buffer for
  names, which takes a reference with too long a path, or asks for the file of a location
  that has none.\<close>
theorem walk_terminates:
  assumes "finite U"
    and "\<And>c d. callee_cursor en (cursor_referenced (env_api en) c) = Inr d \<Longrightarrow> cursor_usr (env_api en) d \<in> U"
    and "fi_cursor f \<noteq> None" "card (U - set (touched_func_usrs w)) < n"
  shows "(\<exists>f' w'. process_func_info n en f w = Inr (f', w')) \<or>
    process_func_info n en f w = Inl Buffer_Overflow \<and>
      (\<exists>c stack. reference_strings (env_api en) (cursor_referenced (env_api en) c) stack = Inl Buffer_Overflow) \<or>
    process_func_info n en f w = Inl Undefined \<and> (\<exists>loc. location_file (env_api en) loc = None)"
proof (cases "process_func_info n en f w")
  case (Inl e)
  have "input_fault en e" by (rule process_fault [OF assms(1) _ assms(4,3) Inl]) (rule assms(2))
  with Inl show ?thesis unfolding input_fault_def by metis
qed force

lemma sample_strings: "reference_strings sample_api c stack \<noteq> Inl e"
proof -
  have "distance (\<lambda>c. cursor_kind sample_api c = CXCursor_MemberRefExpr) stack = None"
    by (simp add: distance_None) (simp add: sample_api_def)
  then show ?thesis
    by (simp add: reference_strings_def offset_of_kind_def append_buffer_def DECL_NAME_BUFFER_def DECL_USR_BUFFER_def)
      (simp add: sample_api_def)
qed

theorem walk_terminates_witness:
  "\<exists>f' w'. process_func_info 4 sample_env sample_root sample_walk = Inr (f', w')"
proof -
  let ?U = "{''c:@F@f'', ''c:@F@g'', ''c:@x''}"
  have "cursor_usr sample_api d \<in> ?U" for d by (simp add: sample_api_def)
  moreover have "card (?U - set (touched_func_usrs sample_walk)) < 4" by (simp add: sample_walk_def)
  ultimately show ?thesis
    using walk_terminates [of ?U sample_env sample_root sample_walk 4] sample_fresh(3) sample_strings
    by (auto simp: sample_env_def) (simp add: sample_api_def)
qed

lemma pop_all:
  "(\<And>c. c \<in> set stack \<Longrightarrow> \<not> cursors_are_equal api c parent) \<Longrightarrow>
    \<exists>f'. pop_to_parent api True parent stack f = ([], f') \<and>
      map va_type (accesses_of f') = map va_type (accesses_of f) @
        replicate (length (filter (\<lambda>c. cursor_kind api c = CXCursor_IfStmt) stack)) VarAccess_EndIf"
proof (induction stack arbitrary: f)
  case (Cons c stack)
  then show ?case
    using Cons.IH [of "push_marker VarAccess_EndIf f"] Cons.IH [of f]
    by auto
qed simp

text \<open>C36: Entering a callee loses the place in its caller: the callee's cursor is on no stack of
  the caller and is not the cursor visited last, so the first child of the callee empties the
  ancestry stack, and every if statement the caller is inside of is marked as left in the
  accesses of the callee instead of those of the caller.\<close>
theorem callee_ends_the_callers_branches:
  assumes "\<not> cursor_is_null (env_api en) (last_visited w)"
    "\<not> cursors_are_equal (env_api en) callee (last_visited w)" "\<not> on_stack (env_api en) (ancestry_stack w) callee"
    and "env_track_locking en"
  shows "ancestry_stack (track_ancestry en c callee w) = [] \<and>
    map va_type (accesses_of (current_func (track_ancestry en c callee w))) =
      map va_type (accesses_of (current_func w)) @
      replicate (length (filter (\<lambda>c. cursor_kind (env_api en) c = CXCursor_IfStmt) (ancestry_stack w))) VarAccess_EndIf"
proof -
  have "\<not> cursors_are_equal (env_api en) x callee" if "x \<in> set (rev (ancestry_stack w))" for x
    using assms(3) that by (auto simp: on_stack_def list_ex_iff)
  from pop_all [of "rev (ancestry_stack w)", OF this, of "current_func w"] obtain f' where
    "pop_to_parent (env_api en) True callee (rev (ancestry_stack w)) (current_func w) = ([], f')"
    "map va_type (accesses_of f') = map va_type (accesses_of (current_func w)) @
      replicate (length (filter (\<lambda>c. cursor_kind (env_api en) c = CXCursor_IfStmt) (ancestry_stack w))) VarAccess_EndIf"
    by (auto simp flip: rev_filter)
  with assms show ?thesis by (simp add: track_ancestry_def Let_def)
qed

theorem callee_ends_the_callers_branches_witness:
  "map va_type (accesses_of (current_func (track_ancestry sample_env 21 20
     (sample_walk\<lparr>ancestry_stack := [1, 2, 3], last_visited := 6\<rparr>)))) = [VarAccess_EndIf]"
  using callee_ends_the_callers_branches [of sample_env "sample_walk\<lparr>ancestry_stack := [1, 2, 3], last_visited := 6\<rparr>" 20 21]
  by (simp add: sample_env_def sample_api_def sample_walk_def sample_fresh(2) cursors_are_equal_def on_stack_def)

text \<open>The name and the USR of a reference as they should be, of any length.\<close>

fun spelled_path :: "'c clang \<Rightarrow> 'c list \<Rightarrow> 'c \<Rightarrow> string \<times> string \<Rightarrow> string \<times> string" where
  "spelled_path api [] prev (name, usr) = (name, usr)"
| "spelled_path api (m # ms) prev (name, usr) =
     (if cursor_kind api m = CXCursor_MemberRefExpr
      then spelled_path api ms (cursor_referenced api m)
             (name @ (if cursor_type_kind api prev = CXType_Pointer then ''->'' else ''.'')
                @ cursor_spelling api (cursor_referenced api m),
              usr @ ''::'' @ cursor_spelling api (cursor_referenced api m))
      else spelled_path api ms prev (name, usr))"

definition spelled_reference :: "'c clang \<Rightarrow> 'c \<Rightarrow> 'c list \<Rightarrow> string \<times> string" where
  "spelled_reference api referenced stack =
     (let offset = offset_of_kind api stack CXCursor_MemberRefExpr
      in spelled_path api (if offset = ANCESTOR_NOT_FOUND then [] else member_cursors stack offset) referenced
           (cursor_display_name api referenced, cursor_usr api referenced))"

definition fits :: "string \<times> string \<Rightarrow> bool" where
  "fits nm \<longleftrightarrow> length (fst nm) < DECL_NAME_BUFFER \<and> length (snd nm) < DECL_USR_BUFFER"

lemma spelled_path_grows:
  "length (fst nm) \<le> length (fst (spelled_path api ms prev nm)) \<and> length (snd nm) \<le> length (snd (spelled_path api ms prev nm))"
  by (induction api ms prev nm rule: spelled_path.induct) auto

lemma member_path_spells:
  "fits nm \<Longrightarrow> member_path api ms prev nm =
    (if fits (spelled_path api ms prev nm) then Inr (spelled_path api ms prev nm) else Inl Buffer_Overflow)"
proof (induction api ms prev nm rule: member_path.induct)
  case (2 api m ms prev name usr)
  show ?case
  proof (cases "cursor_kind api m = CXCursor_MemberRefExpr")
    case True
    let ?sp = "cursor_spelling api (cursor_referenced api m)"
    let ?sep = "if cursor_type_kind api prev = CXType_Pointer then ''->'' else ''.''"
    let ?nm = "(name @ ?sep @ ?sp, usr @ ''::'' @ ?sp)"
    have step: "spelled_path api (m # ms) prev (name, usr) = spelled_path api ms (cursor_referenced api m) ?nm"
      using True by simp
    show ?thesis
    proof (cases "fits ?nm")
      case fit: True
      then have "append_buffer DECL_NAME_BUFFER name (?sep @ ?sp) = Inr (fst ?nm)"
        "append_buffer DECL_USR_BUFFER usr (''::'' @ ?sp) = Inr (snd ?nm)"
        by (simp_all add: append_buffer_def fits_def)
      then have "member_path api (m # ms) prev (name, usr) = member_path api ms (cursor_referenced api m) ?nm"
        using True by (simp add: Let_def)
      with 2(1) [OF True refl refl refl fit] step show ?thesis by simp
    next
      case False
      then have "\<not> fits (spelled_path api ms (cursor_referenced api m) ?nm)"
        using spelled_path_grows [of ?nm api ms "cursor_referenced api m"] unfolding fits_def by linarith
      moreover have "member_path api (m # ms) prev (name, usr) = Inl Buffer_Overflow"
        using False True by (auto simp: append_buffer_def fits_def Let_def sbind_def)
      ultimately show ?thesis unfolding step by simp
    qed
  next
    case False
    with 2 show ?thesis by simp
  qed
qed (simp add: fits_def)


text \<open>An element of an array that is read outside every assignment is not recorded at all:
  when the subscript is the innermost operator around a reference into the array and no
  assignment encloses it, the walk goes on without an access, so such reads are compared
  with nothing.\<close>
theorem subscript_reads_are_lost:
  assumes "record_reference en c w = Inr w'"
    and "assignment_offset (env_api en) (ancestry_stack w) = ANCESTOR_NOT_FOUND"
    and "offset_of_kind (env_api en) (ancestry_stack w) CXCursor_ArraySubscriptExpr
      < min ANCESTOR_NOT_FOUND (offset_of_kind (env_api en) (ancestry_stack w) CXCursor_UnaryOperator)"
    and "offset_of_kind (env_api en) (ancestry_stack w) CXCursor_ArraySubscriptExpr
      \<le> offset_of_kind (env_api en) (ancestry_stack w) CXCursor_CallExpr"
    and "within (env_api en) (ancestry_stack w) c
      (first_child (env_api en) (ancestor_of_kind (env_api en) (ancestry_stack w) CXCursor_ArraySubscriptExpr))"
  shows "accesses_of (current_func w') = accesses_of (current_func w)"
proof -
  have "classify_reference (env_api en) (ancestry_stack w) c b = None" for b
    using assms(2-5) by (simp add: classify_reference_def classify_subscript_def Let_def)
  then have "w' = upd_func touch_accesses w"
    using assms(1) by (auto simp: record_reference_def Let_def sbind_Inr split: if_splits)
  then show ?thesis by simp
qed

text \<open>\<open>return a[0];\<close>: the subscript is cursor 30, the array 31.\<close>

definition array_api :: "nat clang" where
  "array_api = sample_api\<lparr>
     cursor_kind := (\<lambda>c. if c = 2 then CXCursor_CompoundStmt else if c = 5 then CXCursor_VarDecl
       else if c = 30 then CXCursor_ArraySubscriptExpr else if c = 31 then CXCursor_DeclRefExpr else CXCursor_OtherKind 1),
     subtrees := (\<lambda>c. if c = 30 then [Ast 31 [], Ast 32 []] else [])\<rparr>"

theorem subscript_reads_are_lost_witness:
  "\<exists>w'. record_reference (sample_env\<lparr>env_api := array_api\<rparr>) 31 (sample_walk\<lparr>ancestry_stack := [2, 30]\<rparr>) = Inr w' \<and>
    accesses_of (current_func w') = []"
proof -
  let ?en = "sample_env\<lparr>env_api := array_api\<rparr>" and ?w = "sample_walk\<lparr>ancestry_stack := [2, 30]\<rparr>"
  obtain w' where r: "record_reference ?en 31 ?w = Inr w'"
    by (simp add: array_api_def sample_run)
  have "accesses_of (current_func w') = accesses_of (current_func ?w)"
    by (rule subscript_reads_are_lost [OF r]) (simp_all add: array_api_def sample_run)
  with r show ?thesis by (simp add: sample_walk_def sample_fresh(2))
qed

end
