(* ===== verification/Collection.thy ===== *)
theory Collection
  imports Visitor
begin

text \<open>
  What the first traversal (\<open>prong_visitor_walk_ast\<close>, \<open>process_tu_array\<close>) collects: the function
  definitions the command line names, and the variables with linkage, both in the order of
  the source.
\<close>

section \<open>The cursors visited\<close>

definition function_body :: "'c clang \<Rightarrow> 'c \<Rightarrow> 'c \<Rightarrow> bool" where
  "function_body api c p \<longleftrightarrow> \<not> in_system_header_loc api (cursor_location api c) \<and>
     cursor_kind api c = CXCursor_CompoundStmt \<and> cursor_kind api p = CXCursor_FunctionDecl"

definition variable :: "'c clang \<Rightarrow> 'c \<Rightarrow> bool" where
  "variable api c \<longleftrightarrow> \<not> in_system_header_loc api (cursor_location api c) \<and> cursor_kind api c = CXCursor_VarDecl"

definition linked :: "'c clang \<Rightarrow> 'c \<Rightarrow> bool" where
  "linked api c \<longleftrightarrow> cursor_linkage api c = CXLinkage_External \<or> cursor_linkage api c = CXLinkage_Internal"

text \<open>Nothing below a system header, the body of a function or a variable is visited.\<close>

definition is_leaf :: "'c clang \<Rightarrow> 'c \<Rightarrow> 'c \<Rightarrow> bool" where
  "is_leaf api c p \<longleftrightarrow> in_system_header_loc api (cursor_location api c) \<or> function_body api c p \<or> variable api c"

fun visited :: "'c clang \<Rightarrow> 'c \<Rightarrow> 'c ast list \<Rightarrow> ('c \<times> 'c) list" where
  "visited api p [] = []"
| "visited api p (Ast c kids # ts) = (c, p) # (if is_leaf api c p then [] else visited api c kids) @ visited api p ts"

definition function_definitions :: "'c clang \<Rightarrow> 'c \<Rightarrow> 'c list" where
  "function_definitions api tu = map snd (filter (\<lambda>(c, p). function_body api c p) (visited api tu (subtrees api tu)))"

definition linked_variables :: "'c clang \<Rightarrow> 'c \<Rightarrow> 'c list" where
  "linked_variables api tu = filter (\<lambda>c. variable api c \<and> linked api c) (map fst (visited api tu (subtrees api tu)))"

section \<open>Names of the command line\<close>

definition call_words :: "string \<Rightarrow> string list" where
  "call_words call = the (snd (parse_func_call (Some call) (Some [])))"

text \<open>The name has a parenthesis behind it: there is something to compare.\<close>

definition readable_call :: "string \<Rightarrow> bool" where
  "readable_call call \<longleftrightarrow> call_words call \<noteq> []"

definition named_by :: "'c clang \<Rightarrow> 'c \<Rightarrow> string \<Rightarrow> bool" where
  "named_by api p call \<longleftrightarrow> call_words call ! 0 = cursor_spelling api p \<and>
     int (sz_sub (length (call_words call)) 1) = num_arguments api p mod int SIZE_LIMIT"

definition func_view :: "'c func_info \<Rightarrow> 'c option \<times> string option \<times> string option" where
  "func_view f = (fi_cursor f, map_option cstr_chars (fi_usr f), map_option cstr_chars (fi_spelling f))"

definition cursor_view :: "'c clang \<Rightarrow> 'c \<Rightarrow> 'c option \<times> string option \<times> string option" where
  "cursor_view api p = (Some p, Some (cursor_usr api p), Some (cursor_spelling api p))"

text \<open>What is collected, without the blocks.\<close>

definition col_view :: "'c collection \<Rightarrow> ('c option \<times> string option \<times> string option) list \<times> string list" where
  "col_view s = (map func_view (col_funcs s), col_global_usrs s)"

definition registrations :: "'c clang \<Rightarrow> string list \<Rightarrow> 'c \<Rightarrow> 'c list" where
  "registrations api names p = map (\<lambda>_. p) (filter (named_by api p) names)"

lemma parse_some: "\<exists>xs. snd (parse_func_call (Some call) (Some [])) = Some xs"
  by (simp add: parse_func_call_def Let_def split: option.split)

lemma call_parse: "snd (parse_func_call (Some call) (Some [])) = Some (call_words call)"
  using parse_some [of call] by (auto simp: call_words_def)

lemma match_function_reads:
  assumes "readable_call call"
  shows "\<exists>s'. match_function api p call s = Inr s' \<and>
    col_view s' = (map func_view (col_funcs s) @ (if named_by api p call then [cursor_view api p] else []), col_global_usrs s)"
  using assms
  by (auto simp: match_function_def call_parse readable_call_def named_by_def init_func_info_def col_view_def func_view_def
      cursor_view_def Let_def)

lemma match_functions_read:
  assumes "\<forall>call \<in> set names. readable_call call"
  shows "\<exists>s'. match_functions api p names s = Inr s' \<and>
    col_view s' = (map func_view (col_funcs s) @ map (cursor_view api) (registrations api names p), col_global_usrs s)"
  using assms
proof (induction names arbitrary: s)
  case Nil
  show ?case by (simp add: col_view_def registrations_def)
next
  case (Cons call names)
  obtain s1 where 1: "match_function api p call s = Inr s1"
    "col_view s1 = (map func_view (col_funcs s) @ (if named_by api p call then [cursor_view api p] else []), col_global_usrs s)"
    using match_function_reads [of call api p s] Cons.prems by auto
  obtain s2 where 2: "match_functions api p names s1 = Inr s2"
    "col_view s2 = (map func_view (col_funcs s1) @ map (cursor_view api) (registrations api names p), col_global_usrs s1)"
    using Cons.IH [of s1] Cons.prems by auto
  from 1 2 show ?case by (simp add: col_view_def registrations_def)
qed

section \<open>The traversal\<close>

definition collects :: "'c clang \<Rightarrow> string list \<Rightarrow> 'c \<times> 'c \<Rightarrow> 'c list \<times> 'c list" where
  "collects api names = (\<lambda>(c, p).
     (if function_body api c p then registrations api names p else [],
      if variable api c \<and> linked api c then [c] else []))"

definition added :: "'c clang \<Rightarrow> 'c list \<times> 'c list \<Rightarrow> 'c collection \<Rightarrow> 'c collection \<Rightarrow> bool" where
  "added api = (\<lambda>(ps, gs) s s'. col_view s' = (map func_view (col_funcs s) @ map (cursor_view api) ps,
      col_global_usrs s @ map (cursor_usr api) gs))"

lemma added_trans: "added api (ps, gs) s s1 \<Longrightarrow> added api (qs, hs) s1 s2 \<Longrightarrow> added api (ps @ qs, gs @ hs) s s2"
  by (simp add: added_def col_view_def)

lemma added_none: "added api ([], []) s s"
  by (simp add: added_def col_view_def)

lemma walk_ast_adds:
  assumes "\<forall>call \<in> set names. readable_call call"
  shows "\<exists>s'. walk_ast api names c p s = Inr (if is_leaf api c p then CXChildVisit_Continue else CXChildVisit_Recurse, s') \<and>
    added api (collects api names (c, p)) s s'"
proof (cases "function_body api c p")
  case True
  then show ?thesis
    using match_functions_read [OF assms, of api p s]
    by (auto simp: walk_ast_def is_leaf_def collects_def function_body_def variable_def added_def sbind_Inr)
next
  case False
  then show ?thesis
    by (auto simp: walk_ast_def is_leaf_def collects_def function_body_def variable_def linked_def added_def col_view_def)
qed

lemma visitor_walk_ast:
  "walk_ast api names c p s = Inr (v, s1) \<Longrightarrow> prong_visitor_walk_ast api names c p (Inr s) = Some (v, Inr s1)"
  by (simp add: prong_visitor_walk_ast_def)

lemma visit_collects:
  assumes "\<forall>call \<in> set names. readable_call call"
  shows "\<exists>s'. visit_trees (prong_visitor_walk_ast api names) p ts (Inr s) = Some (False, Inr s') \<and>
    added api (concat (map (fst \<circ> collects api names) (visited api p ts)),
      concat (map (snd \<circ> collects api names) (visited api p ts))) s s'"
proof (induction api p ts arbitrary: s rule: visited.induct)
  case (1 api p)
  show ?case by (simp add: added_none)
next
  case (2 api p c kids ts)
  obtain s1 where 1: "walk_ast api names c p s = Inr (if is_leaf api c p then CXChildVisit_Continue else CXChildVisit_Recurse, s1)"
    "added api (fst (collects api names (c, p)), snd (collects api names (c, p))) s s1"
    using walk_ast_adds [OF assms, of api c p s] by auto
  show ?case
  proof (cases "is_leaf api c p")
    case True
    obtain s2 where 2: "visit_trees (prong_visitor_walk_ast api names) p ts (Inr s1) = Some (False, Inr s2)"
      "added api (concat (map (fst \<circ> collects api names) (visited api p ts)),
        concat (map (snd \<circ> collects api names) (visited api p ts))) s1 s2" using 2(2) by blast
    show ?thesis
      using visitor_walk_ast [OF 1(1)] True 2(1) added_trans [OF 1(2) 2(2)] by (simp add: comp_def)
  next
    case False
    obtain s2 where 2: "visit_trees (prong_visitor_walk_ast api names) c kids (Inr s1) = Some (False, Inr s2)"
      "added api (concat (map (fst \<circ> collects api names) (visited api c kids)),
        concat (map (snd \<circ> collects api names) (visited api c kids))) s1 s2" using 2(1) [OF False] by blast
    obtain s3 where 3: "visit_trees (prong_visitor_walk_ast api names) p ts (Inr s2) = Some (False, Inr s3)"
      "added api (concat (map (fst \<circ> collects api names) (visited api p ts)),
        concat (map (snd \<circ> collects api names) (visited api p ts))) s2 s3" using "2.IH"(2) by blast
    show ?thesis
      using visitor_walk_ast [OF 1(1)] False 2(1) 3(1) added_trans [OF added_trans [OF 1(2) 2(2)] 3(2)]
      by (simp add: comp_def)
  qed
qed

lemma concat_if: "concat (map (\<lambda>x. if P x then f x else []) xs) = concat (map f (filter P xs))"
  by (induction xs) auto

lemma collected_functions:
  "concat (map (fst \<circ> collects api names) (visited api tu (subtrees api tu)))
    = concat (map (registrations api names) (function_definitions api tu))"
  by (simp add: function_definitions_def collects_def comp_def case_prod_beta' concat_if)

lemma collected_variables:
  "concat (map (snd \<circ> collects api names) (visited api tu (subtrees api tu))) = linked_variables api tu"
  by (simp add: linked_variables_def collects_def comp_def case_prod_beta' concat_if filter_map)

text \<open>C11: The first traversal collects, for each translation unit in turn and each function
  definition in it in the order of the source, one record for every call of the command line
  that has its name and its number of arguments, and the USRs of the variables with external
  or internal linkage in the order of the source; nothing inside a body or a system header.  So the
  order of the records is that of the source, not that of the calls, and a definition named
  twice, or two static functions of one name, get two records.\<close>
theorem collection_follows_the_source:
  assumes "\<forall>call \<in> set names. readable_call call"
  shows "\<exists>s'. process_tu_array api names tus s = Inr s' \<and>
    map func_view (col_funcs s') = map func_view (col_funcs s) @
      map (cursor_view api) (concat (map (registrations api names) (concat (map (function_definitions api) tus)))) \<and>
    col_global_usrs s' = col_global_usrs s @ map (cursor_usr api) (concat (map (linked_variables api) tus))"
proof (induction tus arbitrary: s)
  case (Cons tu tus)
  obtain s1 where 1: "visit_trees (prong_visitor_walk_ast api names) tu (subtrees api tu) (Inr s) = Some (False, Inr s1)"
    "added api (concat (map (registrations api names) (function_definitions api tu)), linked_variables api tu) s s1"
    using visit_collects [OF assms, of api tu "subtrees api tu" s] by (auto simp: collected_functions collected_variables)
  with Cons [of s1] show ?case by (auto simp: visit_children_def added_def col_view_def)
qed simp

text \<open>\<open>g\<close> (10) is defined before \<open>f\<close> (20) and the global \<open>x\<close> (30); the calls name \<open>f\<close> first.\<close>

definition order_api :: "nat clang" where
  "order_api =
     \<lparr>null_cursor = 0, cursor_is_null = (\<lambda>c. c = 0), equal_cursors = (=), cursor_location = id, cursor_end = id,
      cursor_kind = (\<lambda>c. if c \<in> {10, 20} then CXCursor_FunctionDecl else if c \<in> {12, 22} then CXCursor_CompoundStmt
        else if c \<in> {11, 21} then CXCursor_ParmDecl else if c = 30 then CXCursor_VarDecl else CXCursor_OtherKind 0),
      cursor_linkage = (\<lambda>c. CXLinkage_External),
      cursor_usr = (\<lambda>c. if c = 10 then ''c:@F@g'' else if c = 20 then ''c:@F@f'' else if c = 30 then ''c:@x'' else ''c:a.c@p''),
      cursor_display_name = (\<lambda>c. if c = 10 then ''g(int *)'' else ''f(int *)''),
      cursor_spelling = (\<lambda>c. if c = 10 then ''g'' else if c = 20 then ''f'' else ''p''),
      cursor_referenced = (\<lambda>c. c), cursor_type_kind = (\<lambda>c. CXType_OtherType), cursor_binop = (\<lambda>c. 0),
      cursor_unop = (\<lambda>c. CXUnaryOperator_OtherOp), binop_Assign = 22, binop_OrAssign = 32, is_definition = (\<lambda>c. True),
      num_arguments = (\<lambda>c. 1), cursor_argument = (\<lambda>c i. c + 1), in_system_header_loc = (\<lambda>l. False),
      location_file = (\<lambda>l. Some ''a.c''), presumed_line = id, presumed_column = id,
      subtrees = (\<lambda>c. if c = 1 then [Ast 10 [Ast 11 [], Ast 12 []], Ast 20 [Ast 21 [], Ast 22 []], Ast 30 []] else [])\<rparr>"

lemma order_words: "call_words ''f(a)'' = [''f'', ''a'']" "call_words ''g(b)'' = [''g'', ''b'']"
  by (simp_all add: call_words_def parse_func_call_def parse_args.simps rtrim_def isspace_def skip_comma_def Let_def)

lemma order_collects:
  "concat (map (registrations order_api [''f(a)'', ''g(b)'']) (function_definitions order_api 1)) = [10, 20]"
  "linked_variables order_api 1 = [30]"
  by (simp_all add: function_definitions_def linked_variables_def registrations_def named_by_def order_words
      function_body_def variable_def linked_def is_leaf_def sz_sub_def SIZE_LIMIT_def order_api_def)

theorem collection_follows_the_source_witness:
  "\<exists>s'. process_tu_array order_api [''f(a)'', ''g(b)''] [1]
      \<lparr>col_funcs = [], col_global_usrs = [], col_next_block = 0\<rparr> = Inr s' \<and>
    map func_view (col_funcs s') = [(Some 10, Some ''c:@F@g'', Some ''g''), (Some 20, Some ''c:@F@f'', Some ''f'')] \<and>
    col_global_usrs s' = [''c:@x'']"
proof -
  have "\<forall>call \<in> set [''f(a)'', ''g(b)'']. readable_call call" by (simp add: readable_call_def order_words)
  from collection_follows_the_source [OF this, of order_api "[1]" "\<lparr>col_funcs = [], col_global_usrs = [], col_next_block = 0\<rparr>"]
  obtain s' where s': "process_tu_array order_api [''f(a)'', ''g(b)''] [1] \<lparr>col_funcs = [], col_global_usrs = [], col_next_block = 0\<rparr> = Inr s'"
    "map func_view (col_funcs s') = map (cursor_view order_api)
      (concat (map (registrations order_api [''f(a)'', ''g(b)'']) (function_definitions order_api 1)))"
    "col_global_usrs s' = map (cursor_usr order_api) (linked_variables order_api 1)" by auto
  with order_collects show ?thesis by (simp add: cursor_view_def order_api_def)
qed

end
