(* ===== verification/Program.thy ===== *)
theory Program
  imports Pipeline Races Visited Collection
begin

text \<open>
  What the whole program promises: what an exit status of success means, which arguments a
  function is unwound with, and that the comparisons of all ordered pairs of functions
  print what those of the unordered pairs do.
\<close>

section \<open>Comparing all pairs\<close>

text \<open>A function the comparisons can process.\<close>

definition comparable :: "'c func_info \<Rightarrow> bool" where
  "comparable f \<longleftrightarrow> all_named f \<and> (\<exists>fp. fi_access_footprint f = Some fp \<and> usrs_known fp)"

definition footprint_list :: "'c func_info \<Rightarrow> var_access list" where
  "footprint_list f = the (fi_access_footprint f)"

text \<open>No variable is still to be reported for the two functions.\<close>

definition settled :: "'c func_info \<Rightarrow> 'c func_info \<Rightarrow> bool" where
  "settled f g \<longleftrightarrow> (\<forall>va \<in> set (footprint_list f). \<forall>vb \<in> set (footprint_list g). \<not> shared va vb)"

lemma settled_sym: "settled f g \<longleftrightarrow> settled g f"
  by (auto simp: settled_def shared_def)

lemma set_footprint_same: "fi_access_footprint f = fp \<Longrightarrow> set_access_footprint fp f = f"
  by (cases f) (simp add: set_access_footprint_def)

lemma set_footprint_name [simp]: "fi_name (set_access_footprint fp f) = fi_name f"
  by (simp add: set_access_footprint_def)

lemma set_footprint_named [simp]: "all_named (set_access_footprint fp f) \<longleftrightarrow> all_named f"
  by (simp add: all_named_def tree_nodes.simps [of f] tree_nodes.simps [of "set_access_footprint fp f"])

lemma set_footprint_list [simp]: "footprint_list (set_access_footprint (Some fp) f) = fp"
  by (simp add: footprint_list_def)

lemma footprint_some: "comparable f \<Longrightarrow> fi_access_footprint f = Some (footprint_list f)"
  by (auto simp: comparable_def footprint_list_def)

lemma comparable_set: "comparable f \<Longrightarrow> usrs_known fp \<Longrightarrow> comparable (set_access_footprint (Some fp) f)"
  by (simp add: comparable_def)

text \<open>One comparison settles the pair and unsettles no other; a settled pair is passed over
  without output or change.\<close>

lemma all_nth: "(\<forall>i < length xs. \<forall>j < length ys. P (xs ! i) (ys ! j)) \<longleftrightarrow> (\<forall>x \<in> set xs. \<forall>y \<in> set ys. P x y)"
  by (simp add: all_set_conv_all_nth)

lemma live_remains:
  assumes "overlap.balanced s t"
  shows "va \<in> set (scan_a t) \<Longrightarrow> live u va \<Longrightarrow> \<exists>va' \<in> set (scan_a s). live u va'"
    and "va \<in> set (scan_b t) \<Longrightarrow> live u va \<Longrightarrow> \<exists>va' \<in> set (scan_b s). live u va'"
  using assms unfolding overlap.balanced_def by (metis in_set_conv_nth)+

lemma compare_once:
  assumes "comparable f" "comparable g"
  shows "\<exists>s. find_va_overlap src f g = Some s \<and>
    comparable (set_access_footprint (Some (scan_a s)) f) \<and> comparable (set_access_footprint (Some (scan_b s)) g) \<and>
    settled (set_access_footprint (Some (scan_a s)) f) (set_access_footprint (Some (scan_b s)) g) \<and>
    (\<forall>h. settled f h \<longrightarrow> settled (set_access_footprint (Some (scan_a s)) f) h) \<and>
    (\<forall>h. settled g h \<longrightarrow> settled (set_access_footprint (Some (scan_b s)) g) h) \<and>
    (settled f g \<longrightarrow> s = \<lparr>scan_out = '''', scan_a = footprint_list f, scan_b = footprint_list g\<rparr>)"
proof -
  let ?s = "\<lparr>scan_out = '''', scan_a = footprint_list f, scan_b = footprint_list g\<rparr>"
  have fp: "fi_access_footprint f = Some (footprint_list f)" "fi_access_footprint g = Some (footprint_list g)"
    using assms footprint_some by blast+
  have "scan_ready f g ?s" using assms fp by (auto simp: scan_ready_def comparable_def)
  from overlap.scan_all [OF this, of src] obtain s where
    s: "pair_loop (overlap_at src f g) (all_pairs (length (footprint_list f)) (length (footprint_list g))) ?s = Some s"
      "scan_ready f g s" "overlap.balanced ?s s"
      "\<forall>i < length (footprint_list f). \<forall>j < length (footprint_list g). \<not> shared (scan_a s ! i) (scan_b s ! j)"
      "(\<forall>i < length (footprint_list f). \<forall>j < length (footprint_list g).
          \<not> shared (footprint_list f ! i) (footprint_list g ! j)) \<longrightarrow> s = ?s"
    by auto
  have len: "length (scan_a s) = length (footprint_list f)" "length (scan_b s) = length (footprint_list g)"
    using s(3) by (simp_all add: overlap.balanced_def)
  have "find_va_overlap src f g = Some s" using fp s(1) by (simp add: find_va_overlap_def)
  moreover have "comparable (set_access_footprint (Some (scan_a s)) f)" "comparable (set_access_footprint (Some (scan_b s)) g)"
    using assms s(2) by (simp_all add: comparable_set scan_ready_def)
  moreover have "settled (set_access_footprint (Some (scan_a s)) f) (set_access_footprint (Some (scan_b s)) g)"
    using s(4) unfolding settled_def set_footprint_list all_nth [symmetric] len by blast
  moreover have "settled (set_access_footprint (Some (scan_a s)) f) h" if "settled f h" for h
    using that live_remains(1) [OF s(3)] by (fastforce simp: settled_def shared_def)
  moreover have "settled (set_access_footprint (Some (scan_b s)) g) h" if "settled g h" for h
    using that live_remains(2) [OF s(3)] by (fastforce simp: settled_def shared_def)
  moreover have "settled f g \<longrightarrow> s = ?s"
    using s(5) unfolding settled_def all_nth [where P = "\<lambda>x y. \<not> shared x y"] by blast
  ultimately show ?thesis by blast
qed

text \<open>The pairs compared so far are settled.\<close>

definition progress_inv :: "nat \<Rightarrow> (nat \<times> nat) set \<Rightarrow> 'c func_info list \<Rightarrow> bool" where
  "progress_inv n don fs \<longleftrightarrow> length fs = n \<and> (\<forall>f \<in> set fs. comparable f) \<and> don \<subseteq> {..<n} \<times> {..<n} \<and>
     (\<forall>(i, j) \<in> don. i \<noteq> j \<longrightarrow> settled (fs ! i) (fs ! j))"

lemma progress_step:
  assumes inv: "progress_inv n don fs" and ij: "i < n" "j < n" "i \<noteq> j"
  shows "\<exists>s. find_va_overlap src (fs ! i) (fs ! j) = Some s \<and> progress_inv n (insert (i, j) don) (store_scan i j s fs) \<and>
    ((i, j) \<in> don \<or> (j, i) \<in> don \<longrightarrow> scan_out s = '''' \<and> store_scan i j s fs = fs)"
proof -
  have len: "length fs = n" and don: "don \<subseteq> {..<n} \<times> {..<n}" using inv by (simp_all add: progress_inv_def)
  have cmp: "comparable (fs ! i)" "comparable (fs ! j)" using inv ij by (simp_all add: progress_inv_def)
  obtain s where s: "find_va_overlap src (fs ! i) (fs ! j) = Some s"
    "comparable (set_access_footprint (Some (scan_a s)) (fs ! i))" "comparable (set_access_footprint (Some (scan_b s)) (fs ! j))"
    "settled (set_access_footprint (Some (scan_a s)) (fs ! i)) (set_access_footprint (Some (scan_b s)) (fs ! j))"
    "\<And>h. settled (fs ! i) h \<Longrightarrow> settled (set_access_footprint (Some (scan_a s)) (fs ! i)) h"
    "\<And>h. settled (fs ! j) h \<Longrightarrow> settled (set_access_footprint (Some (scan_b s)) (fs ! j)) h"
    "settled (fs ! i) (fs ! j) \<Longrightarrow> s = \<lparr>scan_out = '''', scan_a = footprint_list (fs ! i), scan_b = footprint_list (fs ! j)\<rparr>"
    using compare_once [OF cmp, of src] by blast
  let ?fs = "store_scan i j s fs"
  have nth: "?fs ! k = (if k = j then set_access_footprint (Some (scan_b s)) (fs ! j)
      else if k = i then set_access_footprint (Some (scan_a s)) (fs ! i) else fs ! k)" if "k < n" for k
    using that len ij by (simp add: store_scan_def nth_list_update)
  have keep: "settled (?fs ! k) h" if "k < n" "settled (fs ! k) h" for k h
    using that s(5,6) nth by auto
  have "settled (?fs ! k) (?fs ! l)" if "(k, l) \<in> insert (i, j) don" "k \<noteq> l" for k l
  proof (cases "(k, l) = (i, j)")
    case True
    then show ?thesis using s(4) nth ij by simp
  next
    case False
    with that don inv have kl: "k < n" "l < n" "settled (fs ! k) (fs ! l)" by (auto simp: progress_inv_def)
    from keep [OF kl(1,3)] have "settled (fs ! l) (?fs ! k)" by (simp add: settled_sym)
    from keep [OF kl(2) this] show ?thesis by (simp add: settled_sym)
  qed
  moreover have "\<forall>f \<in> set ?fs. comparable f"
    using inv s(2,3) by (auto simp: store_scan_def progress_inv_def dest!: set_update_subset_insert [THEN subsetD])
  moreover have "length ?fs = n" using len by (simp add: store_scan_def)
  ultimately have "progress_inv n (insert (i, j) don) ?fs" using don ij by (auto simp: progress_inv_def)
  moreover have "scan_out s = '''' \<and> ?fs = fs" if "(i, j) \<in> don \<or> (j, i) \<in> don"
  proof -
    have "settled (fs ! i) (fs ! j)" using that inv ij settled_sym by (fastforce simp: progress_inv_def)
    from s(7) [OF this] show ?thesis
      using footprint_some [OF cmp(1)] footprint_some [OF cmp(2)]
      by (simp add: store_scan_def set_footprint_same)
  qed
  ultimately show ?thesis using s(1) by blast
qed

text \<open>Every pair whose mirror image comes earlier can be left out.\<close>

fun mirrored :: "(nat \<times> nat) set \<Rightarrow> (nat \<times> nat) list \<Rightarrow> bool" where
  "mirrored don [] = True"
| "mirrored don (p # ps) = ((snd p < fst p \<longrightarrow> (snd p, fst p) \<in> don) \<and> mirrored (insert p don) ps)"

lemma skip_mirrored:
  "progress_inv n don fs \<Longrightarrow> set ps \<subseteq> {..<n} \<times> {..<n} \<Longrightarrow> mirrored (don \<union> {(i, i) | i. True}) ps \<Longrightarrow>
    compare_functions (\<lambda>i j. find_va_overlap src) ps fs
      = compare_functions (\<lambda>i j. find_va_overlap src) (filter (\<lambda>(i, j). i < j) ps) fs"
proof (induction ps arbitrary: don fs)
  case (Cons p ps)
  obtain i j where p: "p = (i, j)" by force
  have ij: "i < n" "j < n" and ps: "set ps \<subseteq> {..<n} \<times> {..<n}" using Cons.prems(2) p by auto
  have m: "j < i \<Longrightarrow> (j, i) \<in> don" "mirrored (insert (i, j) (don \<union> {(i, i) | i. True})) ps"
    using Cons.prems(3) p by auto
  show ?case
  proof (cases "i = j")
    case True
    then have "insert (i, j) (don \<union> {(i, i) | i. True}) = don \<union> {(i, i) | i. True}" by auto
    with Cons.IH [OF Cons.prems(1) ps] m(2) True p show ?thesis by simp
  next
    case False
    obtain s where s: "find_va_overlap src (fs ! i) (fs ! j) = Some s" "progress_inv n (insert (i, j) don) (store_scan i j s fs)"
      "(i, j) \<in> don \<or> (j, i) \<in> don \<Longrightarrow> scan_out s = '''' \<and> store_scan i j s fs = fs"
      using progress_step [OF Cons.prems(1) ij False, of src] by blast
    have "mirrored (insert (i, j) don \<union> {(i, i) | i. True}) ps" using m(2) by simp
    from Cons.IH [OF s(2) ps this]
    have rest: "compare_functions (\<lambda>i j. find_va_overlap src) ps (store_scan i j s fs)
        = compare_functions (\<lambda>i j. find_va_overlap src) (filter (\<lambda>(i, j). i < j) ps) (store_scan i j s fs)" .
    show ?thesis
    proof (cases "i < j")
      case True
      with p False s(1) rest show ?thesis by simp
    next
      case no: False
      with False m(1) s(3) have "scan_out s = ''''" "store_scan i j s fs = fs" by auto
      moreover have "(@) [] = (\<lambda>out :: string. out)" by auto
      ultimately show ?thesis using p False no s(1) rest by (simp add: option.map_ident)
    qed
  qed
qed simp

lemma mirrored_append: "mirrored don (ps @ qs) \<longleftrightarrow> mirrored don ps \<and> mirrored (don \<union> set ps) qs"
  by (induction ps arbitrary: don) (auto simp: insert_is_Un [of _ don] Un_assoc)

lemma product_mirrored:
  "k \<le> n \<Longrightarrow> {..<k} \<times> {..<n} \<subseteq> don \<Longrightarrow> mirrored don (List.product [k..<n] [0..<n])"
proof (induction "n - k" arbitrary: k don)
  case (Suc d)
  then have k: "k < n" by simp
  have row: "mirrored don (map (Pair k) js)" if "set js \<subseteq> {..<n}" "{..<k} \<times> {..<n} \<subseteq> don" for js don
    using that
  proof (induction js arbitrary: don)
    case (Cons j js)
    then have "{..<k} \<times> {..<n} \<subseteq> insert (k, j) don" by blast
    with Cons k show ?case by auto
  qed simp
  have "mirrored (don \<union> set (map (Pair k) [0..<n])) (List.product [Suc k..<n] [0..<n])"
    using Suc.prems(2) k Suc.hyps(2) by (intro Suc.hyps(1)) (auto simp: less_Suc_eq)
  moreover have "mirrored don (map (Pair k) [0..<n])" using Suc.prems(2) by (intro row) auto
  ultimately show ?case by (simp add: upt_conv_Cons [OF k] mirrored_append)
qed simp

lemma comparisons_succeed:
  "progress_inv n don fs \<Longrightarrow> set ps \<subseteq> {..<n} \<times> {..<n} \<Longrightarrow>
    \<exists>out. compare_functions (\<lambda>i j. find_va_overlap src) ps fs = Some out"
proof (induction ps arbitrary: don fs)
  case (Cons p ps)
  obtain i j where p: "p = (i, j)" by force
  have ij: "i < n" "j < n" and ps: "set ps \<subseteq> {..<n} \<times> {..<n}" using Cons.prems(2) p by auto
  show ?case
  proof (cases "i = j")
    case True
    with p Cons.IH [OF Cons.prems(1) ps] show ?thesis by simp
  next
    case False
    obtain s where s: "find_va_overlap src (fs ! i) (fs ! j) = Some s" "progress_inv n (insert (i, j) don) (store_scan i j s fs)"
      using progress_step [OF Cons.prems(1) ij False, of src] by blast
    with p False Cons.IH [OF s(2) ps] show ?thesis by auto
  qed
qed simp

lemma progress_start: "\<forall>f \<in> set fs. comparable f \<Longrightarrow> progress_inv (length fs) {} fs"
  by (simp add: progress_inv_def)

text \<open>C6: Only half of the comparisons matter.  The program compares every ordered pair of
  functions, and a comparison nullifies the accesses it reports; so when the accesses of the
  functions have USRs, every comparison succeeds, that of \<open>j\<close> with \<open>i\<close> finds nothing after
  that of \<open>i\<close> with \<open>j\<close>, whatever was compared between them, and the whole output is that of
  the pairs with \<open>i < j\<close>.\<close>
theorem each_pair_is_compared_once:
  assumes "\<forall>f \<in> set fs. comparable f"
  shows "compare_functions (\<lambda>i j. find_va_overlap src) (List.product [0..<length fs] [0..<length fs]) fs
      = compare_functions (\<lambda>i j. find_va_overlap src)
          (filter (\<lambda>(i, j). i < j) (List.product [0..<length fs] [0..<length fs])) fs \<and>
    (\<exists>out. compare_functions (\<lambda>i j. find_va_overlap src) (List.product [0..<length fs] [0..<length fs]) fs = Some out)"
proof (rule conjI)
  have ps: "set (List.product [0..<length fs] [0..<length fs]) \<subseteq> {..<length fs} \<times> {..<length fs}" by auto
  have "mirrored ({} \<union> {(i, i) | i. True}) (List.product [0..<length fs] [0..<length fs])"
    by (rule product_mirrored) auto
  from skip_mirrored [OF progress_start [OF assms] ps this]
  show "compare_functions (\<lambda>i j. find_va_overlap src) (List.product [0..<length fs] [0..<length fs]) fs
      = compare_functions (\<lambda>i j. find_va_overlap src)
          (filter (\<lambda>(i, j). i < j) (List.product [0..<length fs] [0..<length fs])) fs" .
  show "\<exists>out. compare_functions (\<lambda>i j. find_va_overlap src) (List.product [0..<length fs] [0..<length fs]) fs = Some out"
    by (rule comparisons_succeed [OF progress_start [OF assms] ps])
qed

definition three_functions :: "unit func_info list" where
  "three_functions = [sample_func [plain_access ''c:@x'' VarAccess_Write],
     sample_func [plain_access ''c:@x'' VarAccess_Read, plain_access ''c:@y'' VarAccess_Write],
     sample_func [plain_access ''c:@y'' VarAccess_Read]]"

theorem each_pair_is_compared_once_witness:
  "compare_functions (\<lambda>i j. find_va_overlap \<lparr>file_name = (\<lambda>_. ''a.c''), source_line = (\<lambda>_ _ _. '''')\<rparr>)
      (List.product [0, 1, 2] [0, 1, 2]) three_functions
    = compare_functions (\<lambda>i j. find_va_overlap \<lparr>file_name = (\<lambda>_. ''a.c''), source_line = (\<lambda>_ _ _. '''')\<rparr>)
      [(0, 1), (0, 2), (1, 2)] three_functions"
proof -
  have "\<forall>f \<in> set three_functions. comparable f"
    by (simp add: three_functions_def comparable_def usrs_known_def)
  from each_pair_is_compared_once [OF this, of "\<lparr>file_name = (\<lambda>_. ''a.c''), source_line = (\<lambda>_ _ _. '''')\<rparr>"]
  show ?thesis by (simp add: three_functions_def upt_rec numeral_2_eq_2 numeral_3_eq_3)
qed

section \<open>Arguments\<close>

lemma unwind_positions:
  "unwind_functions al au names h i fs = Inr (fs', h') \<Longrightarrow> i + length fs \<le> length names \<Longrightarrow>
    length fs' = length fs \<and> (\<forall>k < length fs. \<exists>h1 h2.
      unwind_func_info al au h1 (fs ! k) (Some (call_words (names ! (i + k)))) = Some (fs' ! k, h2))"
proof (induction fs arbitrary: h i fs' h')
  case (Cons f fs)
  have name: "strs_at names i = Some (Some (names ! i))" using Cons.prems(2) by (auto simp: strs_at_def)
  note words = call_parse [of "names ! i"]
  from Cons.prems(1) name words obtain f1 h1 fs1 where
    f: "unwind_func_info al au h f (Some (call_words (names ! i))) = Some (f1, h1)"
      "unwind_functions al au names h1 (Suc i) fs = Inr (fs1, h')" "fs' = f1 # fs1"
    by (auto simp: sbind_Inr defined_Inr)
  from Cons.IH [OF f(2)] Cons.prems(2) have
    "length fs1 = length fs" and rest: "\<And>k. k < length fs \<Longrightarrow> \<exists>h1 h2.
      unwind_func_info al au h1 (fs ! k) (Some (call_words (names ! (Suc i + k)))) = Some (fs1 ! k, h2)" by auto
  moreover have "\<exists>h1 h2. unwind_func_info al au h1 ((f # fs) ! k) (Some (call_words (names ! (i + k)))) = Some (fs' ! k, h2)"
    if "k < length (f # fs)" for k
    using that rest f by (cases k) auto
  ultimately show ?case using f(3) by simp
qed simp

text \<open>\<open>g\<close> and \<open>f\<close> of \<open>order_api\<close> each write to what their parameter points to.\<close>

definition writer :: "nat \<Rightarrow> string \<Rightarrow> nat func_info" where
  "writer c name = FuncInfo (Some c) (Some (CStr 0 (''c:@F@'' @ name))) (Some (CStr 1 name)) (Some (CStr 2 name))
     [''c:a.c@'' @ name] [] None None (Some [(plain_access (''c:a.c@'' @ name) VarAccess_PtrWrite)\<lparr>va_is_ptr_type := True\<rparr>]) False True"

text \<open>C28: Which arguments a function gets is decided by its position among the registered
  functions, not by its name: the function registered as number \<open>k\<close> is unwound with the
  arguments of call number \<open>k\<close> of the command line.\<close>
theorem arguments_go_by_position:
  assumes "unwind_functions al au names h 0 fs = Inr (fs', h')" "length fs = length names"
  shows "length fs' = length fs \<and> (\<forall>k < length fs. \<exists>h1 h2.
    unwind_func_info al au h1 (fs ! k) (Some (call_words (names ! k))) = Some (fs' ! k, h2))"
  using unwind_positions [OF assms(1)] assms(2) by simp

lemma unwind_writer:
  "\<exists>f. unwind_func_info (\<lambda>_. Some 64) (\<lambda>_ _. '''') h (writer c name) (Some [other, arg]) = Some (f, Suc h) \<and>
    map usr_chars (accesses_of f) = [generate_artificial_param_usr (\<lambda>_. Some 64) (Some arg) (''c:a.c@'' @ name)]"
  by (simp add: writer_def unwind_func_info.simps [of _ _ _ "FuncInfo c u n s p l fp cs vas hd df" for c u n s p l fp cs vas hd df]
      unwind_here_def unwind_args_def unwind_aliases_def unwind_marks_def strs_at_def rename_access_def usr_chars_def
      starts_with_iff generate_artificial_param_usr_def lock_mark_def mark_access_def strs_contains_def
      set_var_accesses_def accesses_of_def plain_access_def Let_def)

theorem arguments_go_by_position_witness:
  "\<exists>fs' h'. unwind_functions (\<lambda>_. Some 64) (\<lambda>_ _. '''') [''f(a)'', ''g(b)''] 9 0 [writer 10 ''g'', writer 20 ''f''] = Inr (fs', h') \<and>
    (\<exists>h1 h2. unwind_func_info (\<lambda>_. Some 64) (\<lambda>_ _. '''') h1 (writer 10 ''g'') (Some [''f'', ''a'']) = Some (fs' ! 0, h2)) \<and>
    map (\<lambda>f. map usr_chars (accesses_of f)) fs' = [[generate_artificial_param_usr (\<lambda>_. Some 64) (Some ''a'') ''c:a.c@g''],
      [generate_artificial_param_usr (\<lambda>_. Some 64) (Some ''b'') ''c:a.c@f'']]"
proof -
  obtain fs' h' where r: "unwind_functions (\<lambda>_. Some 64) (\<lambda>_ _. '''') [''f(a)'', ''g(b)''] 9 0 [writer 10 ''g'', writer 20 ''f''] = Inr (fs', h')"
    and v: "map (\<lambda>f. map usr_chars (accesses_of f)) fs' = [[generate_artificial_param_usr (\<lambda>_. Some 64) (Some ''a'') ''c:a.c@g''],
      [generate_artificial_param_usr (\<lambda>_. Some 64) (Some ''b'') ''c:a.c@f'']]"
    using unwind_writer [of 9 10 "''g''" "''f''" "''a''"] unwind_writer [of 10 20 "''f''" "''g''" "''b''"] order_words
    by (auto simp: strs_at_def call_parse defined_def)
  from arguments_go_by_position [OF r] order_words r v show ?thesis by fastforce
qed

section \<open>The exit status\<close>

lemma check_diagnostics_status:
  "check_diagnostics us = Inr ret \<Longrightarrow> ret \<in> {ERR_OK, ERR_SYNTAX} \<and>
    (ret = ERR_OK \<longrightarrow> (\<forall>u \<in> set us. \<exists>t. u = Some t \<and> \<not> has_error (tu_diagnostics t)))"
  by (induction us rule: check_diagnostics.induct) (auto split: if_splits)

lemma scan_status: "fst (scan_lock_pair seen s) \<in> {ERR_OK, ERR_SYNTAX}"
  by (induction seen s rule: scan_lock_pair.induct) auto

lemma lock_pairs_status:
  "aos_to_lock_pair_array ss ps = Some (e, r) \<Longrightarrow> e \<in> {ERR_OK, ERR_SYNTAX}"
proof (induction ss ps arbitrary: e r rule: aos_to_lock_pair_array.induct)
  case (3 s ss p ps)
  obtain e1 l u where "scan_lock_pair [] s = (e1, l, u)" by (cases "scan_lock_pair [] s")
  with scan_status [of "[]" s] 3 show ?case by (auto simp: Let_def split: if_splits option.splits)
qed auto

lemma setup_status: "setup_lock_pairs junk user = Some (e, arr) \<Longrightarrow> e \<in> {ERR_OK, ERR_SYNTAX}"
  by (auto simp: setup_lock_pairs_def Let_def dest: lock_pairs_status split: if_splits option.splits)

lemma process_args_status:
  "process_args glob argv st = Some (e, cl) \<Longrightarrow> e \<in> {ERR_OK, ERR_INVALID_ARG} \<and>
    (e = ERR_OK \<longrightarrow> cl_file_names cl \<noteq> [] \<and> cl_func_names cl \<noteq> [])"
  by (auto simp: process_args_def split: if_splits)

text \<open>The functions registered for a command line.\<close>

definition registered :: "'c world \<Rightarrow> cmdline \<Rightarrow> 'c func_info list \<Rightarrow> bool" where
  "registered w cl fs \<longleftrightarrow> (\<exists>col. process_tu_array (w_api w) (cl_func_names cl) (map (\<lambda>u. tu_cursor (the u)) (w_units w cl))
      \<lparr>col_funcs = [], col_global_usrs = [], col_next_block = 0\<rparr> = Inr col \<and> fs = col_funcs col)"

lemma analyse_status:
  assumes "analyse n w cl pairs (w_units w cl) = Inr (ret, out)"
  shows "\<exists>fs. registered w cl fs \<and>
    (if length fs = length (cl_func_names cl) then ret = ERR_OK else ret = ERR_NOT_FOUND \<and> out = '''')"
  using assms by (auto simp: analyse_def walk_env_def registered_def Let_def sbind_Inr split: if_splits prod.splits)

text \<open>The ways to end.\<close>

lemma main_cases:
  assumes "prong_main n w argv = Inr (ret, out)"
  obtains (arguments) "ret = ERR_INVALID_ARG" "out = ''''"
  | (bad_input) "ret = ERR_SYNTAX" "out = ''''"
  | (help_only) cl where "process_args (w_glob w) (tl argv) prong_init_cmdline = Some (ERR_OK, cl)" "arg_help cl"
      "ret = ERR_OK" "out = ''''"
  | (run) cl pairs where "process_args (w_glob w) (tl argv) prong_init_cmdline = Some (ERR_OK, cl)" "\<not> arg_help cl"
      "check_diagnostics (w_units w cl) = Inr ERR_OK" "analyse n w cl pairs (w_units w cl) = Inr (ret, out)"
proof (cases "length argv < 2")
  case False
  with assms obtain e cl where args: "process_args (w_glob w) (tl argv) prong_init_cmdline = Some (e, cl)"
    by (auto simp: prong_main_def sbind_Inr defined_Inr)
  show thesis
  proof (cases "e = ERR_OK")
    case ok: True
    with assms False args obtain e' pairs where pairs: "setup_lock_pairs (w_junk w) (cl_lock_pairs cl) = Some (e', pairs)"
      by (auto simp: prong_main_def sbind_Inr defined_Inr)
    show thesis
    proof (cases "e' = ERR_OK")
      case True
      show thesis
      proof (cases "arg_help cl")
        case True
        with assms \<open>e' = ERR_OK\<close> ok False args pairs that(3) show thesis by (auto simp: prong_main_def defined_def)
      next
        case no: False
        with assms True ok False args pairs obtain e2 where e2: "check_diagnostics (w_units w cl) = Inr e2"
          by (auto simp: prong_main_def defined_def sbind_Inr Let_def)
        show thesis
        proof (cases "e2 = ERR_OK")
          case fin: True
          have "analyse n w cl pairs (w_units w cl) = Inr (ret, out)"
            using assms True ok False args pairs no e2 fin by (simp add: prong_main_def defined_def)
          with that(4) args ok no e2 fin show thesis by blast
        next
          case stop: False
          with assms True ok False args pairs no e2 check_diagnostics_status [OF e2] that(2) show thesis
            by (simp add: prong_main_def defined_def)
        qed
      qed
    next
      case stop: False
      with assms ok False args pairs setup_status [OF pairs] that(2) show thesis
        by (simp add: prong_main_def defined_def)
    qed
  next
    case stop: False
    with assms False args process_args_status [OF args] that(1) show thesis
      by (simp add: prong_main_def defined_def)
  qed
qed (use assms that(1) in \<open>simp add: prong_main_def\<close>)

text \<open>C8: What the exit status says.  Success means that both lists were given and, unless
  only help was asked for, that every unit was parsed without error and that as many function
  definitions were registered as calls were named; the status not-found means that their
  numbers differ, and every status but success comes without a report.\<close>
theorem exit_status_tells_the_stage:
  assumes "prong_main n w argv = Inr (ret, out)"
  shows "ret \<in> {ERR_OK, ERR_INVALID_ARG, ERR_SYNTAX, ERR_NOT_FOUND} \<and> (ret \<noteq> ERR_OK \<longrightarrow> out = '''') \<and>
    (ret = ERR_OK \<longrightarrow> (\<exists>cl. process_args (w_glob w) (tl argv) prong_init_cmdline = Some (ERR_OK, cl) \<and>
       cl_file_names cl \<noteq> [] \<and> cl_func_names cl \<noteq> [] \<and>
       (if arg_help cl then out = ''''
        else (\<forall>u \<in> set (w_units w cl). \<exists>t. u = Some t \<and> \<not> has_error (tu_diagnostics t)) \<and>
          (\<exists>fs. registered w cl fs \<and> length fs = length (cl_func_names cl))))) \<and>
    (ret = ERR_NOT_FOUND \<longrightarrow> (\<exists>cl fs. process_args (w_glob w) (tl argv) prong_init_cmdline = Some (ERR_OK, cl) \<and>
       registered w cl fs \<and> length fs \<noteq> length (cl_func_names cl)))"
  using assms
proof (cases rule: main_cases)
  case (help_only cl)
  then show ?thesis using process_args_status [OF help_only(1)] by auto
next
  case (run cl pairs)
  from analyse_status [OF run(4)] obtain fs where fs: "registered w cl fs"
    "if length fs = length (cl_func_names cl) then ret = ERR_OK else ret = ERR_NOT_FOUND \<and> out = ''''" by blast
  show ?thesis
  proof (cases "length fs = length (cl_func_names cl)")
    case True
    with fs run process_args_status [OF run(1)] check_diagnostics_status [OF run(3)] show ?thesis by auto
  next
    case False
    with fs run(1) show ?thesis by auto
  qed
qed simp_all

definition order_world :: "nat world" where
  "order_world = \<lparr>w_glob = (\<lambda>s. Glob_Paths [s]), w_api = order_api, w_zero_cursor = 0,
     w_units = (\<lambda>cl. [Some \<lparr>tu_cursor = 1, tu_diagnostics = [CXDiagnostic_Warning]\<rparr>]), w_alloc = (\<lambda>_. Some 64), w_junk = [],
     w_blocks = (\<lambda>i j. ((\<lambda>_. Some 64, 64), (\<lambda>_. Some 64, 128))), w_source = \<lparr>file_name = (\<lambda>_. ''a.c''), source_line = (\<lambda>_ _ _. '''')\<rparr>\<rparr>"

lemma order_args:
  "process_args (w_glob order_world) [''--files=a.c'', ''--functions=f(a);g(b)''] prong_init_cmdline
    = Some (ERR_OK, prong_init_cmdline\<lparr>cl_file_names := [''a.c''], cl_func_names := [''f(a)'', ''g(b)'']\<rparr>)"
  by (simp add: process_args_def process_arg_def starts_with_def split_comma_list_def split_semicolon_list_def
      list_entries_def is_blank_def glob_paths_def order_world_def prong_init_cmdline_def)

definition bare :: "nat \<Rightarrow> nat \<Rightarrow> string \<Rightarrow> string \<Rightarrow> string \<Rightarrow> nat func_info" where
  "bare h c usr name spelling = fst (init_func_info h (Some c) (Some usr) (Some name) (Some spelling) False True)"

lemma order_collected:
  "process_tu_array order_api [''f(a)'', ''g(b)''] [1] \<lparr>col_funcs = [], col_global_usrs = [], col_next_block = 0\<rparr>
    = Inr \<lparr>col_funcs = [bare 0 10 ''c:@F@g'' ''g(int *)'' ''g'', bare 3 20 ''c:@F@f'' ''f(int *)'' ''f''],
        col_global_usrs = [''c:@x''], col_next_block = 6\<rparr>"
  by (simp add: visit_children_def prong_visitor_walk_ast_def walk_ast_def match_function_def call_parse order_words
      sz_sub_def SIZE_LIMIT_def bare_def init_func_info_def Let_def order_api_def)

lemma bare_simps [simp]:
  "fi_cursor (bare h c usr name spelling) = Some c" "fi_in_system_header (bare h c usr name spelling) = False"
  "fi_has_definition (bare h c usr name spelling) = True" "fi_var_accesses (bare h c usr name spelling) = None"
  "fi_callees (bare h c usr name spelling) = None"
  by (simp_all add: bare_def init_func_info_def Let_def)

lemma bare_unwound: "unwind_func_info al au h (bare k c usr name spelling) p = Some (bare k c usr name spelling, h)"
  by (simp add: unwind_func_info.simps [of al au h "bare k c usr name spelling"] unwind_here_def unwind_args_def
      unwind_aliases_def unwind_marks_def split: option.split)

lemma bare_footprint: "footprint_of (bare k c usr name spelling) = Some (set_access_footprint (Some []) (bare k c usr name spelling))"
  by (simp add: footprint_of_def build_var_access_footprint.simps [of "bare k c usr name spelling"])

lemma order_walk:
  "c \<noteq> 1 \<Longrightarrow> process_func_info 1 (walk_env order_world cl us) (bare k c u n s) w = Inr (bare k c u n s, w)"
  by (simp add: visit_children_def walk_env_def order_world_def order_api_def)

lemma order_parts:
  "w_api order_world = order_api"
  "env_tu_cursors (walk_env order_world cl [Some \<lparr>tu_cursor = 1, tu_diagnostics = ds\<rparr>]) = [1]"
  by (simp_all add: order_world_def walk_env_def)

lemma order_run:
  "\<exists>out. prong_main 1 order_world [''prong'', ''--files=a.c'', ''--functions=f(a);g(b)''] = Inr (ERR_OK, out)"
proof -
  let ?cl = "prong_init_cmdline\<lparr>cl_file_names := [''a.c''], cl_func_names := [''f(a)'', ''g(b)'']\<rparr>"
  let ?us = "[Some \<lparr>tu_cursor = 1 :: nat, tu_diagnostics = [CXDiagnostic_Warning]\<rparr>]"
  have "analyse 1 order_world ?cl pairs ?us = Inr (ERR_OK, '''')" for pairs
    using order_collected
    by (simp add: analyse_def order_walk order_parts bare_unwound bare_footprint strs_at_def report_def find_va_overlap_def
        compare_pair_def store_scan_def prong_init_cmdline_def defined_def all_pairs_def Let_def
        del: process_tu_array.simps One_nat_def)
  then show ?thesis
    using order_args by (simp add: prong_main_def setup_lock_pairs_def prong_init_cmdline_def order_world_def has_error_def)
qed

theorem exit_status_tells_the_stage_witness:
  "\<exists>out. prong_main 1 order_world [''prong'', ''--files=a.c'', ''--functions=f(a);g(b)''] = Inr (ERR_OK, out) \<and>
    (\<exists>cl fs. process_args (w_glob order_world) [''--files=a.c'', ''--functions=f(a);g(b)''] prong_init_cmdline = Some (ERR_OK, cl) \<and>
       registered order_world cl fs \<and> length fs = 2)"
proof -
  obtain out where r: "prong_main 1 order_world [''prong'', ''--files=a.c'', ''--functions=f(a);g(b)''] = Inr (ERR_OK, out)"
    using order_run by blast
  from exit_status_tells_the_stage [OF r] order_args r show ?thesis by (auto simp: prong_init_cmdline_def)
qed

section \<open>The whole run ends\<close>

lemma not_fuel: "defined r \<noteq> Inl Out_Of_Fuel"
  by (simp add: defined_def split: option.split)

lemma match_functions_end: "match_functions api p names s \<noteq> Inl Out_Of_Fuel"
  by (induction names arbitrary: s) (auto simp: sbind_Inl match_function_def split: option.splits if_splits prod.splits)

lemma visit_ends:
  "visit_trees (prong_visitor_walk_ast api names) p ts r = Some (b, r') \<Longrightarrow> r \<noteq> Inl Out_Of_Fuel \<Longrightarrow> r' \<noteq> Inl Out_Of_Fuel"
proof (induction "prong_visitor_walk_ast api names" p ts r arbitrary: b r' rule: visit_trees.induct)
  case (2 p c kids ts r)
  obtain v r1 where v: "prong_visitor_walk_ast api names c p r = Some (v, r1)"
    unfolding prong_visitor_walk_ast_def by (metis surj_pair)
  with 2(5) have r1: "r1 \<noteq> Inl Out_Of_Fuel"
    by (auto simp: prong_visitor_walk_ast_def walk_ast_def sbind_def match_functions_end split: sum.splits if_splits)
  show ?case
  proof (cases v)
    case CXChildVisit_Recurse
    with 2(4) v obtain b2 r2 where k: "visit_trees (prong_visitor_walk_ast api names) c kids r1 = Some (b2, r2)"
      by (auto split: option.splits)
    from 2(2) [OF v refl CXChildVisit_Recurse k r1] have r2: "r2 \<noteq> Inl Out_Of_Fuel" .
    show ?thesis
    proof (cases b2)
      case True
      with 2(4) v k CXChildVisit_Recurse r2 show ?thesis by simp
    next
      case False
      then have "b2 = False" by simp
      moreover from this have "visit_trees (prong_visitor_walk_ast api names) p ts r2 = Some (b, r')"
        using 2(4) v k CXChildVisit_Recurse by simp
      ultimately show ?thesis by (intro 2(3) [OF v refl CXChildVisit_Recurse k refl _ _ r2])
    qed
  qed (use 2 v r1 in auto)
qed simp

lemma collection_ends: "process_tu_array api names tus s \<noteq> Inl Out_Of_Fuel"
proof (induction tus arbitrary: s)
  case (Cons tu tus)
  have "visit_children api (prong_visitor_walk_ast api names) tu (Inr s) \<noteq> Some (Inl Out_Of_Fuel)"
    using visit_ends [of api names tu "subtrees api tu" "Inr s"] by (auto simp: visit_children_def)
  with Cons not_fuel show ?case by (auto simp: sbind_Inl defined_Inr)
qed simp

lemma process_ends:
  assumes "finite (range (cursor_usr (env_api en)))" "card (range (cursor_usr (env_api en))) < n"
  shows "process_func_info n en f w \<noteq> Inl Out_Of_Fuel"
proof
  assume r: "process_func_info n en f w = Inl Out_Of_Fuel"
  show False
  proof (cases "fi_cursor f")
    case None
    with r assms(2) show False by (cases n) simp_all
  next
    case (Some c)
    have "card (range (cursor_usr (env_api en)) - set (touched_func_usrs w)) < n"
      using card_mono [OF assms(1) Diff_subset] assms(2) by (rule le_less_trans)
    from process_fault [OF assms(1) _ this _ r] Some show False by (simp add: input_fault_def)
  qed
qed

lemma walks_end:
  assumes "finite (range (cursor_usr (env_api en)))" "card (range (cursor_usr (env_api en))) < n"
  shows "walk_functions n en fs w \<noteq> Inl Out_Of_Fuel"
  by (induction fs arbitrary: w) (auto simp: sbind_Inl process_ends [OF assms])

lemma unwinding_ends: "unwind_functions al au names h i fs \<noteq> Inl Out_Of_Fuel"
  by (induction fs arbitrary: h i) (auto simp: sbind_Inl not_fuel)

lemma diagnostics_end: "check_diagnostics us \<noteq> Inl Out_Of_Fuel"
  by (induction us rule: check_diagnostics.induct) auto



end
