(* ===== verification/Source_Line.thy ===== *)
theory Source_Line
  imports Overlap "HOL-Library.Word"
begin

text \<open>
  The line of source shown under a reported access (\<open>print_source_line\<close> of \<open>src/log.c\<close>): the
  file is read with \<open>fgets\<close> into a buffer of 1024 bytes as often as the line number says, and
  the last piece read is printed with a caret below.  The contents of the file are an
  argument; \<open>None\<close> is a file that cannot be opened.  The result is \<open>None\<close> when the buffer is
  printed although nothing was ever read into it.
\<close>

definition LF :: char where
  "LF = CHR 0x0A"

definition CR :: char where
  "CR = CHR 0x0D"

definition TAB :: char where
  "TAB = CHR 0x09"

definition LINE_BUFFER :: nat where
  "LINE_BUFFER = 1024"

text \<open>\<open>fgets\<close> for a buffer of one character more than the number given: up to and with the
  newline, or as much as there is room for; the rest of the file.\<close>

fun fgets :: "nat \<Rightarrow> string \<Rightarrow> string \<times> string" where
  "fgets 0 s = ([], s)"
| "fgets (Suc n) [] = ([], [])"
| "fgets (Suc n) (c # s) = (if c = LF then ([c], s) else case fgets n s of (piece, rest) \<Rightarrow> (c # piece, rest))"

fun read_lines :: "nat \<Rightarrow> string option \<Rightarrow> string \<Rightarrow> string option" where
  "read_lines 0 buf s = buf"
| "read_lines (Suc n) buf s =
     (if s = [] then buf
      else case fgets (LINE_BUFFER - 1) s of (piece, rest) \<Rightarrow> read_lines n (Some piece) rest)"

definition c_string :: "string \<Rightarrow> string" where
  "c_string s = takeWhile (\<lambda>c. c \<noteq> NUL) s"

definition strip_newline :: "string \<Rightarrow> string" where
  "strip_newline s = takeWhile (\<lambda>c. c \<noteq> CR \<and> c \<noteq> LF) s"

definition num_tabs :: "string \<Rightarrow> nat" where
  "num_tabs s = length (filter (\<lambda>c. c = TAB) s)"

text \<open>\<open>%*s\<close>: padded to the width on the left, for a negative width on the right.\<close>

definition padded :: "int \<Rightarrow> string \<Rightarrow> string" where
  "padded width s =
     (let gap = replicate (nat \<bar>width\<bar> - length s) (CHR '' '') in if width < 0 then s @ gap else gap @ s)"

text \<open>The column is unsigned: the subtraction wraps around before it is taken for an \<open>int\<close>.\<close>

definition caret_width :: "nat \<Rightarrow> nat \<Rightarrow> int" where
  "caret_width column tabs = sint (word_of_nat column - word_of_nat tabs - 1 :: 32 word)"

definition show_source_line :: "string \<Rightarrow> nat \<Rightarrow> string" where
  "show_source_line buf column =
     (let text_line = strip_newline buf; tabs = num_tabs text_line
      in padded (int tabs) [TAB] @ CLR_VAR @ drop tabs text_line @ CLR_RESET @ NL
         @ padded (int tabs) [TAB] @ padded (caret_width column tabs) '''' @ CLR_ARROW @ ''^'' @ CLR_RESET @ NL)"

definition print_source_line :: "string option \<Rightarrow> nat \<Rightarrow> nat \<Rightarrow> string option" where
  "print_source_line contents line column =
     (case contents of
        None \<Rightarrow> Some ''''
      | Some s \<Rightarrow>
          map_option (\<lambda>piece. let buf = c_string piece in if buf = [] then '''' else show_source_line buf column)
            (read_lines line None s))"

section \<open>What is shown\<close>

definition short_line :: "string \<Rightarrow> bool" where
  "short_line x \<longleftrightarrow> length x < LINE_BUFFER - 1 \<and> LF \<notin> set x \<and> CR \<notin> set x \<and> NUL \<notin> set x"

definition file_of :: "string list \<Rightarrow> string" where
  "file_of ls = concat (map (\<lambda>x. x @ [LF]) ls)"

lemma fgets_line: "LF \<notin> set x \<Longrightarrow> length x < n \<Longrightarrow> fgets n (x @ LF # s) = (x @ [LF], s)"
proof (induction x arbitrary: n)
  case Nil
  then show ?case by (cases n) simp_all
next
  case (Cons c x)
  then show ?case by (cases n) auto
qed

lemma fgets_full: "LF \<notin> set x \<Longrightarrow> length x = n \<Longrightarrow> fgets n (x @ s) = (x, s)"
  by (induction x arbitrary: n) auto

lemma read_short_lines:
  "\<forall>x \<in> set ls. short_line x \<Longrightarrow> n < length ls \<Longrightarrow> read_lines (Suc n) buf (file_of ls @ s) = Some (ls ! n @ [LF])"
proof (induction n arbitrary: ls buf)
  case 0
  then obtain x ls' where ls: "ls = x # ls'" by (cases ls) auto
  with 0 fgets_line [of x "LINE_BUFFER - 1"] show ?case by (simp add: file_of_def short_line_def)
next
  case (Suc n)
  then obtain x ls' where ls: "ls = x # ls'" by (cases ls) auto
  with Suc.prems fgets_line [of x "LINE_BUFFER - 1" "file_of ls' @ s"] Suc.IH [of ls' "Some (x @ [LF])"]
  show ?case by (simp add: file_of_def short_line_def)
qed

lemma caret_in_range: "tabs < column \<Longrightarrow> column < 2 ^ 31 \<Longrightarrow> caret_width column tabs = int (column - tabs - 1)"
proof -
  assume c: "tabs < column" "column < 2 ^ 31"
  have "(word_of_nat column - word_of_nat tabs - 1 :: 32 word) = word_of_nat (column - tabs - 1)"
    using c by (simp add: of_nat_diff)
  moreover have "column - tabs - 1 < 2 ^ 31" using c by simp
  ultimately show ?thesis by (simp add: caret_width_def signed_of_nat signed_take_bit_int_eq_self)
qed



text \<open>A line that does not fit the buffer is read in pieces, each of which is counted as a line:
  asked for a line behind it, the program shows the one before, here the rest of the long
  line itself.\<close>
theorem long_lines_shift_the_numbers:
  assumes "LF \<notin> set x" "length x = LINE_BUFFER - 1"
  shows "print_source_line (Some (x @ y @ LF # s)) (Suc (Suc n)) column
    = print_source_line (Some (y @ LF # s)) (Suc n) column"
proof -
  have "x @ y @ LF # s \<noteq> []" by simp
  then show ?thesis
    using fgets_full [OF assms, of "y @ LF # s"]
    by (simp add: print_source_line_def split: prod.splits)
qed

text \<open>A tab inside the line counts as one it starts with: the first character is lost.\<close>

theorem inner_tab_hides_text:
  "print_source_line (Some (''x'' @ [TAB] @ ''= 1;'' @ [LF])) 1 1
    = Some ([TAB] @ CLR_VAR @ [TAB] @ ''= 1;'' @ CLR_RESET @ NL @ [TAB] @ '' '' @ CLR_ARROW @ ''^'' @ CLR_RESET @ NL)"
  using fgets_line [of "''x'' @ [TAB] @ ''= 1;''" 1023 "[]"]
  by (simp add: print_source_line_def LINE_BUFFER_def LF_def TAB_def c_string_def NUL_def show_source_line_def
      strip_newline_def CR_def num_tabs_def padded_def caret_width_def)

end
