(* ===== verification/Branch_Markers.thy ===== *)
theory Branch_Markers
  imports Visited Races
begin

text \<open>
  The way of the markers: what the walk over a function records can be annotated with lock
  protection ranges.  Every marker of an if statement is followed by that of its then
  block, and every acquisition has an object and a pair in the table, from the walk
  through unwinding to the footprint; so the search for the then block, which has no
  bound, does not run past the end, and no protection is made of a missing pair.
\<close>

section \<open>Markers in order\<close>

fun then_follows :: "var_access_type list \<Rightarrow> bool" where
  "then_follows [] = True"
| "then_follows (t # ts) = ((t = VarAccess_IfStmt \<longrightarrow> VarAccess_ThenBlock \<in> set ts) \<and> then_follows ts)"

lemma then_follows_append: "then_follows ts \<Longrightarrow> then_follows us \<Longrightarrow> then_follows (ts @ us)"
  by (induction ts) auto

lemma then_follows_no_if: "VarAccess_IfStmt \<notin> set ts \<Longrightarrow> then_follows ts"
  by (induction ts) auto

abbreviation types_of :: "var_access list \<Rightarrow> var_access_type list" where
  "types_of vas \<equiv> map va_type vas"

text \<open>An access as the walk records it: of a variable with its USR, a marker without callee, or a call.\<close>

definition branch_types :: "var_access_type set" where
  "branch_types = {VarAccess_IfStmt, VarAccess_ThenBlock, VarAccess_ElseStmt, VarAccess_EndIf}"

definition raw :: "var_access \<Rightarrow> bool" where
  "raw va \<longleftrightarrow> va_type va \<in> plain_types \<and> va_usr va \<noteq> None \<or>
     va_type va \<in> branch_types \<and> va_esc_func_spelling va = None \<or>
     va_type va = VarAccess_Call \<and> va_usr va \<noteq> None \<and> va_esc_param_idx va = NO_IDX"

definition all_raw :: "'c func_info \<Rightarrow> bool" where
  "all_raw f \<longleftrightarrow> (\<forall>va \<in> set (accesses_of f). raw va)"

lemma raw_marker: "t \<in> branch_types \<Longrightarrow> raw (marker t f)"
  by (simp add: raw_def marker_def init_var_access_def)

lemma all_raw_updates [simp]:
  "all_raw (push_access va f) \<longleftrightarrow> all_raw f \<and> raw va" "all_raw (touch_accesses f) \<longleftrightarrow> all_raw f"
  "all_raw (push_callee g f) \<longleftrightarrow> all_raw f" "all_raw (set_last_callee g f) \<longleftrightarrow> all_raw f"
  "t \<in> branch_types \<Longrightarrow> all_raw (push_marker t f) \<longleftrightarrow> all_raw f"
  using raw_marker by (auto simp: all_raw_def)

lemma branch_type_simps [simp]:
  "VarAccess_IfStmt \<in> branch_types" "VarAccess_ThenBlock \<in> branch_types" "VarAccess_ElseStmt \<in> branch_types"
  "VarAccess_EndIf \<in> branch_types"
  by (simp_all add: branch_types_def)

lemma pop_raw: "all_raw f \<Longrightarrow> pop_to_parent api track p stack f = (stack', f') \<Longrightarrow> all_raw f'"
  by (induction api track p stack f rule: pop_to_parent.induct) (auto split: if_splits)

lemma markers_raw:
  assumes "all_raw (current_func w)" "walk_markers en c p w = Inr w'"
  shows "all_raw (current_func w')"
proof -
  have "all_raw (current_func (track_ancestry en c p w))"
    using assms(1) by (auto simp: track_ancestry_def Let_def push_stack_def intro: pop_raw split: prod.split)
  then have decl: "all_raw (record_declaration (env_api en) c (current_func (track_ancestry en c p w)))"
    using declaration_extends [of "current_func (track_ancestry en c p w)" "env_api en" c]
    by (simp add: all_raw_def extended_def)
  obtain f where f: "record_block en c p (record_declaration (env_api en) c (current_func (track_ancestry en c p w))) = Inr f"
      "current_func w' = record_if en c f"
    using assms(2) by (auto simp: walk_markers_def Let_def sbind_Inr)
  have "all_raw f"
  proof (cases "env_track_locking en \<and> cursor_kind (env_api en) p = CXCursor_IfStmt")
    case True
    then show ?thesis using f(1) decl unfolding record_block_def Let_def sbind_Inr by (auto simp: sbind_Inr)
  next
    case False
    then show ?thesis using f(1) decl by (auto simp: record_block_def Let_def)
  qed
  then show ?thesis by (simp add: f(2) record_if_def)
qed

lemma reference_raw:
  assumes "all_raw (current_func w)" "record_reference en c w = Inr w'"
  shows "all_raw (current_func w')"
  using assms(2)
proof (cases rule: record_reference_cases)
  case (access va h)
  with assms(1) show ?thesis by (simp add: raw_def)
qed (use assms(1) in simp)

lemma enter_raw:
  assumes "enter_callee en c w = Inr (g, w')" "all_raw (current_func w)"
  shows "all_raw (current_func w')"
proof (rule enter_callee_cases [OF assms(1)])
  fix va
  assume "current_func w' = push_access va (push_callee g (current_func w))" "va_type va = VarAccess_Call"
    "va_usr va \<noteq> None" "va_esc_param_idx va = NO_IDX"
  with assms(2) show ?thesis by (simp add: raw_def)
qed

lemma call_raw:
  assumes "walks process" "record_call en process c w = Inr w'" "all_raw (current_func w)"
  shows "all_raw (current_func w')"
  using assms(2)
proof (cases rule: record_call_cases)
  case (descend d g w1 g' w2)
  have "callee_list g = []" "accesses_of g = []" using enter_callee_cases [OF descend(2)] by metis+
  then have "current_func w2 = current_func w1" using assms(1) descend(3) unfolding walks_def by blast
  with enter_raw [OF descend(2) assms(3)] descend(4) show ?thesis by simp
qed (use assms(3) enter_raw in auto)

lemma walk_func_raw:
  assumes "walks process" "walk_func en process c p w = Inr w'" "all_raw (current_func w)"
  shows "all_raw (current_func w')"
proof -
  obtain w1 where 1: "walk_markers en c p w = Inr w1" "walk_node en process c w1 = Inr w'"
    using assms(2) unfolding walk_func_def sbind_Inr by blast
  from markers_raw [OF assms(3) 1(1)] 1(2) show ?thesis
    using reference_raw call_raw [OF assms(1)] by (auto simp: walk_node_def split: if_splits)
qed

section \<open>The walk\<close>

text \<open>What is relied on of the compiler library: a traversal sees the same children wherever it
  starts, an if statement has a condition and a then block, a cursor equals itself.\<close>

fun wf_ast :: "'c clang \<Rightarrow> 'c ast \<Rightarrow> bool" where
  "wf_ast api (Ast c kids) \<longleftrightarrow>
     kids = subtrees api c \<and> (cursor_kind api c = CXCursor_IfStmt \<longrightarrow> 2 \<le> length kids) \<and> length kids < SIZE_LIMIT \<and>
     (\<forall>k \<in> set kids. wf_ast api k)"

definition wf_units :: "'c clang \<Rightarrow> bool" where
  "wf_units api \<longleftrightarrow> (\<forall>c. \<forall>t \<in> set (subtrees api c). wf_ast api t) \<and> (\<forall>c. equal_cursors api c c)"

text \<open>One step: the types recorded, with the marker of an if statement last.\<close>

definition appends :: "'c walk \<Rightarrow> 'c walk \<Rightarrow> var_access_type list \<Rightarrow> bool" where
  "appends w w' ts \<longleftrightarrow> types_of (accesses_of (current_func w')) = types_of (accesses_of (current_func w)) @ ts"

lemma appends_refl: "appends w w []"
  by (simp add: appends_def)

lemma appends_trans: "appends w w1 ts \<Longrightarrow> appends w1 w2 us \<Longrightarrow> appends w w2 (ts @ us)"
  by (simp add: appends_def)

lemma node_appends:
  assumes "walks process" "walk_node en process c w = Inr w'"
  shows "\<exists>ts. appends w w' ts \<and> VarAccess_IfStmt \<notin> set ts \<and> (cursor_kind (env_api en) c = CXCursor_IfStmt \<longrightarrow> ts = [])"
proof -
  consider (ref) "cursor_kind (env_api en) c = CXCursor_DeclRefExpr" "record_reference en c w = Inr w'"
    | (call) "cursor_kind (env_api en) c = CXCursor_CallExpr" "record_call en process c w = Inr w'"
    | (none) "w' = w"
    using assms(2) by (auto simp: walk_node_def split: if_splits)
  then show ?thesis
  proof cases
    case ref
    from reference_extends [OF ref(2)] obtain vas where
      "accesses_of (current_func w') = accesses_of (current_func w) @ vas" "va_type ` set vas \<subseteq> plain_types"
      unfolding extended_def by blast
    then have "appends w w' (types_of vas)" "VarAccess_IfStmt \<notin> set (types_of vas)"
      by (auto simp: appends_def plain_types_def)
    with ref(1) show ?thesis by auto
  next
    case call
    from call(2) have "\<exists>ts. appends w w' ts \<and> VarAccess_IfStmt \<notin> set ts"
    proof (cases rule: record_call_cases)
      case skip
      then have "appends w w' []" by (simp add: appends_def)
      then show ?thesis by force
    next
      case (leaf d g w1)
      obtain va where "current_func w1 = push_access va (push_callee g (current_func w))" "va_type va = VarAccess_Call"
        by (rule enter_callee_cases [OF leaf(2)])
      with leaf(3) have "appends w w' [VarAccess_Call]" by (simp add: appends_def)
      then show ?thesis by force
    next
      case (descend d g w1 g' w2)
      obtain va where e: "current_func w1 = push_access va (push_callee g (current_func w))" "va_type va = VarAccess_Call"
        "callee_list g = []" "accesses_of g = []"
        by (rule enter_callee_cases [OF descend(2)])
      have "current_func w2 = current_func w1" using assms(1) descend(3) e(3,4) unfolding walks_def by blast
      with e(1,2) descend(4) have "appends w w' [VarAccess_Call]" by (simp add: appends_def)
      then show ?thesis by force
    qed
    with call(1) show ?thesis by auto
  next
    case none
    then show ?thesis using appends_refl by force
  qed
qed

lemma step_appends:
  assumes "walks process" "walk_func en process c p w = Inr w'"
  obtains ts where "appends w w' (ts @ (if env_track_locking en \<and> cursor_kind (env_api en) c = CXCursor_IfStmt
      then [VarAccess_IfStmt] else []))" "VarAccess_IfStmt \<notin> set ts"
    "\<And>info. env_track_locking en \<Longrightarrow> cursor_kind (env_api en) p = CXCursor_IfStmt \<Longrightarrow>
      get_ifstmt_info (env_api en) p = Some info \<Longrightarrow> cursors_are_equal (env_api en) c (then_block info) \<Longrightarrow>
      VarAccess_ThenBlock \<in> set ts"
proof -
  obtain w1 where 1: "walk_markers en c p w = Inr w1" "walk_node en process c w1 = Inr w'"
    using assms(2) unfolding walk_func_def sbind_Inr by blast
  obtain vas where vas: "extended (current_func w) (vas @ (if env_track_locking en \<and> cursor_kind (env_api en) c = CXCursor_IfStmt
       then [marker VarAccess_IfStmt (current_func w)] else [])) (current_func w1)"
    "va_type ` set vas \<subseteq> {VarAccess_EndIf, VarAccess_ThenBlock, VarAccess_ElseStmt}"
    and th: "\<And>info. env_track_locking en \<Longrightarrow> cursor_kind (env_api en) p = CXCursor_IfStmt \<Longrightarrow>
      get_ifstmt_info (env_api en) p = Some info \<Longrightarrow> cursors_are_equal (env_api en) c (then_block info) \<Longrightarrow>
      VarAccess_ThenBlock \<in> va_type ` set vas"
    by (rule markers_extend [OF 1(1)]) blast
  obtain us where us: "appends w1 w' us" "VarAccess_IfStmt \<notin> set us"
    "cursor_kind (env_api en) c = CXCursor_IfStmt \<longrightarrow> us = []" using node_appends [OF assms(1) 1(2)] by blast
  let ?if = "if env_track_locking en \<and> cursor_kind (env_api en) c = CXCursor_IfStmt then [VarAccess_IfStmt] else []"
  have "appends w w1 (types_of vas @ ?if)" using vas(1) by (auto simp: appends_def extended_def)
  then have "appends w w' ((types_of vas @ us) @ ?if)"
    using appends_trans [OF _ us(1), of w "types_of vas @ ?if"] us(3) by (auto split: if_splits)
  moreover have "VarAccess_IfStmt \<notin> set (types_of vas @ us)" using vas(2) us(2) by auto
  ultimately show thesis using that [of "types_of vas @ us"] th by auto
qed

text \<open>A series of siblings below \<open>p\<close>.\<close>

definition closes :: "'c env \<Rightarrow> 'c \<Rightarrow> 'c ast list \<Rightarrow> 'c walk \<Rightarrow> 'c walk \<Rightarrow> bool" where
  "closes en p ts w w' \<longleftrightarrow> (\<exists>us. appends w w' us \<and> then_follows us \<and>
     (env_track_locking en \<and> cursor_kind (env_api en) p = CXCursor_IfStmt \<and>
       (\<exists>info. get_ifstmt_info (env_api en) p = Some info \<and>
         (\<exists>t \<in> set ts. cursors_are_equal (env_api en) (ast_root t) (then_block info))) \<longrightarrow> VarAccess_ThenBlock \<in> set us))"

lemma then_block_below:
  assumes "wf_units api" "wf_ast api (Ast c kids)" "cursor_kind api c = CXCursor_IfStmt"
  shows "\<exists>info. get_ifstmt_info api c = Some info \<and> (\<exists>t \<in> set kids. cursors_are_equal api (ast_root t) (then_block info))"
proof -
  from assms(2,3) have k: "kids = subtrees api c" "2 \<le> length kids" "length kids < SIZE_LIMIT" by auto
  then obtain t0 t1 ts where kids: "kids = t0 # t1 # ts" by (auto simp: Suc_le_length_iff numeral_2_eq_2)
  have "subtrees api c = t0 # t1 # ts" "length ts + 2 < SIZE_LIMIT"
    using k(3) unfolding k(1) [symmetric] kids by simp_all
  note info = ifstmt_blocks [OF this]
  have "cursors_are_equal api (ast_root t1) (ast_root t1)"
    using assms(1) by (simp add: wf_units_def cursors_are_equal_def)
  then show ?thesis using info kids by auto
qed

lemma closes_cons:
  assumes walks: "walks process" and wf: "wf_units (env_api en)" "wf_ast (env_api en) (Ast c kids)"
    and step: "walk_func en process c p w = Inr w1" and kids: "closes en c kids w1 w2" and rest: "closes en p ts w2 w'"
  shows "closes en p (Ast c kids # ts) w w'"
proof -
  obtain us where us: "appends w w1 (us @ (if env_track_locking en \<and> cursor_kind (env_api en) c = CXCursor_IfStmt
      then [VarAccess_IfStmt] else []))" "VarAccess_IfStmt \<notin> set us"
    and th: "\<And>info. env_track_locking en \<Longrightarrow> cursor_kind (env_api en) p = CXCursor_IfStmt \<Longrightarrow>
      get_ifstmt_info (env_api en) p = Some info \<Longrightarrow> cursors_are_equal (env_api en) c (then_block info) \<Longrightarrow>
      VarAccess_ThenBlock \<in> set us"
    using step_appends [OF walks step] by blast
  obtain ks where ks: "appends w1 w2 ks" "then_follows ks"
    "env_track_locking en \<and> cursor_kind (env_api en) c = CXCursor_IfStmt \<longrightarrow> VarAccess_ThenBlock \<in> set ks"
    using kids then_block_below [OF wf] unfolding closes_def by blast
  obtain vs where vs: "appends w2 w' vs" "then_follows vs"
    "env_track_locking en \<and> cursor_kind (env_api en) p = CXCursor_IfStmt \<and>
       (\<exists>info. get_ifstmt_info (env_api en) p = Some info \<and>
         (\<exists>t \<in> set ts. cursors_are_equal (env_api en) (ast_root t) (then_block info))) \<longrightarrow> VarAccess_ThenBlock \<in> set vs"
    using rest unfolding closes_def by blast
  let ?if = "if env_track_locking en \<and> cursor_kind (env_api en) c = CXCursor_IfStmt then [VarAccess_IfStmt] else []"
  have "then_follows (?if @ ks)" using ks(2,3) by auto
  then have "then_follows (us @ (?if @ ks) @ vs)"
    by (rule then_follows_append [OF then_follows_no_if [OF us(2)] then_follows_append [OF _ vs(2)]])
  moreover have "appends w w' (us @ (?if @ ks) @ vs)"
    using appends_trans [OF appends_trans [OF us(1) ks(1)] vs(1)] by simp
  ultimately show ?thesis
    unfolding closes_def using th vs(3) by (intro exI [of _ "us @ (?if @ ks) @ vs"]) auto
qed

lemma walk_visit_never_breaks:
  "visit_trees (prong_visitor_walk_func en process) p ts r = Some (b, Inr w') \<Longrightarrow> \<not> b"
proof (induction "prong_visitor_walk_func en process" p ts r arbitrary: b w' rule: visit_trees.induct)
  case (2 p c kids ts r)
  obtain v r1 where v: "prong_visitor_walk_func en process c p r = Some (v, r1)"
    using walk_visitor_result [of en process c p r] by blast
  have "v = CXChildVisit_Recurse"
    using v 2(4) by (auto simp: prong_visitor_walk_func_def split: sum.splits)
  obtain b2 r2 where k: "visit_trees (prong_visitor_walk_func en process) c kids r1 = Some (b2, r2)"
    using walk_visit_total [of en process c kids r1] by blast
  show ?case
  proof (cases b2)
    case True
    with 2(4) v k \<open>v = CXChildVisit_Recurse\<close> have "r2 = Inr w'" by simp
    from 2(2) [OF v refl \<open>v = CXChildVisit_Recurse\<close> k [unfolded this]] True show ?thesis by simp
  next
    case False
    then have "b2 = False" by simp
    moreover from this have "visit_trees (prong_visitor_walk_func en process) p ts r2 = Some (b, Inr w')"
      using 2(4) v k \<open>v = CXChildVisit_Recurse\<close> by simp
    ultimately show ?thesis by (rule 2(3) [OF v refl \<open>v = CXChildVisit_Recurse\<close> k refl])
  qed
qed simp

lemma visit_closes:
  assumes "walks process" "wf_units (env_api en)"
  shows "visit_trees (prong_visitor_walk_func en process) p ts r = Some (b, Inr w') \<Longrightarrow>
    \<forall>t \<in> set ts. wf_ast (env_api en) t \<Longrightarrow> \<exists>w. r = Inr w \<and> closes en p ts w w'"
proof (induction "prong_visitor_walk_func en process" p ts r arbitrary: b w' rule: visit_trees.induct)
  case (1 p r)
  then show ?case using appends_refl by (force simp: closes_def)
next
  case (2 p c kids ts r)
  obtain v r1 where v: "prong_visitor_walk_func en process c p r = Some (v, r1)"
    using walk_visitor_result [of en process c p r] by blast
  have wf: "wf_ast (env_api en) (Ast c kids)" "\<forall>t \<in> set kids. wf_ast (env_api en) t" "\<forall>t \<in> set ts. wf_ast (env_api en) t"
    using 2(5) by auto
  show ?case
  proof (cases r1)
    case (Inl e)
    with v have "v = CXChildVisit_Break" by (auto simp: prong_visitor_walk_func_def split: sum.splits)
    with v Inl 2(4) show ?thesis by simp
  next
    case (Inr w1)
    with v obtain w where w: "r = Inr w" "walk_func en process c p w = Inr w1" "v = CXChildVisit_Recurse"
      by (auto simp: prong_visitor_walk_func_def sbind_Inr split: sum.splits)
    obtain b2 r2 where k: "visit_trees (prong_visitor_walk_func en process) c kids r1 = Some (b2, r2)"
      using walk_visit_total [of en process c kids r1] by blast
    have b2: "b2 = False"
      using 2(4) v k w(3) walk_visit_never_breaks [of en process c kids r1 b2] by (cases b2) auto
    with 2(4) v k w(3) have rest: "visit_trees (prong_visitor_walk_func en process) p ts r2 = Some (b, Inr w')" by simp
    from 2(3) [OF v refl w(3) k refl b2 rest wf(3)] obtain w2 where w2: "r2 = Inr w2" "closes en p ts w2 w'" by blast
    from 2(2) [OF v refl w(3) k [unfolded w2(1)] wf(2)] Inr have "closes en c kids w1 w2" by simp
    from closes_cons [OF assms wf(1) w(2) this w2(2)] w(1) show ?thesis by blast
  qed
qed

text \<open>The records of a walk: in every function the markers close, and the accesses are raw.\<close>

definition well_recorded :: "'c func_info \<Rightarrow> bool" where
  "well_recorded f \<longleftrightarrow> fi_name f \<noteq> None \<and> matched f \<and> then_follows (types_of (accesses_of f)) \<and> all_raw f"

definition records :: "('c func_info \<Rightarrow> 'c walk \<Rightarrow> fault + 'c func_info \<times> 'c walk) \<Rightarrow> bool" where
  "records process \<longleftrightarrow> (\<forall>g w g' w'. process g w = Inr (g', w') \<longrightarrow> callee_list g = [] \<longrightarrow> accesses_of g = [] \<longrightarrow>
     fi_name g \<noteq> None \<longrightarrow> (\<forall>n \<in> set (tree_nodes g'). well_recorded n))"

definition recorded_below :: "'c walk \<Rightarrow> bool" where
  "recorded_below w \<longleftrightarrow> all_raw (current_func w) \<and> (\<forall>n \<in> set (below (callee_list (current_func w))). well_recorded n)"

lemma markers_callees: "walk_markers en c p w = Inr w' \<Longrightarrow> callee_list (current_func w') = callee_list (current_func w)"
  using markers_extend [of en c p w w'] by (auto simp: extended_def)

lemma well_recorded_fresh: "accesses_of g = [] \<Longrightarrow> callee_list g = [] \<Longrightarrow> fi_name g \<noteq> None \<Longrightarrow> well_recorded g"
  by (simp add: well_recorded_def all_raw_def matched_def)

lemma call_records:
  assumes "walks process" "records process" "record_call en process c w = Inr w'" "recorded_below w"
  shows "recorded_below w'"
proof -
  have raw: "all_raw (current_func w')" using call_raw [OF assms(1,3)] assms(4) by (simp add: recorded_below_def)
  from assms(3) have "\<forall>n \<in> set (below (callee_list (current_func w'))). well_recorded n"
  proof (cases rule: record_call_cases)
    case skip
    then show ?thesis using assms(4) by (simp add: recorded_below_def)
  next
    case (leaf d g w1)
    obtain va where "current_func w1 = push_access va (push_callee g (current_func w))" "callee_list g = []" "accesses_of g = []"
      "fi_name g \<noteq> None"
      by (rule enter_callee_cases [OF leaf(2)])
    with leaf(3) assms(4) show ?thesis
      by (auto simp: recorded_below_def tree_nodes_below [of g] well_recorded_fresh)
  next
    case (descend d g w1 g' w2)
    obtain va where e: "current_func w1 = push_access va (push_callee g (current_func w))"
      "callee_list g = []" "accesses_of g = []" "fi_name g \<noteq> None"
      by (rule enter_callee_cases [OF descend(2)])
    have "current_func w2 = current_func w1" "\<forall>n \<in> set (tree_nodes g'). well_recorded n"
      using assms(1,2) descend(3) e(2,3,4) unfolding walks_def records_def by blast+
    with e(1) descend(4) assms(4) show ?thesis by (auto simp: recorded_below_def)
  qed
  with raw show ?thesis by (simp add: recorded_below_def)
qed

lemma walk_func_records:
  assumes "walks process" "records process" "walk_func en process c p w = Inr w'" "recorded_below w"
  shows "recorded_below w'"
proof -
  obtain w1 where 1: "walk_markers en c p w = Inr w1" "walk_node en process c w1 = Inr w'"
    using assms(3) unfolding walk_func_def sbind_Inr by blast
  have b1: "recorded_below w1"
    using assms(4) markers_raw [OF _ 1(1)] markers_callees [OF 1(1)] by (simp add: recorded_below_def)
  consider "record_reference en c w1 = Inr w'" | "record_call en process c w1 = Inr w'" | "w' = w1"
    using 1(2) unfolding walk_node_def by (metis sum.inject(2))
  then show ?thesis
  proof cases
    case 1
    from reference_extends [OF 1] have "callee_list (current_func w') = callee_list (current_func w1)"
      by (auto simp: extended_def)
    with b1 reference_raw [OF _ 1] show ?thesis by (simp add: recorded_below_def)
  next
    case 2
    then show ?thesis using call_records [OF assms(1,2)] b1 by blast
  next
    case 3
    then show ?thesis using b1 by simp
  qed
qed

lemma process_records:
  assumes "wf_units (env_api en)"
  shows "records (process_func_info n en)"
proof (induction n)
  case (Suc n)
  show ?case
    unfolding records_def
  proof (intro allI impI)
    fix g w g' w'
    assume p: "process_func_info (Suc n) en g w = Inr (g', w')" and fresh: "callee_list g = []" "accesses_of g = []"
      and name: "fi_name g \<noteq> None"
    have g': "same_id g g'" "\<forall>n \<in> set (tree_nodes g'). matched n"
      using process_walks [of "Suc n" en] p fresh unfolding walks_def by blast+
    from p obtain c b w1 where v: "visit_trees (prong_visitor_walk_func en (process_func_info n en)) c
        (subtrees (env_api en) c) (Inr (w\<lparr>current_func := g\<rparr>)) = Some (b, Inr w1)"
      and r: "g' = current_func w1"
      by (rule process_cases) auto
    have step: "recorded_below w \<longrightarrow> recorded_below w'" if "walk_func en (process_func_info n en) c p w = Inr w'" for c p w w'
      using walk_func_records [OF process_walks Suc that] by blast
    have "recorded_below (w\<lparr>current_func := g\<rparr>) \<longrightarrow> recorded_below w1"
      using walk_visit_steps [of en "process_func_info n en" "\<lambda>w w'. recorded_below w \<longrightarrow> recorded_below w'", OF step _ _ v]
      by auto
    moreover have "recorded_below (w\<lparr>current_func := g\<rparr>)" using fresh by (simp add: recorded_below_def all_raw_def)
    ultimately have below: "recorded_below w1" by blast
    have "\<forall>t \<in> set (subtrees (env_api en) c). wf_ast (env_api en) t" using assms by (simp add: wf_units_def)
    with visit_closes [OF process_walks assms v] have "closes en c (subtrees (env_api en) c) (w\<lparr>current_func := g\<rparr>) w1"
      by simp
    then have "then_follows (types_of (accesses_of g'))" using fresh by (auto simp: closes_def appends_def r)
    moreover have "fi_name g' \<noteq> None" using g'(1) name by (simp add: same_id_def)
    ultimately show "\<forall>n \<in> set (tree_nodes g'). well_recorded n"
      using below g'(2) unfolding tree_nodes_below [of g'] by (simp add: r recorded_below_def well_recorded_def)
  qed
qed (simp add: records_def)

section \<open>Unwinding\<close>

lemma set_parts [simp]:
  "callee_list (set_var_accesses vas f) = callee_list f" "callee_list (set_callees (Some cs) f) = cs"
  "accesses_of (set_callees cs' f) = accesses_of f" "accesses_of (set_var_accesses (Some vas') f) = vas'"
  by (simp_all add: callee_list_def accesses_of_def)

text \<open>The type of a marker or a call stays, and nothing else becomes one.\<close>

definition keeps_marker :: "var_access_type \<Rightarrow> var_access_type \<Rightarrow> bool" where
  "keeps_marker t u \<longleftrightarrow> (t \<in> insert VarAccess_Call branch_types \<or> u \<in> insert VarAccess_Call branch_types \<longrightarrow> u = t)"

lemma then_follows_kept: "list_all2 keeps_marker ts us \<Longrightarrow> then_follows ts \<Longrightarrow> then_follows us"
proof (induction ts us rule: list_all2_induct)
  case (Cons t ts u us)
  have "VarAccess_ThenBlock \<in> set us" if "VarAccess_ThenBlock \<in> set ts"
  proof -
    from that obtain i where i: "i < length ts" "ts ! i = VarAccess_ThenBlock" by (auto simp: in_set_conv_nth)
    have "keeps_marker (ts ! i) (us ! i)" by (rule list_all2_nthD [OF Cons.hyps(2) i(1)])
    then have "us ! i = VarAccess_ThenBlock" by (simp add: keeps_marker_def i(2))
    with i(1) list_all2_lengthD [OF Cons.hyps(2)] show ?thesis by (metis nth_mem)
  qed
  moreover have "u = VarAccess_IfStmt \<Longrightarrow> t = VarAccess_IfStmt" using Cons.hyps(1) by (auto simp: keeps_marker_def)
  ultimately show ?case using Cons by auto
qed simp

lemma calls_kept: "list_all2 keeps_marker (types_of vas) (types_of vas') \<Longrightarrow> num_calls vas' = num_calls vas"
proof (induction vas arbitrary: vas')
  case (Cons va vas)
  then obtain va' ws where v: "vas' = va' # ws" "keeps_marker (va_type va) (va_type va')" "num_calls ws = num_calls vas"
    by (cases vas') auto
  then have "va_type va' = VarAccess_Call \<longleftrightarrow> va_type va = VarAccess_Call"
    unfolding keeps_marker_def by (metis insertI1)
  with v show ?case by simp
qed simp

text \<open>An access has a USR, and an acquisition or release comes from a function of the table.\<close>

definition cooked :: "var_access \<Rightarrow> bool" where
  "cooked va \<longleftrightarrow> (va_is_placeholder_type (va_type va) \<or> va_usr va \<noteq> None) \<and>
     (va_type va \<in> {VarAccess_LockAcquire, VarAccess_LockRelease} \<longrightarrow>
       (\<exists>s. va_esc_func_spelling va = Some s \<and> lock_primitive_type (cstr_chars s) = va_type va))"

definition well_unwound :: "'c func_info \<Rightarrow> bool" where
  "well_unwound f \<longleftrightarrow> matched f \<and> then_follows (types_of (accesses_of f)) \<and> (\<forall>va \<in> set (accesses_of f). cooked va)"

definition still_raw :: "var_access \<Rightarrow> var_access \<Rightarrow> bool" where
  "still_raw va va' \<longleftrightarrow> va_type va' = va_type va \<and> (raw va \<longrightarrow> raw va')"

lemma still_raw_recorded:
  assumes "list_all2 still_raw (accesses_of f) (accesses_of f')" "well_recorded f"
    and "fi_name f' = fi_name f" "callee_list f' = callee_list f"
  shows "well_recorded f'"
proof -
  have types: "types_of (accesses_of f') = types_of (accesses_of f)"
    using assms(1) by (auto simp: list_all2_conv_all_nth still_raw_def intro: nth_equalityI)
  then have "length (filter (\<lambda>t. t = VarAccess_Call) (types_of (accesses_of f'))) =
      length (filter (\<lambda>t. t = VarAccess_Call) (types_of (accesses_of f)))" by simp
  then have "num_calls (accesses_of f') = num_calls (accesses_of f)"
    by (simp add: num_calls_def filter_map comp_def)
  moreover have "all_raw f'"
    using assms(1,2) by (fastforce simp: list_all2_conv_all_nth still_raw_def well_recorded_def all_raw_def in_set_conv_nth)
  ultimately show ?thesis using assms(2-4) types by (simp add: well_recorded_def matched_def)
qed

lemma rename_still_raw:
  assumes "never_fails al" "rename_access al p arg h va = Some (va', h')"
  shows "still_raw va va'"
proof (cases "va_usr va")
  case (Some u)
  obtain s where "generate_artificial_param_usr al arg (cstr_chars u) = Some (CHR ''p'' # CHR '':'' # s)"
    using artificial_usr_prefix [OF assms(1)] by blast
  with Some assms(2) show ?thesis by (auto simp: rename_access_def still_raw_def raw_def split: if_splits)
qed (use assms(2) in \<open>simp add: rename_access_def still_raw_def\<close>)

lemma still_raw_trans: "list_all2 still_raw xs ys \<Longrightarrow> list_all2 still_raw ys zs \<Longrightarrow> list_all2 still_raw xs zs"
  by (erule (1) list_all2_trans [rotated]) (auto simp: still_raw_def)

lemma map_args_still_raw:
  "map_args al params parsed h vas is = Some (vas', h') \<Longrightarrow> never_fails al \<Longrightarrow> list_all2 still_raw vas vas'"
proof (induction al params parsed h vas "is" arbitrary: vas' h' rule: map_args.induct)
  case (1 al params parsed h vas)
  then show ?case by (simp add: still_raw_def list_all2_same)
next
  case (2 al params parsed h vas i "is")
  show ?case
  proof (cases "strs_at params (i - 1)")
    case (Some r)
    show ?thesis
    proof (cases r)
      case None
      with Some 2 show ?thesis by simp
    next
      case u: (Some u)
      with Some 2(3) obtain arg vas1 h1 where
        1: "strs_at parsed i = Some arg" "for_each (rename_access al u arg) h vas = Some (vas1, h1)"
          "map_args al params parsed h1 vas1 is = Some (vas', h')"
        by (auto simp: bind_eq_Some_conv)
      have "list_all2 still_raw vas vas1"
        by (rule for_each_all2 [OF 1(2)]) (erule rename_still_raw [OF 2(4)])
      moreover have "list_all2 still_raw vas1 vas'" using 2(2) Some u 1 2(4) by blast
      ultimately show ?thesis by (rule still_raw_trans)
    qed
  qed (use 2(3) in simp)
qed

text \<open>Resolving aliases changes USRs in the callees, nothing else.\<close>

lemma resolve_access_still_raw: "resolve_access u v h va = Some (va', h') \<Longrightarrow> still_raw va va'"
  by (auto simp: resolve_access_def still_raw_def raw_def split: if_splits option.splits)

lemma resolve_alias_recorded:
  assumes "resolve_var_access_alias arg_usr h (Some f) va = Some (Some g, h')" "well_recorded f"
  shows "well_recorded g" "fi_callees g = fi_callees f"
proof -
  consider "g = f" | vas vas' where "fi_var_accesses f = Some vas" "g = set_var_accesses (Some vas') f"
    "for_each (resolve_access (arg_usr (fi_cursor f) (va_esc_param_idx va)) va) h vas = Some (vas', h')"
    using assms(1) by (auto simp: resolve_var_access_alias_def Let_def split: option.splits)
  then have "well_recorded g \<and> fi_callees g = fi_callees f"
  proof cases
    case (2 vas vas')
    have "list_all2 still_raw vas vas'"
      by (rule for_each_all2 [OF 2(3)]) (erule resolve_access_still_raw)
    with 2 have "list_all2 still_raw (accesses_of f) (accesses_of g)" by (simp add: accesses_of_def)
    from still_raw_recorded [OF this assms(2)] 2(2) show ?thesis by (simp add: callee_list_def)
  qed (use assms(2) in simp)
  then show "well_recorded g" "fi_callees g = fi_callees f" by simp_all
qed

definition all_recorded :: "'c func_info \<Rightarrow> bool" where
  "all_recorded f \<longleftrightarrow> (\<forall>g \<in> set (tree_nodes f). well_recorded g)"

lemma all_recorded_callees:
  "all_recorded f \<longleftrightarrow> well_recorded f \<and> (\<forall>c \<in> set (callee_list f). all_recorded c)"
  by (auto simp: all_recorded_def tree_nodes_callees [of f])

lemma resolve_calls_recorded:
  "resolve_calls arg_usr h cs n vas = Some (cs', h') \<Longrightarrow> \<forall>c \<in> set cs. all_recorded c \<Longrightarrow>
    \<forall>c \<in> set cs'. all_recorded c"
proof (induction vas arbitrary: h cs n)
  case (Cons va vas)
  from Cons.prems(1) show ?case
  proof (cases rule: resolve_calls_step)
    case skip
    then show ?thesis using Cons.IH Cons.prems(2) by blast
  next
    case (call g h1)
    have c: "all_recorded (cs ! n)" using Cons.prems(2) call(1) by simp
    then have "well_recorded (cs ! n)" by (simp add: all_recorded_callees [of "cs ! n"])
    note g = resolve_alias_recorded [OF call(3) this]
    have "callee_list g = callee_list (cs ! n)" using g(2) by (simp add: callee_list_def)
    with c g(1) have "all_recorded g"
      by (simp add: all_recorded_callees [of g] all_recorded_callees [of "cs ! n"])
    with Cons.prems(2) have "\<forall>c \<in> set (cs[n := g]). all_recorded c"
      using set_update_subset_insert [of cs n g] by blast
    with Cons.IH [OF call(4)] show ?thesis by blast
  qed
qed simp

lemma unwind_args_recorded:
  assumes "unwind_args al h f parsed = Some (f', h')" "never_fails al" "well_recorded f"
  shows "well_recorded f'"
proof -
  have "f' = f \<or> (\<exists>is ps vas vas'. fi_var_accesses f = Some vas \<and> f' = set_var_accesses (Some vas') f \<and>
    map_args al (fi_params f) ps h vas is = Some (vas', h'))"
    using assms(1) by (cases parsed; cases "fi_var_accesses f") (fastforce simp: unwind_args_def simp del: upt_Suc)+
  then show ?thesis
  proof (elim disjE exE conjE)
    fix "is" ps vas vas'
    assume m: "fi_var_accesses f = Some vas" "f' = set_var_accesses (Some vas') f"
      "map_args al (fi_params f) ps h vas is = Some (vas', h')"
    from m(1,2) map_args_still_raw [OF m(3) assms(2)] have "list_all2 still_raw (accesses_of f) (accesses_of f')"
      by (simp add: accesses_of_def)
    then show ?thesis by (rule still_raw_recorded [OF _ assms(3)]) (simp_all add: m(2))
  qed (use assms(3) in simp)
qed

lemma unwind_aliases_recorded:
  assumes "unwind_aliases arg_usr h f = Some (f', h')" "\<forall>c \<in> set (callee_list f). all_recorded c"
  shows "(\<forall>c \<in> set (callee_list f'). all_recorded c) \<and> fi_name f' = fi_name f \<and>
    length (callee_list f') = length (callee_list f)"
proof -
  consider "f' = f" | cs vas cs' where "fi_callees f = Some cs" "f' = set_callees (Some cs') f"
    "resolve_calls arg_usr h cs 0 vas = Some (cs', h')"
    using assms(1) by (auto simp: unwind_aliases_def split: option.splits)
  then show ?thesis
  proof cases
    case (2 cs vas cs')
    then show ?thesis
      using resolve_calls_recorded [OF 2(3)] map_eq_imp_length_eq [OF resolve_calls_height [OF 2(3)]] assms(2)
      by (simp add: callee_list_def)
  qed (use assms(2) in simp)
qed

text \<open>Marking makes acquisitions and releases of what was passed to a lock function.\<close>

lemma mark_access_cooked:
  assumes "mark_access params locals va = Some va'" "raw va"
  shows "keeps_marker (va_type va) (va_type va') \<and> cooked va'"
proof -
  consider (plain) u where "va_type va \<in> plain_types" "va_usr va = Some u"
    | (marker) "va_type va \<in> branch_types \<or> va_type va = VarAccess_Call" "lock_mark va = VarAccess_Null"
    using assms(2) unfolding raw_def by (auto simp: lock_mark_def NO_IDX_def UINT_MAX_def split: option.splits)
  then show ?thesis
  proof cases
    case plain
    have m: "lock_mark va \<notin> insert VarAccess_Call branch_types"
      "lock_mark va \<noteq> VarAccess_Null \<Longrightarrow>
        \<exists>s. va_esc_func_spelling va = Some s \<and> lock_primitive_type (cstr_chars s) = lock_mark va"
      using lock_mark_range [of va] by (auto simp: branch_types_def lock_mark_def split: option.splits if_splits)
    from assms(1) mark_access_cases [OF plain(2), of params "locals"]
    have "va' = va\<lparr>va_type := va_type va'\<rparr>" "va_type va' \<in> {lock_mark va, VarAccess_Null, va_type va}"
      "lock_mark va \<noteq> VarAccess_Null \<Longrightarrow> va_type va' = lock_mark va"
      by (auto split: if_splits)
    note t = this
    have e: "va_usr va' = va_usr va" "va_esc_func_spelling va' = va_esc_func_spelling va"
      by (subst t(1), simp)+
    have p: "va_type va \<notin> insert VarAccess_Call branch_types" "va_type va \<notin> {VarAccess_LockAcquire, VarAccess_LockRelease}"
      using plain(1) by (auto simp: plain_types_def branch_types_def)
    show ?thesis
    proof (cases "lock_mark va = VarAccess_Null")
      case True
      with t(2) p plain(2) e(1) show ?thesis by (auto simp: keeps_marker_def cooked_def branch_types_def)
    next
      case False
      with t(3) m p(1) plain(2) e show ?thesis by (simp add: keeps_marker_def cooked_def)
    qed
  next
    case marker
    then have "va' = va" using assms(1) by (auto simp: mark_access_def branch_types_def)
    with marker(1) show ?thesis by (auto simp: keeps_marker_def cooked_def branch_types_def)
  qed
qed

lemma mark_accesses_cooked:
  "mark_accesses params locals vas = Some vas' \<Longrightarrow> \<forall>va \<in> set vas. raw va \<Longrightarrow>
    list_all2 keeps_marker (types_of vas) (types_of vas') \<and> (\<forall>va \<in> set vas'. cooked va)"
proof (induction vas arbitrary: vas')
  case (Cons va vas)
  from Cons.prems(1) obtain va1 vas1 where
    "vas' = va1 # vas1" "mark_access params locals va = Some va1" "mark_accesses params locals vas = Some vas1"
    by (auto simp: bind_eq_Some_conv)
  with Cons.IH [of vas1] Cons.prems(2) mark_access_cooked [of params "locals" va va1] show ?case by simp
qed simp

lemma unwind_here_cooked:
  assumes "unwind_here al arg_usr h f parsed = Some (g, h')" "never_fails al" "all_recorded f"
  shows "well_unwound g" "\<forall>c \<in> set (callee_list g). all_recorded c" "fi_name g \<noteq> None"
proof -
  from assms(1) obtain f1 h1 f2 where u: "unwind_args al h f parsed = Some (f1, h1)"
    "unwind_aliases arg_usr h1 f1 = Some (f2, h')" "unwind_marks f2 = Some g"
    by (auto simp: unwind_here_def bind_eq_Some_conv)
  from assms(3) have f: "well_recorded f" "\<forall>c \<in> set (callee_list f). all_recorded c"
    by (simp_all add: all_recorded_callees [of f])
  have f1: "well_recorded f1" by (rule unwind_args_recorded [OF u(1) assms(2) f(1)])
  have "\<forall>c \<in> set (callee_list f1). all_recorded c"
    using f(2) unwind_args_frame(1) [OF u(1)] by (simp add: callee_list_def)
  note a = unwind_aliases_recorded [OF u(2) this]
  have g: "callee_list g = callee_list f2" "fi_name g = fi_name f2"
    using unwind_marks_frame(1) [OF u(3)] u(3)
    by (auto simp: callee_list_def unwind_marks_def split: option.splits)
  from a g(1) show "\<forall>c \<in> set (callee_list g). all_recorded c" by simp
  have "accesses_of f2 = accesses_of f1"
    using unwind_aliases_frame(1) [OF u(2)] by (simp add: accesses_of_def)
  with f1 a have f2: "well_recorded f2" by (simp add: well_recorded_def all_raw_def matched_def)
  then show "fi_name g \<noteq> None" using g(2) by (simp add: well_recorded_def)
  have match: "matched f2" using f2 by (simp add: well_recorded_def)
  show "well_unwound g"
  proof (cases "fi_var_accesses f2")
    case None
    with u(3) match show ?thesis by (auto simp: unwind_marks_def well_unwound_def accesses_of_def)
  next
    case (Some vas)
    with u(3) obtain vas' where m: "mark_accesses (fi_params f2) (fi_locals f2) vas = Some vas'"
      "g = set_var_accesses (Some vas') f2"
      by (auto simp: unwind_marks_def)
    have "\<forall>va \<in> set vas. raw va" "then_follows (types_of vas)"
      using f2 Some by (simp_all add: well_recorded_def all_raw_def accesses_of_def)
    with mark_accesses_cooked [OF m(1)] have v: "list_all2 keeps_marker (types_of vas) (types_of vas')"
      "\<forall>va \<in> set vas'. cooked va" by simp_all
    have "matched g" using match calls_kept [OF v(1)] m(2) Some by (simp add: matched_def accesses_of_def)
    with v then_follows_kept [OF v(1)] \<open>then_follows (types_of vas)\<close> m(2) show ?thesis
      by (simp add: well_unwound_def)
  qed
qed

lemma unwind_cooked:
  "unwind_func_info al arg_usr h f parsed = Some (f', h') \<Longrightarrow> never_fails al \<Longrightarrow> all_recorded f \<Longrightarrow>
    (\<forall>g \<in> set (reached f'). well_unwound g) \<and> all_named f'"
proof (induction al arg_usr h f parsed arbitrary: f' h' rule: unwind_func_info.induct)
  case (1 al arg_usr h f parsed)
  show ?case
  proof (cases "fi_in_system_header f \<or> \<not> fi_has_definition f")
    case True
    with 1(2) have "f' = f" by (simp add: unwind_func_info.simps [of al arg_usr h f])
    with True 1(4) show ?thesis
      by (auto simp: reached.simps [of f] all_recorded_def all_named_def well_recorded_def)
  next
    case False
    with 1(2) obtain f1 h1 where here: "unwind_here al arg_usr h f parsed = Some (f1, h1)"
      by (auto simp: unwind_func_info.simps [of al arg_usr h f] split: option.splits)
    note cooked = unwind_here_cooked [OF here 1(3,4)]
    show ?thesis
    proof (cases "fi_callees f1")
      case None
      with False here 1(2) have "f' = f1" by (simp add: unwind_func_info.simps [of al arg_usr h f])
      with None cooked(1,3) show ?thesis by (simp add: reached.simps [of f1] all_named_def tree_nodes.simps [of f1])
    next
      case (Some cs)
      with False here 1(2) obtain cs' where cs': "f' = set_callees (Some cs') f1"
        "for_each (\<lambda>h g. unwind_func_info al arg_usr h g None) h1 cs = Some (cs', h')"
        by (auto simp: unwind_func_info.simps [of al arg_usr h f])
      have rec: "\<forall>c \<in> set cs. all_recorded c" using cooked(2) Some by (simp add: callee_list_def)
      have all: "list_all2 (\<lambda>c c'. (\<forall>g \<in> set (reached c'). well_unwound g) \<and> all_named c') cs cs'"
        by (rule for_each_all2 [OF cs'(2)]) (use 1(1) [OF False here] Some 1(3) rec in blast)
      then have "\<forall>c' \<in> set cs'. (\<forall>g \<in> set (reached c'). well_unwound g) \<and> all_named c'"
        by (auto simp: list_all2_conv_all_nth in_set_conv_nth [of _ cs'])
      moreover have "well_unwound f'"
        using cooked(1) Some list_all2_lengthD [OF all]
        by (simp add: cs'(1) well_unwound_def matched_def callee_list_def [of f1])
      moreover have "fi_name f' \<noteq> None" using cooked(3) by (simp add: cs'(1))
      ultimately show ?thesis
        by (auto simp: cs'(1) reached.simps [of "set_callees (Some cs') f1"] all_named_def
            tree_nodes.simps [of "set_callees (Some cs') f1"])
    qed
  qed
qed

section \<open>The footprint\<close>

definition well_formed :: "var_access list \<Rightarrow> bool" where
  "well_formed fp \<longleftrightarrow> then_follows (types_of fp) \<and> (\<forall>va \<in> set fp. cooked va)"

lemma well_unwound_formed: "well_unwound f \<longleftrightarrow> matched f \<and> well_formed (accesses_of f)"
  by (simp add: well_unwound_def well_formed_def)

lemma well_formed_append: "well_formed fp \<Longrightarrow> well_formed fq \<Longrightarrow> well_formed (fp @ fq)"
  by (auto simp: well_formed_def then_follows_append)

lemma footprint_loop_formed:
  assumes "\<And>cs g acc r. fi_callees f = Some cs \<Longrightarrow> g \<in> set cs \<Longrightarrow> build_var_access_footprint g acc = Some r \<Longrightarrow>
    \<exists>fp. r = acc @ fp \<and> well_formed fp"
  shows "well_formed vas \<Longrightarrow> footprint_loop f n vas acc = Some r \<Longrightarrow>
    \<exists>fp. r = acc @ fp \<and> well_formed fp \<and> (VarAccess_ThenBlock \<in> set (types_of vas) \<longrightarrow> VarAccess_ThenBlock \<in> set (types_of fp))"
proof (induction vas arbitrary: n acc)
  case Nil
  then show ?case by (auto simp: well_formed_def)
next
  case (Cons va vas)
  have wf: "well_formed vas" "cooked va" "va_type va = VarAccess_IfStmt \<Longrightarrow> VarAccess_ThenBlock \<in> set (types_of vas)"
    using Cons.prems(1) by (auto simp: well_formed_def)
  consider (call) cs acc1 where "fi_callees f = Some cs" "va_type va = VarAccess_Call" "n < length cs"
      "build_var_access_footprint (cs ! n) acc = Some acc1" "footprint_loop f (Suc n) vas acc1 = Some r"
    | (drop) "va_type va \<in> {VarAccess_Null, VarAccess_Call}" "footprint_loop f n vas acc = Some r"
    | (keep) "footprint_loop f n vas (acc @ [va]) = Some r"
    using Cons.prems(2) by (auto simp: bind_eq_Some_conv split: option.splits if_splits)
  then show ?case
  proof cases
    case call
    obtain fp1 where 1: "acc1 = acc @ fp1" "well_formed fp1"
      using assms [OF call(1) nth_mem [OF call(3)] call(4)] by blast
    obtain fp2 where 2: "r = acc1 @ fp2" "well_formed fp2"
      "VarAccess_ThenBlock \<in> set (types_of vas) \<longrightarrow> VarAccess_ThenBlock \<in> set (types_of fp2)"
      using Cons.IH [OF wf(1) call(5)] by blast
    from 1 2 call(2) well_formed_append [OF 1(2) 2(2)] show ?thesis
      by (intro exI [of _ "fp1 @ fp2"]) auto
  next
    case drop
    from Cons.IH [OF wf(1) drop(2)] drop(1) show ?thesis by fastforce
  next
    case keep
    obtain fp where fp: "r = (acc @ [va]) @ fp" "well_formed fp"
      "VarAccess_ThenBlock \<in> set (types_of vas) \<longrightarrow> VarAccess_ThenBlock \<in> set (types_of fp)"
      using Cons.IH [OF wf(1) keep] by blast
    with wf(2,3) have "well_formed (va # fp)" by (auto simp: well_formed_def)
    with fp(1,3) show ?thesis by (intro exI [of _ "va # fp"]) auto
  qed
qed

lemma footprint_formed:
  "\<forall>g \<in> set (reached f). well_unwound g \<Longrightarrow> build_var_access_footprint f acc = Some r \<Longrightarrow>
    \<exists>fp. r = acc @ fp \<and> well_formed fp"
proof (induction f arbitrary: acc r rule: func_info_tree_induct)
  case (Node f)
  show ?case
  proof (cases "fi_in_system_header f \<or> \<not> fi_has_definition f")
    case True
    with Node.prems(2) have "r = acc" by (simp add: build_var_access_footprint.simps [of f])
    then show ?thesis by (auto simp: well_formed_def)
  next
    case False
    have loop: "footprint_loop f 0 (accesses_of f) acc = Some r"
      using False Node.prems(2)
      by (simp add: build_var_access_footprint.simps [of f] accesses_of_def split: option.splits)
    have formed: "well_formed (accesses_of f)"
      using Node.prems(1) False by (simp add: reached.simps [of f] well_unwound_formed)
    have "\<exists>fp. r = acc @ fp \<and> well_formed fp"
      if "fi_callees f = Some cs" "g \<in> set cs" "build_var_access_footprint g acc = Some r" for cs g acc r
      using Node.IH [OF that(1,2) _ that(3)] Node.prems(1) reached_callee [OF False that(1,2)] by blast
    then show ?thesis using footprint_loop_formed [OF _ formed loop] by blast
  qed
qed

lemma then_follows_nth:
  "then_follows ts \<Longrightarrow> i < length ts \<Longrightarrow> ts ! i = VarAccess_IfStmt \<Longrightarrow>
    \<exists>k. i < k \<and> k < length ts \<and> ts ! k = VarAccess_ThenBlock"
proof (induction ts arbitrary: i)
  case (Cons t ts)
  show ?case
  proof (cases i)
    case 0
    with Cons.prems have "VarAccess_ThenBlock \<in> set ts" by simp
    then obtain k where "k < length ts" "ts ! k = VarAccess_ThenBlock" by (auto simp: in_set_conv_nth)
    with 0 show ?thesis by (intro exI [of _ "Suc k"]) simp
  next
    case (Suc j)
    with Cons.IH [of j] Cons.prems obtain k where "j < k" "k < length ts" "ts ! k = VarAccess_ThenBlock" by auto
    with Suc show ?thesis by (intro exI [of _ "Suc k"]) simp
  qed
qed simp

lemma well_formed_annotatable:
  assumes "well_formed fp"
    and table: "\<And>name. lock_primitive_type name = VarAccess_LockAcquire \<Longrightarrow>
      \<exists>p. get_pair_by_lock_func pairs (Some name) = Some p \<and> \<not> lock_pair_is_null p"
  shows "annotatable pairs fp"
  unfolding annotatable_def
proof (intro allI impI conjI)
  fix i assume i: "i < length fp"
  have c: "cooked (fp ! i)" using assms(1) i by (simp add: well_formed_def)
  then show "va_usr (fp ! i) \<noteq> None" if "va_type (fp ! i) = VarAccess_LockAcquire"
    using that by (auto simp: cooked_def)
  from c show "va_usr (fp ! i) \<noteq> None" if "va_type (fp ! i) = VarAccess_LockRelease"
    using that by (auto simp: cooked_def)
  from c show "\<exists>p. get_pair_by_lock_func pairs (map_option cstr_chars (va_esc_func_spelling (fp ! i))) = Some p \<and>
      \<not> lock_pair_is_null p" if "va_type (fp ! i) = VarAccess_LockAcquire"
    using that table by (auto simp: cooked_def)
  show "find_then_block fp (i + 1) \<noteq> None" if "va_type (fp ! i) = VarAccess_IfStmt"
  proof -
    have "then_follows (types_of fp)" using assms(1) by (simp add: well_formed_def)
    from then_follows_nth [OF this, of i] i that obtain k where
      "i < k" "k < length fp" "va_type (fp ! k) = VarAccess_ThenBlock" by auto
    then show ?thesis by (auto simp: find_then_block_def find_None_iff)
  qed
qed

section \<open>From the walk to the annotation\<close>

lemma walked_footprint_formed:
  assumes "wf_units (env_api en)" "callee_list f = []" "accesses_of f = []" "fi_name f \<noteq> None"
    and "process_func_info n en f w = Inr (f1, w')"
    and "never_fails al" "unwind_func_info al arg_usr h f1 parsed = Some (f2, h')"
    and "build_var_access_footprint f2 [] = Some fp"
  shows "well_formed fp"
proof -
  have "all_recorded f1"
    using process_records [OF assms(1)] assms(2-5) unfolding records_def all_recorded_def by blast
  from unwind_cooked [OF assms(7,6) this] footprint_formed [OF _ assms(8)] show ?thesis by auto
qed

text \<open>C20: What the program records of a function it can always annotate.  Whatever the syntax
  trees of the compiler library look like, as long as every if statement has a condition and a
  then block: the footprint that the walk over a function, unwinding and inlining make has
  behind every marker of an if statement that of a then block, and every acquisition and
  release in it has an object and every acquisition a pair in the table that the command line
  sets up.  So the annotation neither runs past the end of the footprint nor meets NULL, for
  up to 524288 accesses while the array of protection ranges stays where it is.\<close>
theorem walked_functions_are_annotated:
  assumes "wf_units (env_api en)" "callee_list f = []" "accesses_of f = []" "fi_name f \<noteq> None"
    and "process_func_info n en f w = Inr (f1, w')"
    and "never_fails al" "unwind_func_info al arg_usr h f1 parsed = Some (f2, h')"
    and "build_var_access_footprint f2 [] = Some fp"
    and "\<forall>(l, u) \<in> set us. lock_name l"
    and "setup_lock_pairs junk (map (\<lambda>(l, u). l @ CHR '':'' # u) us) = Some (e, pairs)"
    and "in_place al' addr" "length fp \<le> 524288"
  shows "annotatable pairs fp \<and>
    (\<exists>arr. annotate_lock_protection_ranges al' pairs fp (init_protection_field_array addr) = Some arr)"
proof -
  have "\<exists>p. get_pair_by_lock_func pairs (Some name) = Some p \<and> \<not> lock_pair_is_null p"
    if "lock_primitive_type name = VarAccess_LockAcquire" for name
    using lock_table_complete [OF assms(9) that assms(10)] by blast
  with well_formed_annotatable [OF walked_footprint_formed [OF assms(1-8)]] have "annotatable pairs fp" by blast
  with annotate_ok [OF this assms(11,12)] show ?thesis by blast
qed

text \<open>A unit (100) of two functions, \<open>void f() { if (x) mutex_lock(&m); }\<close> and \<open>void g() { x; }\<close>.\<close>

definition unit_trees :: "nat \<Rightarrow> nat ast list" where
  "unit_trees c =
     (let call = Ast 6 [Ast 8 [], Ast 9 [Ast 10 []]]; if_stmt = Ast 3 [Ast 4 [], call]
      in if c = 1 then [Ast 2 [if_stmt]] else if c = 2 then [if_stmt] else if c = 3 then [Ast 4 [], call]
         else if c = 6 then [Ast 8 [], Ast 9 [Ast 10 []]] else if c = 9 then [Ast 10 []]
         else if c = 30 then [Ast 31 [Ast 33 []]] else if c = 31 then [Ast 33 []]
         else if c = 100 then [Ast 1 [Ast 2 [if_stmt]], Ast 30 [Ast 31 [Ast 33 []]]] else [])"

definition unit_api :: "nat clang" where
  "unit_api = sample_api\<lparr>
     cursor_kind := (\<lambda>c. if c \<in> {1, 20, 30} then CXCursor_FunctionDecl else if c \<in> {2, 31} then CXCursor_CompoundStmt
        else if c = 3 then CXCursor_IfStmt else if c \<in> {4, 8, 10, 33} then CXCursor_DeclRefExpr
        else if c \<in> {5, 11} then CXCursor_VarDecl else if c = 6 then CXCursor_CallExpr
        else if c = 9 then CXCursor_UnaryOperator else CXCursor_OtherKind 0),
     cursor_usr := (\<lambda>c. if c = 1 then ''c:@F@f'' else if c = 20 then ''c:@F@mutex_lock'' else if c = 30 then ''c:@F@g''
        else if c = 11 then ''c:@m'' else ''c:@x''),
     cursor_spelling := (\<lambda>c. if c = 1 then ''f'' else if c = 20 then ''mutex_lock'' else if c = 30 then ''g''
        else if c = 11 then ''m'' else ''x''),
     cursor_display_name := (\<lambda>c. if c = 1 then ''f()'' else if c = 20 then ''mutex_lock'' else if c = 30 then ''g()''
        else if c = 11 then ''m'' else ''x''),
     cursor_referenced := (\<lambda>c. if c \<in> {6, 8} then 20 else if c = 10 then 11 else 5),
     cursor_unop := (\<lambda>c. CXUnaryOperator_AddrOf), is_definition := (\<lambda>c. c \<in> {1, 30}),
     num_arguments := (\<lambda>c. if c = 6 then 1 else 0), cursor_argument := (\<lambda>c i. 9), subtrees := unit_trees\<rparr>"

lemma unit_sel:
  "null_cursor unit_api = 0" "cursor_is_null unit_api c = (c = 0)" "equal_cursors unit_api c d = (c = d)"
  "cursor_location unit_api c = c" "cursor_linkage unit_api c = CXLinkage_External" "cursor_type_kind unit_api c = CXType_OtherType"
  "cursor_kind unit_api c = (if c \<in> {1, 20, 30} then CXCursor_FunctionDecl else if c \<in> {2, 31} then CXCursor_CompoundStmt
        else if c = 3 then CXCursor_IfStmt else if c \<in> {4, 8, 10, 33} then CXCursor_DeclRefExpr
        else if c \<in> {5, 11} then CXCursor_VarDecl else if c = 6 then CXCursor_CallExpr
        else if c = 9 then CXCursor_UnaryOperator else CXCursor_OtherKind 0)"
  "cursor_usr unit_api c = (if c = 1 then ''c:@F@f'' else if c = 20 then ''c:@F@mutex_lock'' else if c = 30 then ''c:@F@g''
        else if c = 11 then ''c:@m'' else ''c:@x'')"
  "cursor_spelling unit_api c = (if c = 1 then ''f'' else if c = 20 then ''mutex_lock'' else if c = 30 then ''g''
        else if c = 11 then ''m'' else ''x'')"
  "cursor_display_name unit_api c = (if c = 1 then ''f()'' else if c = 20 then ''mutex_lock'' else if c = 30 then ''g()''
        else if c = 11 then ''m'' else ''x'')"
  "cursor_referenced unit_api c = (if c \<in> {6, 8} then 20 else if c = 10 then 11 else 5)"
  "cursor_unop unit_api c = CXUnaryOperator_AddrOf" "is_definition unit_api c = (c \<in> {1, 30})"
  "num_arguments unit_api c = (if c = 6 then 1 else 0)" "cursor_argument unit_api c i = 9" "subtrees unit_api c = unit_trees c"
  "in_system_header_loc unit_api l = False" "location_file unit_api l = Some ''a.c''" "presumed_line unit_api l = l"
  "presumed_column unit_api l = l" "cursor_binop unit_api c = 22" "binop_Assign unit_api = 22" "binop_OrAssign unit_api = 32"
  by (simp_all add: unit_api_def sample_api_def)

definition unit_env :: "nat env" where
  "unit_env = \<lparr>env_api = unit_api, env_tu_cursors = [], env_file_names = [''a.c''], env_track_locking = True,
     env_zero_cursor = 0\<rparr>"

lemma wf_unit: "wf_units unit_api"
proof -
  have "wf_ast unit_api t" if "t \<in> set (unit_trees c)" for c t
    using that by (auto simp: unit_trees_def unit_api_def SIZE_LIMIT_def Let_def split: if_splits)
  then show ?thesis by (simp add: wf_units_def) (simp add: unit_api_def sample_api_def)
qed

lemma unwind_known:
  "\<not> fi_in_system_header f \<Longrightarrow> fi_has_definition f \<Longrightarrow> unwind_func_info al arg_usr h f parsed =
    (case unwind_here al arg_usr h f parsed of
        None \<Rightarrow> None
      | Some (f1, h1) \<Rightarrow>
          (case fi_callees f1 of
             None \<Rightarrow> Some (f1, h1)
           | Some callees \<Rightarrow>
               map_option (\<lambda>(callees', h'). (set_callees (Some callees') f1, h'))
                 (for_each (\<lambda>h g. unwind_func_info al arg_usr h g None) h1 callees)))"
  "\<not> fi_has_definition f \<Longrightarrow> unwind_func_info al arg_usr h f parsed = Some (f, h)"
  by (simp_all add: unwind_func_info.simps [of al arg_usr h f parsed])

lemma unit_run:
  obtains f1 w' f2 h' fp where "process_func_info 2 unit_env sample_root sample_walk = Inr (f1, w')"
    "unwind_func_info (\<lambda>_. Some 64) (\<lambda>_ _. '''') 9 f1 None = Some (f2, h')"
    "build_var_access_footprint f2 [] = Some fp"
    "types_of fp = [VarAccess_IfStmt, VarAccess_Read, VarAccess_ThenBlock, VarAccess_LockAcquire]"
proof -
  have "case process_func_info 2 unit_env sample_root sample_walk of Inl e \<Rightarrow> False
    | Inr (f, w) \<Rightarrow>
     (case unwind_func_info (\<lambda>_. Some 64) (\<lambda>_ _. '''') 9 f None of None \<Rightarrow> False | Some (f1, h1) \<Rightarrow>
       (case build_var_access_footprint f1 [] of None \<Rightarrow> False | Some fp \<Rightarrow>
         types_of fp = [VarAccess_IfStmt, VarAccess_Read, VarAccess_ThenBlock, VarAccess_LockAcquire]))"
    by (simp add: walk_run sample_root_def sample_walk_def sample_env_def unit_env_def unit_sel unit_trees_def
        numeral_2_eq_2 unwind_known unwind_here_def
        unwind_args_def unwind_aliases_def unwind_marks_def mark_access_def lock_mark_def lock_primitive_type_def
        default_lock_names_def find_callexpr_definition_def resolve_var_access_alias_def resolve_access_def
        strs_contains_def build_var_access_footprint.simps)
  then show thesis using that by (auto split: sum.splits option.splits)
qed

theorem walked_functions_are_annotated_witness:
  "\<exists>f1 w' f2 h' fp arr. process_func_info 2 unit_env sample_root sample_walk = Inr (f1, w') \<and>
    unwind_func_info (\<lambda>_. Some 64) (\<lambda>_ _. '''') 9 f1 None = Some (f2, h') \<and>
    build_var_access_footprint f2 [] = Some fp \<and>
    types_of fp = [VarAccess_IfStmt, VarAccess_Read, VarAccess_ThenBlock, VarAccess_LockAcquire] \<and>
    annotate_lock_protection_ranges (\<lambda>_. Some 4096) \<lparr>lpair_data = default_lock_pairs, lpair_size = num_default_pairs\<rparr>
      fp (init_protection_field_array 4096) = Some arr"
proof -
  obtain f1 w' f2 h' fp where r: "process_func_info 2 unit_env sample_root sample_walk = Inr (f1, w')"
    "unwind_func_info (\<lambda>_. Some 64) (\<lambda>_ _. '''') 9 f1 None = Some (f2, h')"
    "build_var_access_footprint f2 [] = Some fp"
    "types_of fp = [VarAccess_IfStmt, VarAccess_Read, VarAccess_ThenBlock, VarAccess_LockAcquire]"
    by (rule unit_run)
  have wf: "wf_units (env_api unit_env)" using wf_unit by (simp add: unit_env_def)
  have al: "never_fails (\<lambda>_. Some 64)" "in_place (\<lambda>_. Some 4096) 4096" by (simp_all add: never_fails_def in_place_def)
  have "length (types_of fp) = 4" by (simp only: r(4)) simp
  then have len: "length fp \<le> 524288" by simp
  have us: "\<forall>(l, u) \<in> set []. lock_name l" by simp
  have pairs: "setup_lock_pairs [] (map (\<lambda>(l, u). l @ CHR '':'' # u) []) =
      Some (ERR_OK, \<lparr>lpair_data = default_lock_pairs, lpair_size = num_default_pairs\<rparr>)"
    using setup_lock_pairs_ok [OF us, of "[]"] by simp
  have name: "fi_name sample_root \<noteq> None" by (simp add: sample_root_def init_func_info_def)
  from walked_functions_are_annotated [OF wf sample_fresh(1,2) name r(1) al(1) r(2,3) us pairs al(2) len]
  obtain arr where "annotate_lock_protection_ranges (\<lambda>_. Some 4096)
      \<lparr>lpair_data = default_lock_pairs, lpair_size = num_default_pairs\<rparr> fp (init_protection_field_array 4096) = Some arr"
    by (elim conjE exE)
  with r show ?thesis by (intro exI conjI)
qed

end
