(* ===== verification/Safe_Run.thy ===== *)
theory Safe_Run
  imports Program Branch_Markers
begin

text \<open>
  A run without faults: on units with the shape the compiler library gives them, with names
  that fit the buffers, with memory, and with the lock pairs written as documented, no stage
  of the program overruns a buffer, reads past an array or dereferences NULL.  Each stage is
  shown to succeed on what the stage before it leaves: the walk, unwinding, the footprint
  and, with or without lock tracking, the comparison of all pairs of functions.
\<close>

section \<open>Unwinding succeeds\<close>

lemma raw_usr: "raw va \<Longrightarrow> va_is_placeholder_type (va_type va) \<or> va_usr va \<noteq> None"
  by (auto simp: raw_def branch_types_def)

lemma resolve_access_total:
  assumes "raw va" "va_usr v \<noteq> None"
  shows "\<exists>va' h'. resolve_access u v h va = Some (va', h')"
  using raw_usr [OF assms(1)] assms(2) by (auto simp: resolve_access_def)

lemma resolve_alias_total:
  assumes "well_recorded f" "va_usr v \<noteq> None"
  shows "\<exists>g h'. resolve_var_access_alias arg_usr h (Some f) v = Some (Some g, h')"
proof (cases "fi_var_accesses f")
  case (Some vas)
  then have "\<forall>va \<in> set vas. raw va" using assms(1) by (simp add: well_recorded_def all_raw_def accesses_of_def)
  then obtain vas' h' where
    "for_each (resolve_access (arg_usr (fi_cursor f) (va_esc_param_idx v)) v) h vas = Some (vas', h')"
    using for_each_total [of vas "resolve_access (arg_usr (fi_cursor f) (va_esc_param_idx v)) v" h]
      resolve_access_total [OF _ assms(2)] by meson
  with Some show ?thesis by (simp add: resolve_var_access_alias_def)
qed (simp add: resolve_var_access_alias_def)

lemma resolve_calls_total:
  "n + num_calls vas \<le> length cs \<Longrightarrow> \<forall>c \<in> set cs. all_recorded c \<Longrightarrow> \<forall>va \<in> set vas. raw va \<Longrightarrow>
    \<exists>cs' h'. resolve_calls arg_usr h cs n vas = Some (cs', h')"
proof (induction vas arbitrary: h cs n)
  case (Cons va vas)
  show ?case
  proof (cases "va_type va = VarAccess_Call")
    case False
    with Cons show ?thesis by auto
  next
    case True
    with Cons.prems(1) have n: "n < length cs" "Suc n + num_calls vas \<le> length cs" "n + num_calls vas \<le> length cs"
      by auto
    show ?thesis
    proof (cases "fi_in_system_header (cs ! n)")
      case sys: True
      with True n Cons.IH [OF n(3)] Cons.prems(2,3) show ?thesis by (simp add: Let_def)
    next
      case no: False
      have rec: "all_recorded (cs ! n)" using Cons.prems(2) n(1) by simp
      then have well: "well_recorded (cs ! n)" by (simp add: all_recorded_callees [of "cs ! n"])
      have "va_usr va \<noteq> None"
        using Cons.prems(3) True by (auto simp: raw_def plain_types_def branch_types_def)
      from resolve_alias_total [OF well this] obtain g h1 where
        g: "resolve_var_access_alias arg_usr h (Some (cs ! n)) va = Some (Some g, h1)" by blast
      from resolve_alias_recorded [OF g well] rec have "all_recorded g"
        by (simp add: all_recorded_callees [of g] all_recorded_callees [of "cs ! n"] callee_list_def)
      with Cons.prems(2) have "\<forall>c \<in> set (cs[n := g]). all_recorded c"
        using set_update_subset_insert [of cs n g] by blast
      with Cons.IH [of "Suc n" "cs[n := g]" h1] n(2) Cons.prems(3) True no n(1) g show ?thesis
        by (simp add: Let_def)
    qed
  qed
qed simp

lemma mark_access_total:
  assumes "raw va"
  shows "\<exists>va'. mark_access params locals va = Some va'"
proof (cases "va_usr va")
  case (Some u)
  from mark_access_cases [OF this] show ?thesis by blast
next
  case None
  with assms have "va_type va \<in> branch_types" "lock_mark va = VarAccess_Null"
    by (auto simp: raw_def lock_mark_def)
  then show ?thesis by (auto simp: mark_access_def branch_types_def)
qed

lemma mark_accesses_total: "\<forall>va \<in> set vas. raw va \<Longrightarrow> \<exists>vas'. mark_accesses params locals vas = Some vas'"
proof (induction vas)
  case (Cons va vas)
  then obtain vas' where "mark_accesses params locals vas = Some vas'" by auto
  moreover obtain va' where "mark_access params locals va = Some va'"
    using mark_access_total [of va params "locals"] Cons.prems by auto
  ultimately show ?case by simp
qed simp

text \<open>Arguments can be mapped when there are none or the function has parameters.\<close>

definition mappable :: "'c func_info \<Rightarrow> string list option \<Rightarrow> bool" where
  "mappable f parsed \<longleftrightarrow> (case parsed of None \<Rightarrow> True | Some ws \<Rightarrow> length ws \<le> 1 \<or> fi_params f \<noteq> [])"

lemma unwind_args_total:
  assumes "never_fails al" "mappable f parsed"
  shows "\<exists>f' h'. unwind_args al h f parsed = Some (f', h')"
proof (cases parsed)
  case (Some ws)
  show ?thesis
  proof (cases "fi_var_accesses f")
    case vas: (Some vas)
    show ?thesis
    proof (cases "fi_params f = []")
      case True
      with assms(2) Some have "[1..<length ws] = []" by (auto simp: mappable_def)
      with Some vas show ?thesis by (simp only: unwind_args_def option.case prod.case) simp
    next
      case False
      have "\<forall>i \<in> set [1..<length ws]. i < length ws" by auto
      from map_args_fold [OF assms(1) False this] obtain vas' h' where
        "map_args al (fi_params f) ws h vas [1..<length ws] = Some (vas', h')" by blast
      with Some vas show ?thesis by (simp add: unwind_args_def del: One_nat_def)
    qed
  qed (simp add: unwind_args_def Some)
qed (simp add: unwind_args_def)

lemma unwind_here_total:
  assumes "never_fails al" "all_recorded f" "mappable f parsed"
  shows "\<exists>g h'. unwind_here al arg_usr h f parsed = Some (g, h')"
proof -
  obtain f1 h1 where 1: "unwind_args al h f parsed = Some (f1, h1)"
    using unwind_args_total [OF assms(1,3)] by blast
  have f: "well_recorded f" "\<forall>c \<in> set (callee_list f). all_recorded c"
    using assms(2) by (simp_all add: all_recorded_callees [of f])
  have f1: "well_recorded f1" by (rule unwind_args_recorded [OF 1 assms(1) f(1)])
  then have raw: "\<forall>va \<in> set (accesses_of f1). raw va" by (simp add: well_recorded_def all_raw_def)
  have cs: "callee_list f1 = callee_list f" using unwind_args_frame(1) [OF 1] by (simp add: callee_list_def)
  have "\<exists>f2 h2. unwind_aliases arg_usr h1 f1 = Some (f2, h2)"
  proof (cases "fi_callees f1")
    case (Some callees)
    show ?thesis
    proof (cases "fi_var_accesses f1")
      case vas: (Some vas)
      have "0 + num_calls vas \<le> length callees"
        using f1 Some vas by (simp add: well_recorded_def matched_def callee_list_def accesses_of_def)
      moreover have "\<forall>c \<in> set callees. all_recorded c" using f(2) cs Some by (simp add: callee_list_def)
      moreover have "\<forall>va \<in> set vas. raw va" using raw vas by (simp add: accesses_of_def)
      ultimately obtain cs' h2 where "resolve_calls arg_usr h1 callees 0 vas = Some (cs', h2)"
        using resolve_calls_total by blast
      with Some vas show ?thesis by (simp add: unwind_aliases_def)
    qed (simp add: unwind_aliases_def Some)
  qed (simp add: unwind_aliases_def)
  then obtain f2 h2 where 2: "unwind_aliases arg_usr h1 f1 = Some (f2, h2)" by blast
  have "\<exists>g. unwind_marks f2 = Some g"
  proof (cases "fi_var_accesses f2")
    case (Some vas)
    then have "\<forall>va \<in> set vas. raw va" using raw unwind_aliases_frame(1) [OF 2] by (simp add: accesses_of_def)
    from mark_accesses_total [OF this] Some show ?thesis by (auto simp: unwind_marks_def)
  qed (simp add: unwind_marks_def)
  with 1 2 show ?thesis by (auto simp: unwind_here_def)
qed

lemma unwind_total:
  "never_fails al \<Longrightarrow> all_recorded f \<Longrightarrow> mappable f parsed \<Longrightarrow>
    \<exists>f' h'. unwind_func_info al arg_usr h f parsed = Some (f', h')"
proof (induction al arg_usr h f parsed rule: unwind_func_info.induct)
  case (1 al arg_usr h f parsed)
  show ?case
  proof (cases "fi_in_system_header f \<or> \<not> fi_has_definition f")
    case True
    then show ?thesis by (simp add: unwind_func_info.simps [of al arg_usr h f])
  next
    case False
    obtain f1 h1 where here: "unwind_here al arg_usr h f parsed = Some (f1, h1)"
      using unwind_here_total [OF 1(2-4)] by blast
    show ?thesis
    proof (cases "fi_callees f1")
      case None
      with False here show ?thesis by (simp add: unwind_func_info.simps [of al arg_usr h f])
    next
      case (Some cs)
      have rec: "\<forall>c \<in> set cs. all_recorded c"
        using unwind_here_cooked(2) [OF here 1(2,3)] Some by (simp add: callee_list_def)
      have "\<exists>c' h'. unwind_func_info al arg_usr h c None = Some (c', h')" if "c \<in> set cs" for h c
        using 1(1) [OF False here _ Some that] 1(2) rec that by (simp add: mappable_def)
      from for_each_total [OF this] False here Some show ?thesis
        by (fastforce simp: unwind_func_info.simps [of al arg_usr h f])
    qed
  qed
qed

section \<open>The footprints\<close>

lemma matched_calls: "matched f \<Longrightarrow> calls_match f"
  by (simp add: matched_def calls_match_def callee_list_def split: option.split)

text \<open>A function the comparisons can take.\<close>

definition ready_func :: "'c func_info \<Rightarrow> bool" where
  "ready_func f \<longleftrightarrow> all_named f \<and> (\<exists>fp. fi_access_footprint f = Some fp \<and> well_formed fp)"

lemma footprint_total:
  assumes "\<forall>g \<in> set (reached f). well_unwound g" "all_named f"
  shows "\<exists>f'. footprint_of f = Some f' \<and> ready_func f'"
proof -
  have "\<forall>g \<in> set (reached f). calls_match g" using assms(1) by (auto simp: well_unwound_def matched_calls)
  from footprint_inlines [OF this, of "[]"] obtain fp where fp: "build_var_access_footprint f [] = Some fp" by auto
  with footprint_formed [OF assms(1) fp] assms(2) show ?thesis by (simp add: footprint_of_def ready_func_def)
qed

lemma footprints_total:
  "\<forall>f \<in> set fs. (\<forall>g \<in> set (reached f). well_unwound g) \<and> all_named f \<Longrightarrow>
    \<exists>fs'. build_footprints fs = Some fs' \<and> (\<forall>f \<in> set fs'. ready_func f)"
proof (induction fs)
  case (Cons f fs)
  then obtain f' fs' where "footprint_of f = Some f'" "ready_func f'" "build_footprints fs = Some fs'"
    "\<forall>f \<in> set fs'. ready_func f"
    using footprint_total [of f] by auto
  then show ?case by simp
qed simp

section \<open>Comparing well-formed footprints\<close>

lemma nullify_formed:
  assumes "well_formed vas" "i < length vas" "live u (vas ! i)"
  shows "well_formed (nullify i vas)"
proof -
  have types: "types_of (nullify i vas) = (types_of vas)[i := VarAccess_Null]"
    by (simp add: nullify_def map_update)
  have "va_type (vas ! i) \<notin> insert VarAccess_Call branch_types"
    using assms(3) by (auto simp: live_def branch_types_def)
  then have at: "keeps_marker (types_of vas ! i) VarAccess_Null"
    using assms(2) by (simp add: keeps_marker_def branch_types_def)
  have "list_all2 keeps_marker (types_of vas) (types_of (nullify i vas))"
    unfolding types list_all2_conv_all_nth
  proof (intro conjI allI impI)
    fix k assume "k < length (types_of vas)"
    then show "keeps_marker (types_of vas ! k) ((types_of vas)[i := VarAccess_Null] ! k)"
      using at by (cases "k = i") (simp_all add: keeps_marker_def)
  qed simp
  moreover have "cooked ((vas ! i)\<lparr>va_type := VarAccess_Null\<rparr>)" by (simp add: cooked_def)
  ultimately show ?thesis
    using assms(1) then_follows_kept set_update_subset_insert [THEN subsetD]
    by (fastforce simp: well_formed_def nullify_def)
qed

lemma formed_known: "well_formed vas \<Longrightarrow> usrs_known vas"
  by (auto simp: well_formed_def usrs_known_def cooked_def)

text \<open>What nullifying a live access keeps the scan keeps.\<close>

definition nullifiable :: "(var_access list \<Rightarrow> bool) \<Rightarrow> bool" where
  "nullifiable P \<longleftrightarrow> (\<forall>vas i u. P vas \<longrightarrow> i < length vas \<longrightarrow> live u (vas ! i) \<longrightarrow> P (nullify i vas))"

context pair_scan
begin

lemma loop_keeps:
  assumes keep: "nullifiable P"
  shows "ready s \<Longrightarrow> \<forall>(i, j) \<in> set ps. i < length (scan_a s) \<and> j < length (scan_b s) \<Longrightarrow>
    P (scan_a s) \<Longrightarrow> P (scan_b s) \<Longrightarrow> pair_loop body ps s = Some t \<Longrightarrow> P (scan_a t) \<and> P (scan_b t)"
proof (induction ps arbitrary: s)
  case (Cons p ps)
  obtain i j where p: "p = (i, j)" by force
  have ij: "i < length (scan_a s)" "j < length (scan_b s)" using Cons.prems(2) p by auto
  obtain s1 where s1: "body i j s = Some s1" "ready s1"
    "if shared (scan_a s ! i) (scan_b s ! j) \<and> reported i j
     then scan_a s1 = nullify i (scan_a s) \<and> scan_b s1 = nullify j (scan_b s) else s1 = s"
    using step [OF Cons.prems(1) ij] by blast
  have "P (scan_a s1) \<and> P (scan_b s1)"
    using s1(3) keep Cons.prems(3,4) ij by (auto simp: shared_def nullifiable_def split: if_splits)
  moreover have "length (scan_a s1) = length (scan_a s)" "length (scan_b s1) = length (scan_b s)"
    using s1(3) by (auto simp: nullify_def split: if_splits)
  moreover have "pair_loop body ps s1 = Some t" using Cons.prems(5) p s1(1) by simp
  ultimately show ?case using Cons.IH [of s1] s1(2) Cons.prems(2) by auto
qed simp

lemma scan_keeps:
  assumes "nullifiable P" "ready s" "P (scan_a s)" "P (scan_b s)"
  shows "\<exists>t. pair_loop body (all_pairs (length (scan_a s)) (length (scan_b s))) s = Some t \<and> P (scan_a t) \<and> P (scan_b t)"
proof -
  let ?ps = "all_pairs (length (scan_a s)) (length (scan_b s))"
  have r: "\<forall>(i, j) \<in> set ?ps. i < length (scan_a s) \<and> j < length (scan_b s)" unfolding all_pairs_ball by blast
  obtain t where "pair_loop body ?ps s = Some t" using scan_all [OF assms(2)] by blast
  with loop_keeps [OF assms(1,2) r assms(3,4)] show ?thesis by blast
qed

end

text \<open>With lock tracking there is a bound on the length.\<close>

definition fits_scan :: "cmdline \<Rightarrow> var_access list \<Rightarrow> bool" where
  "fits_scan cl fp \<longleftrightarrow> well_formed fp \<and> (arg_track_locking cl \<longrightarrow> length fp \<le> 524288)"

definition ready_for :: "cmdline \<Rightarrow> 'c func_info \<Rightarrow> bool" where
  "ready_for cl f \<longleftrightarrow> all_named f \<and> (\<exists>fp. fi_access_footprint f = Some fp \<and> fits_scan cl fp)"

lemma scan_fits: "nullifiable (fits_scan cl)"
  using nullify_formed by (auto simp: nullifiable_def fits_scan_def)

text \<open>What the comparisons rely on besides: a table with a pair for every lock function, and
  blocks for the protection arrays that are not moved.\<close>

definition full_table :: "lock_pair_arr \<Rightarrow> bool" where
  "full_table pairs \<longleftrightarrow> (\<forall>name. lock_primitive_type name = VarAccess_LockAcquire \<longrightarrow>
     (\<exists>p. get_pair_by_lock_func pairs (Some name) = Some p \<and> \<not> lock_pair_is_null p))"

definition blocks_stay :: "'c world \<Rightarrow> bool" where
  "blocks_stay w \<longleftrightarrow> (\<forall>i j. case w_blocks w i j of ((al_a, addr_a), (al_b, addr_b)) \<Rightarrow>
     in_place al_a addr_a \<and> in_place al_b addr_b)"

lemma compare_pair_total:
  assumes "ready_for cl f" "ready_for cl g" "full_table pairs" "blocks_stay w"
  shows "\<exists>s. compare_pair w cl pairs i j f g = Some s \<and> fits_scan cl (scan_a s) \<and> fits_scan cl (scan_b s)"
proof -
  obtain as bs where fp: "fi_access_footprint f = Some as" "fi_access_footprint g = Some bs"
    and fits: "fits_scan cl as" "fits_scan cl bs" and named: "all_named f" "all_named g"
    using assms(1,2) by (auto simp: ready_for_def)
  let ?s = "\<lparr>scan_out = '''', scan_a = as, scan_b = bs\<rparr>"
  have ready: "scan_ready f g ?s"
    using fits named by (simp add: scan_ready_def fits_scan_def formed_known)
  show ?thesis
  proof (cases "arg_track_locking cl")
    case False
    have "\<exists>t. pair_loop (overlap_at (w_source w) f g) (all_pairs (length as) (length bs)) ?s = Some t \<and>
        fits_scan cl (scan_a t) \<and> fits_scan cl (scan_b t)"
      using overlap.scan_keeps [OF scan_fits ready] fits by simp
    with False fp show ?thesis by (simp add: compare_pair_def find_va_overlap_def)
  next
    case True
    obtain al_a addr_a al_b addr_b where b: "w_blocks w i j = ((al_a, addr_a), (al_b, addr_b))"
      by (cases "w_blocks w i j") auto
    then have stay: "in_place al_a addr_a" "in_place al_b addr_b"
      using assms(4) by (auto simp: blocks_stay_def dest: spec [of _ i] split: prod.splits)
    have "annotatable pairs as" "annotatable pairs bs"
      using fits assms(3) by (auto simp: fits_scan_def full_table_def intro!: well_formed_annotatable)
    moreover have "length as \<le> 524288" "length bs \<le> 524288" using fits True by (simp_all add: fits_scan_def)
    ultimately obtain arr_a arr_b where
      arr: "annotate_lock_protection_ranges al_a pairs as (init_protection_field_array addr_a) = Some arr_a" "lp_inv arr_a"
        "annotate_lock_protection_ranges al_b pairs bs (init_protection_field_array addr_b) = Some arr_b" "lp_inv arr_b"
      using annotate_ok stay by meson
    have "scan_ready f g ?s \<and> lp_inv arr_a \<and> lp_inv arr_b" using ready arr by simp
    from unprotected.scan_keeps [OF scan_fits this] fits
    have "\<exists>t. pair_loop (unprotected_at (w_source w) arr_a arr_b f g) (all_pairs (length as) (length bs)) ?s = Some t \<and>
        fits_scan cl (scan_a t) \<and> fits_scan cl (scan_b t)" by simp
    with True fp b arr show ?thesis by (auto simp: compare_pair_def find_unprotected_va_def)
  qed
qed

lemma compare_functions_total:
  assumes "full_table pairs" "blocks_stay w"
  shows "\<forall>f \<in> set fs. ready_for cl f \<Longrightarrow> set ps \<subseteq> {..<length fs} \<times> {..<length fs} \<Longrightarrow>
    \<exists>out. compare_functions (compare_pair w cl pairs) ps fs = Some out"
proof (induction ps arbitrary: fs)
  case (Cons p ps)
  obtain i j where p: "p = (i, j)" by force
  have ij: "i < length fs" "j < length fs" and ps: "set ps \<subseteq> {..<length fs} \<times> {..<length fs}"
    using Cons.prems(2) p by auto
  show ?case
  proof (cases "i = j")
    case True
    with p Cons.IH [OF Cons.prems(1) ps] show ?thesis by simp
  next
    case False
    have r: "ready_for cl (fs ! i)" "ready_for cl (fs ! j)" using Cons.prems(1) ij by simp_all
    obtain s where s: "compare_pair w cl pairs i j (fs ! i) (fs ! j) = Some s"
      "fits_scan cl (scan_a s)" "fits_scan cl (scan_b s)"
      using compare_pair_total [OF r assms] by blast
    have "ready_for cl (set_access_footprint (Some (scan_a s)) (fs ! i))"
      "ready_for cl (set_access_footprint (Some (scan_b s)) (fs ! j))"
      using r s(2,3) by (simp_all add: ready_for_def)
    with Cons.prems(1) have "\<forall>f \<in> set (store_scan i j s fs). ready_for cl f"
      by (auto simp: store_scan_def dest!: set_update_subset_insert [THEN subsetD])
    moreover have "length (store_scan i j s fs) = length fs" by (simp add: store_scan_def)
    ultimately obtain out where "compare_functions (compare_pair w cl pairs) ps (store_scan i j s fs) = Some out"
      using Cons.IH [of "store_scan i j s fs"] ps by auto
    with p False s(1) show ?thesis by simp
  qed
qed simp

section \<open>The functions registered\<close>

text \<open>A record as the first traversal leaves it: new, and of a function named by some call.\<close>

definition fresh_record :: "'c clang \<Rightarrow> string list \<Rightarrow> 'c func_info \<Rightarrow> bool" where
  "fresh_record api names f \<longleftrightarrow> callee_list f = [] \<and> accesses_of f = [] \<and> fi_name f \<noteq> None \<and>
     (\<exists>p call. fi_cursor f = Some p \<and> call \<in> set names \<and> named_by api p call)"

definition all_fresh :: "'c clang \<Rightarrow> string list \<Rightarrow> 'c collection \<Rightarrow> bool" where
  "all_fresh api names s \<longleftrightarrow> (\<forall>f \<in> set (col_funcs s). fresh_record api names f)"

lemma match_function_fresh:
  assumes "match_function api p call s = Inr s'" "call \<in> set names" "all_fresh api names s"
  shows "all_fresh api names s'"
proof (cases "named_by api p call")
  case True
  then have "fresh_record api names (fst (init_func_info (col_next_block s) (Some p) (Some (cursor_usr api p))
      (Some (cursor_display_name api p)) (Some (cursor_spelling api p)) False True))"
    using assms(2) by (auto simp: fresh_record_def init_func_info_def callee_list_def accesses_of_def)
  with True assms(1,3) show ?thesis
    by (auto simp: match_function_def call_parse all_fresh_def named_by_def split: if_splits prod.splits)
next
  case False
  with assms(1,3) show ?thesis by (auto simp: match_function_def call_parse named_by_def split: if_splits)
qed

lemma match_functions_fresh:
  "match_functions api p calls s = Inr s' \<Longrightarrow> set calls \<subseteq> set names \<Longrightarrow> all_fresh api names s \<Longrightarrow> all_fresh api names s'"
proof (induction calls arbitrary: s)
  case (Cons call calls)
  from Cons.prems(1) obtain s1 where "match_function api p call s = Inr s1" "match_functions api p calls s1 = Inr s'"
    by (auto simp: sbind_Inr)
  with match_function_fresh [of api p call s s1 names] Cons show ?case by simp
qed simp

lemma walk_ast_fresh:
  "walk_ast api names c p s = Inr (v, s') \<Longrightarrow> all_fresh api names s \<Longrightarrow> all_fresh api names s'"
  by (auto simp: walk_ast_def sbind_Inr all_fresh_def split: if_splits
      dest!: match_functions_fresh [of api p names s _ names, unfolded all_fresh_def])

lemma visit_fresh:
  "visit_trees (prong_visitor_walk_ast api names) p ts r = Some (b, Inr s') \<Longrightarrow>
    (\<And>s. r = Inr s \<Longrightarrow> all_fresh api names s) \<Longrightarrow> all_fresh api names s'"
proof (induction "prong_visitor_walk_ast api names" p ts r arbitrary: b s' rule: visit_trees.induct)
  case (2 p c kids ts r)
  obtain v r1 where v: "prong_visitor_walk_ast api names c p r = Some (v, r1)"
    unfolding prong_visitor_walk_ast_def by (metis surj_pair)
  have r1: "all_fresh api names s1" if "r1 = Inr s1" for s1
  proof -
    from v that obtain s where "r = Inr s" "walk_ast api names c p s = Inr (v, s1)"
      by (auto simp: prong_visitor_walk_ast_def sbind_Inr split: sum.splits)
    then show ?thesis using walk_ast_fresh [OF _ 2(5)] by blast
  qed
  show ?case
  proof (cases v)
    case CXChildVisit_Recurse
    with 2(4) v obtain b2 r2 where k: "visit_trees (prong_visitor_walk_ast api names) c kids r1 = Some (b2, r2)"
      by (auto split: option.splits)
    have r2: "all_fresh api names s2" if "r2 = Inr s2" for s2
      using 2(2) [OF v refl CXChildVisit_Recurse k [unfolded that] r1] .
    show ?thesis
    proof (cases b2)
      case True
      with 2(4) v k CXChildVisit_Recurse r2 show ?thesis by simp
    next
      case False
      then have b2: "b2 = False" by simp
      with 2(4) v k CXChildVisit_Recurse
      have rest: "visit_trees (prong_visitor_walk_ast api names) p ts r2 = Some (b, Inr s')" by simp
      from 2(3) [OF v refl CXChildVisit_Recurse k refl b2 rest r2] show ?thesis .
    qed
  next
    case CXChildVisit_Continue
    with 2(4) v have "visit_trees (prong_visitor_walk_ast api names) p ts r1 = Some (b, Inr s')" by simp
    from 2(1) [OF v refl CXChildVisit_Continue this r1] show ?thesis .
  next
    case CXChildVisit_Break
    with 2(4) v r1 show ?thesis by simp
  qed
qed simp

lemma collection_total:
  assumes "\<forall>call \<in> set names. readable_call call"
  shows "all_fresh api names s \<Longrightarrow> \<exists>s'. process_tu_array api names tus s = Inr s' \<and> all_fresh api names s'"
proof (induction tus arbitrary: s)
  case (Cons tu tus)
  obtain s1 where v: "visit_trees (prong_visitor_walk_ast api names) tu (subtrees api tu) (Inr s) = Some (False, Inr s1)"
    using visit_collects [OF assms, of api tu "subtrees api tu" s] by blast
  have "all_fresh api names s1" by (rule visit_fresh [OF v]) (use Cons.prems in simp)
  from Cons.IH [OF this] v show ?case by (auto simp: visit_children_def)
qed simp

section \<open>The walk\<close>

lemma visit_cons:
  assumes "visit_trees (prong_visitor_walk_func en process) p (Ast c kids # ts) r = Some (b, Inr w')"
  obtains w w1 w2 where "r = Inr w" "walk_func en process c p w = Inr w1"
    "visit_trees (prong_visitor_walk_func en process) c kids (Inr w1) = Some (False, Inr w2)"
    "visit_trees (prong_visitor_walk_func en process) p ts (Inr w2) = Some (b, Inr w')"
proof (cases r)
  case (Inl e)
  with walk_visit_inl [of en process p "Ast c kids # ts" e b "Inr w'"] assms show thesis by simp
next
  case (Inr w)
  show thesis
  proof (cases "walk_func en process c p w")
    case (Inl e)
    with assms Inr show thesis by (simp add: prong_visitor_walk_func_def)
  next
    case ok: (Inr w1)
    obtain b2 r2 where k: "visit_trees (prong_visitor_walk_func en process) c kids (Inr w1) = Some (b2, r2)"
      using walk_visit_total [of en process c kids "Inr w1"] by blast
    show thesis
    proof (cases r2)
      case bad: (Inl e)
      with assms Inr ok k walk_visit_inl [of en process p ts e b "Inr w'"] show thesis
        by (cases b2) (auto simp: prong_visitor_walk_func_def)
    next
      case good: (Inr w2)
      with k walk_visit_never_breaks [of en process c kids "Inr w1" b2 w2] have "b2 = False" by simp
      with that [OF Inr ok] k good assms Inr ok show thesis by (simp add: prong_visitor_walk_func_def)
    qed
  qed
qed

text \<open>A parameter seen stays: nothing takes the USRs of the parameters away.\<close>

definition keeps_params :: "'c walk \<Rightarrow> 'c walk \<Rightarrow> bool" where
  "keeps_params w w' \<longleftrightarrow> (fi_params (current_func w) \<noteq> [] \<longrightarrow> fi_params (current_func w') \<noteq> [])"

lemma params_of [simp]:
  "fi_params (push_access va f) = fi_params f" "fi_params (touch_accesses f) = fi_params f"
  "fi_params (push_marker t f) = fi_params f" "fi_params (push_callee g f) = fi_params f"
  "fi_params (set_last_callee g f) = fi_params f" "fi_params (record_if en c f) = fi_params f"
  by (simp_all add: push_access_def touch_accesses_def push_marker_def push_callee_def set_last_callee_def record_if_def)

lemma pop_params: "pop_to_parent api track p stack f = (stack', f') \<Longrightarrow> fi_params f' = fi_params f"
  by (induction api track p stack f rule: pop_to_parent.induct) (auto split: if_splits)

lemma ancestry_params [simp]: "fi_params (current_func (track_ancestry en c p w)) = fi_params (current_func w)"
  by (auto simp: track_ancestry_def Let_def push_stack_def dest: pop_params split: prod.split)

lemma block_params: "record_block en c p f = Inr f' \<Longrightarrow> fi_params f' = fi_params f"
  by (cases "env_track_locking en \<and> cursor_kind (env_api en) p = CXCursor_IfStmt")
    (auto simp: record_block_def Let_def sbind_Inr)

lemma markers_params:
  assumes "walk_markers en c p w = Inr w'"
  shows "fi_params (current_func w') = fi_params (record_declaration (env_api en) c (current_func (track_ancestry en c p w)))"
  using assms by (auto simp: walk_markers_def Let_def sbind_Inr dest: block_params)

lemma declaration_params: "fi_params f \<noteq> [] \<Longrightarrow> fi_params (record_declaration api c f) \<noteq> []"
  by (auto simp: record_declaration_def split: cursor_kind.split)

lemma node_params:
  assumes "walks process" "walk_node en process c w = Inr w'"
  shows "fi_params (current_func w') = fi_params (current_func w)"
proof -
  consider "record_reference en c w = Inr w'" | "record_call en process c w = Inr w'" | "w' = w"
    using assms(2) unfolding walk_node_def by (metis sum.inject(2))
  then show ?thesis
  proof cases
    case 1
    then show ?thesis by (cases rule: record_reference_cases) simp_all
  next
    case 2
    then show ?thesis
    proof (cases rule: record_call_cases)
      case (leaf d g w1)
      then show ?thesis by (elim enter_callee_cases) simp
    next
      case (descend d g w1 g' w2)
      obtain va where e: "current_func w1 = push_access va (push_callee g (current_func w))"
        "callee_list g = []" "accesses_of g = []"
        by (rule enter_callee_cases [OF descend(2)])
      have "current_func w2 = current_func w1" using assms(1) descend(3) e(2,3) unfolding walks_def by blast
      with e(1) descend(4) show ?thesis by simp
    qed simp
  qed simp
qed

lemma walk_func_params:
  assumes "walks process" "walk_func en process c p w = Inr w'"
  shows "keeps_params w w'"
    and "cursor_kind (env_api en) c = CXCursor_ParmDecl \<Longrightarrow> cursor_linkage (env_api en) c = CXLinkage_NoLinkage \<Longrightarrow>
      fi_params (current_func w') \<noteq> []"
proof -
  obtain w1 where 1: "walk_markers en c p w = Inr w1" "walk_node en process c w1 = Inr w'"
    using assms(2) unfolding walk_func_def sbind_Inr by blast
  have p: "fi_params (current_func w') =
      fi_params (record_declaration (env_api en) c (current_func (track_ancestry en c p w)))"
    using node_params [OF assms(1) 1(2)] markers_params [OF 1(1)] by simp
  then show "keeps_params w w'"
    using declaration_params [of "current_func (track_ancestry en c p w)"] by (simp add: keeps_params_def)
  show "fi_params (current_func w') \<noteq> []" if "cursor_kind (env_api en) c = CXCursor_ParmDecl"
    "cursor_linkage (env_api en) c = CXLinkage_NoLinkage"
    using p that by (simp add: record_declaration_def)
qed

lemma visit_keeps_params:
  assumes "walks process" "visit_trees (prong_visitor_walk_func en process) p ts (Inr w) = Some (b, Inr w')"
  shows "keeps_params w w'"
  using walk_visit_steps [of en process keeps_params, OF walk_func_params(1) [OF assms(1)] _ _ assms(2)]
  by (auto simp: keeps_params_def)

definition parameter :: "'c clang \<Rightarrow> 'c ast \<Rightarrow> bool" where
  "parameter api t \<longleftrightarrow> cursor_kind api (ast_root t) = CXCursor_ParmDecl \<and> cursor_linkage api (ast_root t) = CXLinkage_NoLinkage"

definition takes_params :: "'c clang \<Rightarrow> 'c \<Rightarrow> bool" where
  "takes_params api c \<longleftrightarrow> (\<exists>t \<in> set (subtrees api c). parameter api t)"

lemma visit_params:
  assumes "walks process"
  shows "visit_trees (prong_visitor_walk_func en process) p ts r = Some (b, Inr w') \<Longrightarrow>
    \<exists>t \<in> set ts. parameter (env_api en) t \<Longrightarrow> fi_params (current_func w') \<noteq> []"
proof (induction ts arbitrary: r)
  case (Cons t ts)
  obtain c kids where t: "t = Ast c kids" by (cases t)
  obtain w w1 w2 where s: "r = Inr w" "walk_func en process c p w = Inr w1"
    "visit_trees (prong_visitor_walk_func en process) c kids (Inr w1) = Some (False, Inr w2)"
    "visit_trees (prong_visitor_walk_func en process) p ts (Inr w2) = Some (b, Inr w')"
    by (rule visit_cons [OF Cons.prems(1) [unfolded t]])
  show ?case
  proof (cases "parameter (env_api en) t")
    case True
    then have "fi_params (current_func w1) \<noteq> []"
      using walk_func_params(2) [OF assms s(2)] t by (simp add: parameter_def)
    with visit_keeps_params [OF assms s(3)] visit_keeps_params [OF assms s(4)] show ?thesis
      by (simp add: keeps_params_def)
  next
    case False
    with Cons.IH [OF s(4)] Cons.prems(2) show ?thesis by auto
  qed
qed simp

text \<open>What the walk needs: names that fit the buffers and a file for every location.\<close>

definition fits_buffers :: "'c clang \<Rightarrow> bool" where
  "fits_buffers api \<longleftrightarrow> (\<forall>c stack. reference_strings api (cursor_referenced api c) stack \<noteq> Inl Buffer_Overflow) \<and>
     (\<forall>loc. location_file api loc \<noteq> None)"

lemma process_total:
  assumes "finite (range (cursor_usr (env_api en)))" "card (range (cursor_usr (env_api en))) < n"
    and "fits_buffers (env_api en)" "wf_units (env_api en)" "fresh_record (env_api en) names f"
  shows "\<exists>f' w'. process_func_info n en f w = Inr (f', w') \<and> all_recorded f' \<and>
    (takes_params (env_api en) (the (fi_cursor f)) \<longrightarrow> fi_params f' \<noteq> [])"
proof -
  from assms(5) obtain c where f: "callee_list f = []" "accesses_of f = []" "fi_name f \<noteq> None" "fi_cursor f = Some c"
    by (auto simp: fresh_record_def)
  have card: "card (range (cursor_usr (env_api en)) - set (touched_func_usrs w)) < n"
    using card_mono [OF assms(1) Diff_subset] assms(2) by (rule le_less_trans)
  have "process_func_info n en f w \<noteq> Inl e" for e
  proof
    assume "process_func_info n en f w = Inl e"
    from process_fault [OF assms(1) _ card _ this] f(4) have "input_fault en e" by simp
    with assms(3) show False unfolding input_fault_def fits_buffers_def by blast
  qed
  then obtain f' w' where p: "process_func_info n en f w = Inr (f', w')"
    by (cases "process_func_info n en f w") auto
  have "all_recorded f'"
    using process_records [OF assms(4)] p f(1-3) unfolding records_def all_recorded_def by blast
  moreover have "fi_params f' \<noteq> []" if "takes_params (env_api en) c"
  proof -
    from p obtain m b w1 where v: "visit_trees (prong_visitor_walk_func en (process_func_info m en)) c
        (subtrees (env_api en) c) (Inr (w\<lparr>current_func := f\<rparr>)) = Some (b, Inr w1)" "f' = current_func w1"
      by (rule process_cases) (use f(4) in auto)
    show ?thesis using visit_params [OF process_walks v(1)] that v(2) by (simp add: takes_params_def)
  qed
  ultimately show ?thesis using p f(4) by simp
qed

definition walked_from :: "'c clang \<Rightarrow> 'c func_info \<Rightarrow> 'c func_info \<Rightarrow> bool" where
  "walked_from api f f' \<longleftrightarrow> all_recorded f' \<and> (takes_params api (the (fi_cursor f)) \<longrightarrow> fi_params f' \<noteq> [])"

lemma walk_functions_total:
  assumes "finite (range (cursor_usr (env_api en)))" "card (range (cursor_usr (env_api en))) < n"
    and "fits_buffers (env_api en)" "wf_units (env_api en)"
  shows "\<forall>f \<in> set fs. fresh_record (env_api en) names f \<Longrightarrow>
    \<exists>fs' w'. walk_functions n en fs w = Inr (fs', w') \<and> list_all2 (walked_from (env_api en)) fs fs'"
proof (induction fs arbitrary: w)
  case (Cons f fs)
  then have f: "fresh_record (env_api en) names f" by simp
  obtain f' w1 where 1: "process_func_info n en f w = Inr (f', w1)" "walked_from (env_api en) f f'"
    using process_total [OF assms f, of w] by (auto simp: walked_from_def)
  obtain fs' w2 where 2: "walk_functions n en fs w1 = Inr (fs', w2)" "list_all2 (walked_from (env_api en)) fs fs'"
    using Cons.IH [of w1] Cons.prems by auto
  from 1 2 show ?case by simp
qed simp

section \<open>The whole run\<close>

lemma unwind_functions_total:
  assumes "never_fails al"
  shows "i + length fs \<le> length names \<Longrightarrow>
    \<forall>f \<in> set fs. all_recorded f \<and> (\<forall>call \<in> set names. mappable f (Some (call_words call))) \<Longrightarrow>
    \<exists>fs' h'. unwind_functions al arg_usr names h i fs = Inr (fs', h') \<and>
      (\<forall>f \<in> set fs'. (\<forall>g \<in> set (reached f). well_unwound g) \<and> all_named f)"
proof (induction fs arbitrary: h i)
  case (Cons f fs)
  then have i: "i < length names" by simp
  then have name: "strs_at names i = Some (Some (names ! i))" by (auto simp: strs_at_def)
  have f: "all_recorded f" "mappable f (Some (call_words (names ! i)))" using Cons.prems(2) i by simp_all
  obtain f' h1 where 1: "unwind_func_info al arg_usr h f (Some (call_words (names ! i))) = Some (f', h1)"
    using unwind_total [OF assms f] by blast
  obtain fs' h' where 2: "unwind_functions al arg_usr names h1 (Suc i) fs = Inr (fs', h')"
    "\<forall>f \<in> set fs'. (\<forall>g \<in> set (reached f). well_unwound g) \<and> all_named f"
    using Cons.IH [of "Suc i" h1] Cons.prems by auto
  from unwind_cooked [OF 1 assms f(1)] 1 2 name show ?case by (simp add: call_parse defined_def)
qed simp

text \<open>The compiler library, the allocator and the system as they should be: trees as documented,
  names that fit the buffers, finitely many USRs, memory for everything and protection arrays
  that grow in place.\<close>

definition sound_world :: "nat \<Rightarrow> 'c world \<Rightarrow> bool" where
  "sound_world n w \<longleftrightarrow> wf_units (w_api w) \<and> fits_buffers (w_api w) \<and> finite (range (cursor_usr (w_api w))) \<and>
     card (range (cursor_usr (w_api w))) < n \<and> never_fails (w_alloc w) \<and> blocks_stay w"

text \<open>A request as the help text asks for: every function written as a call, every lock pair
  with a colon, and, since the calls are taken by their position and not by their name, either
  no call with an argument or no function without parameter.  Every file has been parsed, and
  no single variables are asked for.\<close>

definition sound_request :: "'c world \<Rightarrow> cmdline \<Rightarrow> bool" where
  "sound_request w cl \<longleftrightarrow> (\<forall>u \<in> set (w_units w cl). u \<noteq> None) \<and> cl_trace_var_names cl = [] \<and>
     (\<forall>call \<in> set (cl_func_names cl). readable_call call) \<and>
     (\<exists>us. (\<forall>(l, u) \<in> set us. lock_name l) \<and> cl_lock_pairs cl = map (\<lambda>(l, u). l @ CHR '':'' # u) us) \<and>
     ((\<forall>call \<in> set (cl_func_names cl). length (call_words call) \<le> 1) \<or>
      (\<forall>call \<in> set (cl_func_names cl). \<forall>p. named_by (w_api w) p call \<longrightarrow> takes_params (w_api w) p))"

lemma proper_arguments:
  assumes "sound_request w cl" "call \<in> set (cl_func_names cl)" "named_by (w_api w) p call"
    and "takes_params (w_api w) p \<longrightarrow> fi_params f \<noteq> []" "call' \<in> set (cl_func_names cl)"
  shows "mappable f (Some (call_words call'))"
proof -
  consider "\<forall>call \<in> set (cl_func_names cl). length (call_words call) \<le> 1"
    | "\<forall>call \<in> set (cl_func_names cl). \<forall>p. named_by (w_api w) p call \<longrightarrow> takes_params (w_api w) p"
    using assms(1) unfolding sound_request_def by blast
  then show ?thesis using assms(2-5) by cases (auto simp: mappable_def)
qed

text \<open>The functions with their footprints, as they are when the comparisons start.\<close>

definition start_walk :: "'c world \<Rightarrow> 'c collection \<Rightarrow> 'c walk" where
  "start_walk w col = \<lparr>ancestry_stack = [], last_visited = w_zero_cursor w, current_func = hd (col_funcs col),
     touched_func_usrs = [], next_block = col_next_block col\<rparr>"

definition prepared :: "nat \<Rightarrow> 'c world \<Rightarrow> cmdline \<Rightarrow> 'c func_info list \<Rightarrow> bool" where
  "prepared n w cl fs \<longleftrightarrow> (\<exists>col fs1 walk1 fs2 h.
     process_tu_array (w_api w) (cl_func_names cl) (map (\<lambda>u. tu_cursor (the u)) (w_units w cl))
       \<lparr>col_funcs = [], col_global_usrs = [], col_next_block = 0\<rparr> = Inr col \<and>
     walk_functions n (walk_env w cl (w_units w cl)) (col_funcs col) (start_walk w col) = Inr (fs1, walk1) \<and>
     unwind_functions (w_alloc w) (arg_usr_of w) (cl_func_names cl) (next_block walk1) 0 fs1 = Inr (fs2, h) \<and>
     build_footprints fs2 = Some fs)"

lemma analyse_total:
  assumes world: "sound_world n w" and request: "sound_request w cl" and table: "full_table pairs"
    and bound: "\<And>fs f. arg_track_locking cl \<Longrightarrow> prepared n w cl fs \<Longrightarrow> f \<in> set fs \<Longrightarrow> length (footprint_list f) \<le> 524288"
  shows "\<exists>ret out. analyse n w cl pairs (w_units w cl) = Inr (ret, out)"
proof -
  let ?en = "walk_env w cl (w_units w cl)" and ?names = "cl_func_names cl"
  have en: "env_api ?en = w_api w" "env_tu_cursors ?en = map (\<lambda>u. tu_cursor (the u)) (w_units w cl)"
    by (simp_all add: walk_env_def)
  have names: "\<forall>call \<in> set ?names. readable_call call" using request unfolding sound_request_def by blast
  obtain col where col: "process_tu_array (w_api w) ?names (map (\<lambda>u. tu_cursor (the u)) (w_units w cl))
      \<lparr>col_funcs = [], col_global_usrs = [], col_next_block = 0\<rparr> = Inr col" "all_fresh (w_api w) ?names col"
    using collection_total [OF names, of "w_api w" "\<lparr>col_funcs = [], col_global_usrs = [], col_next_block = 0\<rparr>"]
    by (auto simp: all_fresh_def)
  show ?thesis
  proof (cases "length (col_funcs col) = length ?names")
    case False
    with col(1) show ?thesis by (simp add: analyse_def en)
  next
    case len: True
    obtain fs1 walk1 where walk: "walk_functions n ?en (col_funcs col) (start_walk w col) = Inr (fs1, walk1)"
      "list_all2 (walked_from (w_api w)) (col_funcs col) fs1"
      using walk_functions_total [of ?en n "col_funcs col" ?names "start_walk w col"] world col(2)
      by (auto simp: sound_world_def all_fresh_def en)
    have "all_recorded f \<and> (\<forall>call \<in> set ?names. mappable f (Some (call_words call)))" if "f \<in> set fs1" for f
    proof -
      from that walk(2) obtain g where g: "g \<in> set (col_funcs col)" "walked_from (w_api w) g f"
        unfolding list_all2_conv_all_nth by (metis in_set_conv_nth)
      then obtain p call where "fi_cursor g = Some p" "call \<in> set ?names" "named_by (w_api w) p call"
        using col(2) by (auto simp: all_fresh_def fresh_record_def)
      with g(2) proper_arguments [OF request, of call p f] show ?thesis unfolding walked_from_def by simp
    qed
    moreover have "length fs1 = length ?names" using list_all2_lengthD [OF walk(2)] len by simp
    moreover have "never_fails (w_alloc w)" using world by (simp add: sound_world_def)
    ultimately obtain fs2 h where unwound:
      "unwind_functions (w_alloc w) (arg_usr_of w) ?names (next_block walk1) 0 fs1 = Inr (fs2, h)"
      "\<forall>f \<in> set fs2. (\<forall>g \<in> set (reached f). well_unwound g) \<and> all_named f"
      using unwind_functions_total [of "w_alloc w" 0 fs1 ?names "arg_usr_of w" "next_block walk1"] by auto
    obtain fs3 where fs3: "build_footprints fs2 = Some fs3" "\<forall>f \<in> set fs3. ready_func f"
      using footprints_total [OF unwound(2)] by blast
    have "prepared n w cl fs3" using col(1) walk(1) unwound(1) fs3(1) by (auto simp: prepared_def)
    with bound fs3(2) have ready: "\<forall>f \<in> set fs3. ready_for cl f"
      by (fastforce simp: ready_func_def ready_for_def fits_scan_def footprint_list_def)
    have "blocks_stay w" using world by (simp add: sound_world_def)
    moreover have "set (List.product [0..<length fs3] [0..<length fs3]) \<subseteq> {..<length fs3} \<times> {..<length fs3}" by auto
    ultimately obtain out where
      "compare_functions (compare_pair w cl pairs) (List.product [0..<length fs3] [0..<length fs3]) fs3 = Some out"
      using compare_functions_total [OF table _ ready] by blast
    moreover have "cl_trace_var_names cl = []" using request unfolding sound_request_def by blast
    ultimately have "report w cl pairs (col_global_usrs col) fs3 = Some out" by (simp add: report_def)
    with col(1) len walk(1) unwound(1) fs3(1) show ?thesis
      by (simp add: analyse_def en defined_def start_walk_def)
  qed
qed


definition unit_world :: "nat world" where
  "unit_world = \<lparr>w_glob = (\<lambda>s. Glob_Paths [s]), w_api = unit_api, w_zero_cursor = 0,
     w_units = (\<lambda>cl. [Some \<lparr>tu_cursor = 100, tu_diagnostics = []\<rparr>]), w_alloc = (\<lambda>_. Some 64), w_junk = [],
     w_blocks = (\<lambda>i j. ((\<lambda>_. Some 64, 64), (\<lambda>_. Some 64, 64))),
     w_source = \<lparr>file_name = (\<lambda>_. ''a.c''), source_line = (\<lambda>_ _ _. '''')\<rparr>\<rparr>"

definition unit_request :: cmdline where
  "unit_request = prong_init_cmdline\<lparr>cl_file_names := [''a.c''], cl_func_names := [''f()'', ''g()''], arg_track_locking := True\<rparr>"

lemma unit_args:
  "process_args (w_glob unit_world) [''--files=a.c'', ''--functions=f();g()'', ''--track-locking''] prong_init_cmdline
    = Some (ERR_OK, unit_request)"
  by (simp add: process_args_def process_arg_def starts_with_def split_comma_list_def split_semicolon_list_def
      list_entries_def is_blank_def glob_paths_def unit_world_def prong_init_cmdline_def unit_request_def)

lemma unit_words: "call_words ''f()'' = [''f'']" "call_words ''g()'' = [''g'']"
  by (simp_all add: call_words_def parse_func_call_def parse_args.simps rtrim_def isspace_def skip_comma_def Let_def)

lemma unit_strings: "reference_strings unit_api c stack \<noteq> Inl e"
proof -
  have "distance (\<lambda>c. cursor_kind unit_api c = CXCursor_MemberRefExpr) stack = None"
    by (simp add: distance_None) (simp add: unit_api_def)
  then show ?thesis
    by (simp add: reference_strings_def offset_of_kind_def append_buffer_def DECL_NAME_BUFFER_def DECL_USR_BUFFER_def)
      (simp add: unit_api_def)
qed

lemma unit_sound: "sound_world 6 unit_world"
proof -
  have r: "range (cursor_usr unit_api) \<subseteq> {''c:@F@f'', ''c:@F@mutex_lock'', ''c:@F@g'', ''c:@m'', ''c:@x''}"
    by (auto simp: unit_api_def)
  then have "finite (range (cursor_usr unit_api))" by (rule finite_subset) simp
  moreover have "card (range (cursor_usr unit_api)) < 6" using card_mono [OF _ r] by simp
  moreover have "fits_buffers unit_api"
    using unit_strings by (simp add: fits_buffers_def) (simp add: unit_api_def sample_api_def)
  ultimately show ?thesis
    using wf_unit by (simp add: sound_world_def unit_world_def never_fails_def blocks_stay_def in_place_def)
qed

lemma unit_proper: "sound_request unit_world unit_request"
  by (simp add: sound_request_def unit_world_def unit_request_def prong_init_cmdline_def readable_call_def unit_words)

lemma unit_collected:
  "process_tu_array unit_api [''f()'', ''g()''] [100] \<lparr>col_funcs = [], col_global_usrs = [], col_next_block = 0\<rparr>
    = Inr \<lparr>col_funcs = [bare 0 1 ''c:@F@f'' ''f()'' ''f'', bare 3 30 ''c:@F@g'' ''g()'' ''g''],
        col_global_usrs = [], col_next_block = 6\<rparr>"
  by (simp add: visit_children_def prong_visitor_walk_ast_def walk_ast_def match_function_def call_parse unit_words
      sz_sub_def SIZE_LIMIT_def bare_def init_func_info_def Let_def unit_api_def unit_trees_def sample_api_def)

lemma unit_stages:
  "case walk_functions (Suc m) (walk_env unit_world unit_request (w_units unit_world unit_request))
      [bare 0 1 ''c:@F@f'' ''f()'' ''f'', bare 3 30 ''c:@F@g'' ''g()'' ''g'']
      \<lparr>ancestry_stack = [], last_visited = 0, current_func = f0, touched_func_usrs = [], next_block = 6\<rparr> of Inl e \<Rightarrow> False
    | Inr (fs1, walk1) \<Rightarrow>
      (case unwind_functions (\<lambda>_. Some 64) au [''f()'', ''g()''] (next_block walk1) 0 fs1 of Inl e \<Rightarrow> False
       | Inr (fs2, h) \<Rightarrow>
         (case build_footprints fs2 of None \<Rightarrow> False
          | Some fs \<Rightarrow> map (types_of \<circ> footprint_list) fs =
              [[VarAccess_IfStmt, VarAccess_Read, VarAccess_ThenBlock, VarAccess_LockAcquire], [VarAccess_EndIf, VarAccess_Read]]))"
  by (simp add: call_parse unit_words walk_env_def unit_world_def unit_request_def prong_init_cmdline_def 
      bare_def walk_run unit_sel unit_trees_def unwind_known unwind_here_def find_call_definition_visitor_def
      unwind_args_def unwind_aliases_def unwind_marks_def mark_access_def lock_mark_def lock_primitive_type_def
      default_lock_names_def find_callexpr_definition_def resolve_var_access_alias_def resolve_access_def
      strs_contains_def strs_at_def build_var_access_footprint.simps footprint_of_def footprint_list_def
      set_access_footprint_def)

lemma unit_parts:
  "w_api unit_world = unit_api" "w_alloc unit_world = (\<lambda>_. Some 64)" "cl_func_names unit_request = [''f()'', ''g()'']"
  "map (\<lambda>u. tu_cursor (the u)) (w_units unit_world unit_request) = [100]" "w_zero_cursor unit_world = 0"
  by (simp_all add: unit_world_def unit_request_def)

lemma unit_prepared:
  assumes "prepared 6 unit_world unit_request fs"
  shows "map (types_of \<circ> footprint_list) fs =
    [[VarAccess_IfStmt, VarAccess_Read, VarAccess_ThenBlock, VarAccess_LockAcquire], [VarAccess_EndIf, VarAccess_Read]]"
proof -
  have six: "(6 :: nat) = Suc 5" by simp
  from assms obtain fs1 walk1 fs2 h where
    "walk_functions (Suc 5) (walk_env unit_world unit_request (w_units unit_world unit_request))
      [bare 0 1 ''c:@F@f'' ''f()'' ''f'', bare 3 30 ''c:@F@g'' ''g()'' ''g'']
      \<lparr>ancestry_stack = [], last_visited = 0, current_func = bare 0 1 ''c:@F@f'' ''f()'' ''f'', touched_func_usrs = [],
       next_block = 6\<rparr> = Inr (fs1, walk1)"
    "unwind_functions (\<lambda>_. Some 64) (arg_usr_of unit_world) [''f()'', ''g()''] (next_block walk1) 0 fs1 = Inr (fs2, h)"
    "build_footprints fs2 = Some fs"
    unfolding prepared_def unit_parts unit_collected start_walk_def six by auto
  with unit_stages [where m = 5 and ?f0.0 = "bare 0 1 ''c:@F@f'' ''f()'' ''f''" and au = "arg_usr_of unit_world"]
  show ?thesis by simp
qed


end
