(* ===== verification/Messages.thy ===== *)
theory Messages
  imports Source_Line Pipeline
begin

text \<open>
  What the program writes, and on which stream: the four message functions of
  \<open>src/log.c\<close> over the conversions of \<open>printf\<close> the program uses, the help text and the
  messages of the collection of functions (\<open>src/core.c\<close>), the dump of a cursor
  (\<open>src/cursor_arr.c\<close>), and the messages of \<open>main\<close> (\<open>src/prong.c\<close>) on lock pairs, on the
  compilation database and on the diagnostics of the units.

  An event is a piece of output, or the program taking or giving back a resource.  Printing
  is \<open>None\<close> when the format does not fit the arguments, which C leaves undefined.
\<close>

section \<open>Formatted output\<close>

datatype stream = Stdout | Stderr

datatype resource = Client_Data | Client_Field string | Lock_Table | Unit_Array | Parsed_Unit nat | Compile_Db

datatype event = Write stream string | Gain resource | Dispose resource

datatype fmt_arg = Arg_Str string | Arg_Int int | Arg_Char char | Arg_Size nat | Arg_Ptr string

definition show_int :: "int \<Rightarrow> string" where
  "show_int i = (if i < 0 then CHR ''-'' # show_nat (nat (- i)) else show_nat (nat i))"

text \<open>One conversion: the text behind the percent sign and the argument give the output and
  the rest of the format; the text of a pointer is the system's.\<close>

fun conversion :: "string \<Rightarrow> fmt_arg \<Rightarrow> (string \<times> string) option" where
  "conversion fmt (Arg_Str s) = (if starts_with fmt ''s'' then Some (s, drop 1 fmt) else None)"
| "conversion fmt (Arg_Int i) = (if starts_with fmt ''d'' then Some (show_int i, drop 1 fmt) else None)"
| "conversion fmt (Arg_Char c) = (if starts_with fmt ''c'' then Some ([c], drop 1 fmt) else None)"
| "conversion fmt (Arg_Size n) = (if starts_with fmt ''zu'' then Some (show_nat n, drop 2 fmt) else None)"
| "conversion fmt (Arg_Ptr p) = (if starts_with fmt ''p'' then Some (p, drop 1 fmt) else None)"

lemma conversion_shortens [termination_simp]: "conversion fmt a = Some (s, rest) \<Longrightarrow> length rest < Suc (length fmt)"
  by (cases a) (auto split: if_splits)

fun vprintf :: "string \<Rightarrow> fmt_arg list \<Rightarrow> string option" where
  "vprintf [] args = Some ''''"
| "vprintf (c # fmt) args =
     (if c \<noteq> CHR ''%'' then map_option ((#) c) (vprintf fmt args)
      else case args of
             [] \<Rightarrow> None
           | a # args' \<Rightarrow>
               (case conversion fmt a of
                  None \<Rightarrow> None
                | Some (s, rest) \<Rightarrow> map_option ((@) s) (vprintf rest args')))"

definition printf :: "string \<Rightarrow> fmt_arg list \<Rightarrow> event list option" where
  "printf fmt args = map_option (\<lambda>s. [Write Stdout s]) (vprintf fmt args)"

definition print_debug :: "string \<Rightarrow> fmt_arg list \<Rightarrow> event list option" where
  "print_debug fmt args = map_option (\<lambda>s. [Write Stdout ''[dbg] '', Write Stdout s]) (vprintf fmt args)"

definition print_verbose :: "string \<Rightarrow> fmt_arg list \<Rightarrow> event list option" where
  "print_verbose fmt args = map_option (\<lambda>s. [Write Stdout ''[ver] '', Write Stdout s]) (vprintf fmt args)"

text \<open>The tags of the next two go to the standard error, their texts to the standard output.\<close>

definition WARN_TAG :: string where
  "WARN_TAG = esc_seq ''30;33m'' @ ''[warn]'' @ esc_seq ''0m'' @ '' ''"

definition ERR_TAG :: string where
  "ERR_TAG = esc_seq ''37;41m'' @ ''[err]'' @ esc_seq ''0m'' @ '' ''"

definition print_warn :: "string \<Rightarrow> fmt_arg list \<Rightarrow> event list option" where
  "print_warn fmt args = map_option (\<lambda>s. [Write Stderr WARN_TAG, Write Stdout s]) (vprintf fmt args)"

definition print_error :: "string \<Rightarrow> fmt_arg list \<Rightarrow> event list option" where
  "print_error fmt args = map_option (\<lambda>s. [Write Stderr ERR_TAG, Write Stdout s]) (vprintf fmt args)"

text \<open>Several calls in a row.\<close>

fun prints :: "event list option list \<Rightarrow> event list option" where
  "prints [] = Some []"
| "prints (p # ps) = Option.bind p (\<lambda>ev. map_option ((@) ev) (prints ps))"

definition written :: "stream \<Rightarrow> event list \<Rightarrow> string" where
  "written str ev = concat (map (\<lambda>e. case e of Write str' s \<Rightarrow> if str' = str then s else '''' | _ \<Rightarrow> '''') ev)"

section \<open>Help\<close>

definition QUOTE :: string where
  "QUOTE = [CHR 0x22]"

definition APOS :: string where
  "APOS = [CHR 0x27]"

definition usage_lines :: "string \<Rightarrow> (string \<times> fmt_arg list) list" where
  "usage_lines prog_name = [
      (NL @ ''Usage: %s --files='' @ QUOTE @ ''file1,file2,...'' @ QUOTE @ '' --functions='' @ QUOTE @ ''foo(arg1, arg2);bar(arg1, arg2);...'' @ QUOTE @ '' [OPT ARGS] [clang ARGS]'' @ NL, [Arg_Str prog_name]),
      (NL, []),
      (''Required arguments:'' @ NL, []),
      (''  --files=LIST        Comma-separated list of input source files'' @ NL, []),
      (''  --functions=LIST    Semicolon-separated list of function calls'' @ NL, []),
      (''  --trace=LIST        Semicolon-separated list of tracable parameters or globals'' @ NL, []),
      (NL, []),
      (''Function call format:'' @ NL, []),
      (''  foo(arg1, arg2, shared_arg)'' @ NL @ NL, []),
      (''  bar(shared_arg, arg3, arg4)'' @ NL, []),
      (NL, []),
      (''Individual variable tracing format:'' @ NL, []),
      (''  foo@param1'' @ NL @ NL, []),
      (''  glob1'' @ NL, []),
      (NL, []),
      (''Optional arguments:'' @ NL, []),
      (''  -j[max_threads]     Specify maximum number of concurrent threads for parsing stage'' @ NL, []),
      (''  --verbose           Enable verbose output'' @ NL, []),
      (''  --silence-warnings  Don'' @ APOS @ ''t show compiler warnings. However, the user is notified when they are present.'' @ NL, []),
      (''  --track-locking     Find unprotected or conditionally protected shared variable accesses between the fucntions.'' @ NL, []),
      (''  --help              Show this help message and exit'' @ NL, []),
      (NL, []),
      (''Examples:'' @ NL, []),
      (''  %s --files='' @ QUOTE @ ''main.c,util.c'' @ QUOTE @ '' --functions='' @ QUOTE @ ''init();run(arg)'' @ QUOTE @ NL, [Arg_Str prog_name]),
      (''  %s --files='' @ QUOTE @ ''a.c,b.c,c.c'' @ QUOTE @ '' --functions='' @ QUOTE @ ''foo(arg);bar(arg)'' @ QUOTE @ '' --verbose'' @ NL @ NL, [Arg_Str prog_name]),
      (''  %s --files='' @ QUOTE @ ''main.c,util.c'' @ QUOTE @ '' --functions='' @ QUOTE @ ''thread1(arg);thread2(arg)'' @ QUOTE @ '' --track-locking'' @ NL, [Arg_Str prog_name])]"

definition print_usage :: "string \<Rightarrow> event list option" where
  "print_usage prog_name = prints (map (\<lambda>(fmt, args). printf fmt args) (usage_lines prog_name))"

section \<open>File names\<close>

text \<open>What \<open>split_comma_list\<close> says of patterns the system cannot expand.\<close>

definition glob_complaint :: "glob_result \<Rightarrow> event list option" where
  "glob_complaint r =
     (case r of
        Glob_NoSpace \<Rightarrow> print_error (''pattern match error: glob: out of memory'' @ NL) []
      | Glob_Aborted \<Rightarrow> print_error (''pattern match error: glob: aborted'' @ NL) []
      | _ \<Rightarrow> Some [])"

definition glob_complaints :: "(string \<Rightarrow> glob_result) \<Rightarrow> string \<Rightarrow> event list option" where
  "glob_complaints glob str_in = prints (map (glob_complaint \<circ> glob) (list_entries (CHR '','') str_in))"

section \<open>Lock pairs\<close>

text \<open>What the scan of the pairs of the command line complains about before it gives up.\<close>

fun bad_character :: "string \<Rightarrow> char option" where
  "bad_character [] = None"
| "bad_character (c # cs) =
     (if c = CHR '':'' then None else if \<not> isalnum c \<and> c \<noteq> CHR ''_'' then Some c else bad_character cs)"

fun lock_pair_complaint :: "string list \<Rightarrow> lock_primitive_pair list \<Rightarrow> event list option" where
  "lock_pair_complaint (s # ss) (p # ps) =
     (case bad_character s of
        Some c \<Rightarrow> print_error (APOS @ ''%c'' @ APOS @ '' is not alphanumeric, exitting...'' @ NL) [Arg_Char c]
      | None \<Rightarrow>
          if unlock_func p = None \<and> CHR '':'' \<notin> set s
          then print_error (''pair->unlock_func is null, exitting...'' @ NL) []
          else lock_pair_complaint ss ps)"
| "lock_pair_complaint ss ps = Some []"

section \<open>Information on the run\<close>

definition print_strings :: "string list \<Rightarrow> event list option" where
  "print_strings xs = Some [Write Stdout (strs_print xs)]"

definition info :: "string \<Rightarrow> event list option" where
  "info topic = printf (''%s[info]%s '' @ topic) [Arg_Str CLR_VAR, Arg_Str CLR_RESET]"

definition verbose_info :: "cmdline \<Rightarrow> lock_pair_arr \<Rightarrow> event list option" where
  "verbose_info cl pairs =
     prints ([info (''adding specified lock pairs:'' @ NL)]
       @ map (\<lambda>p. Some [Write Stdout (print_lock_pair p ''&lock_pair_array.data[i]'')])
           (take (lpair_size pairs) (lpair_data pairs))
       @ [info ''using clang arguments: '', print_strings (cl_extra_args cl), printf NL [],
          info ''parsing files: '', print_strings (cl_file_names cl), printf NL [],
          info ''searching function CXCursors: '', print_strings (cl_func_names cl), printf NL [],
          info ''tracing variables: '', print_strings (cl_trace_var_names cl), printf NL []])"

section \<open>Collection of the functions\<close>

text \<open>What is said about a definition and one call of the command line; \<open>kind_code\<close> gives the
  library's numbers of the kinds of cursors.\<close>

definition match_messages ::
  "(cursor_kind \<Rightarrow> int) \<Rightarrow> 'c clang \<Rightarrow> bool \<Rightarrow> 'c \<Rightarrow> string list \<Rightarrow> event list option" where
  "match_messages kind_code api verbose parent parsed =
     (if parsed ! 0 \<noteq> cursor_spelling api parent then Some []
      else let num_args = nat (num_arguments api parent mod int SIZE_LIMIT); have = sz_sub (length parsed) 1
      in if num_args > have
         then print_error (''too few arguments to function %s, expected %zu, have %zu'' @ NL)
                [Arg_Str (parsed ! 0), Arg_Size num_args, Arg_Size have]
         else if num_args < have
         then print_error (''too many arguments to function %s, expected %zu, have %zu'' @ NL)
                [Arg_Str (parsed ! 0), Arg_Size num_args, Arg_Size have]
         else if verbose
         then prints
                [print_verbose (''Found function CXCursor: %s'' @ NL) [Arg_Str (cursor_display_name api parent)],
                 print_verbose (TAB # ''Kind: %d'' @ NL) [Arg_Int (kind_code (cursor_kind api parent))],
                 print_verbose (TAB # ''USR: %s'' @ NL) [Arg_Str (cursor_usr api parent)]]
         else Some [])"

section \<open>Parsing\<close>

text \<open>What a thread says of one file, around the call of the compiler that returns \<open>err\<close>.\<close>

definition parse_messages :: "bool \<Rightarrow> string \<Rightarrow> int \<Rightarrow> event list option" where
  "parse_messages verbose file err =
     prints [if verbose then printf (''Parsing file %s'' @ APOS @ ''%s'' @ APOS @ ''%s'' @ NL)
               [Arg_Str CLR_VAR, Arg_Str file, Arg_Str CLR_RESET] else Some [],
             if err \<noteq> 0 then print_error (''Unable to parse translation unit %s.'' @ NL @ '' CXErrorCode = %d. Quitting'' @ NL)
               [Arg_Str file, Arg_Int err]
             else if verbose then printf (''Thread done parsing %s'' @ APOS @ ''%s'' @ APOS @ ''%s'' @ NL)
               [Arg_Str CLR_VAR, Arg_Str file, Arg_Str CLR_RESET] else Some []]"

section \<open>The dump of a cursor\<close>

text \<open>The words a cursor consists of are behind the interface of the library: \<open>xdata\<close> and the
  texts of its three pointers.\<close>

definition print_cursor ::
  "(cursor_kind \<Rightarrow> int) \<Rightarrow> ('c \<Rightarrow> int \<times> string list) \<Rightarrow> 'c clang \<Rightarrow> 'c \<Rightarrow> event list option" where
  "print_cursor kind_code raw api cursor =
     (if cursor_is_null api cursor then printf (''NULL cursor'' @ NL) []
      else prints
        ([printf NL [],
          printf (''Printing cusor of name: %s'' @ NL) [Arg_Str (cursor_display_name api cursor)],
          printf (''cursor usr: %s'' @ NL) [Arg_Str (cursor_usr api cursor)],
          printf (''cursor kind: %d'' @ NL) [Arg_Int (kind_code (cursor_kind api cursor))],
          printf (''cursor xdata: %d'' @ NL) [Arg_Int (fst (raw cursor))]]
         @ map (\<lambda>i. printf (''cursor.data[%d] = %p'' @ NL) [Arg_Int (int i), Arg_Ptr (snd (raw cursor) ! i)]) [0..<3]
         @ [printf NL []]))"

definition print_cursor_array ::
  "(cursor_kind \<Rightarrow> int) \<Rightarrow> ('c \<Rightarrow> int \<times> string list) \<Rightarrow> 'c clang \<Rightarrow> 'c list \<Rightarrow> event list option" where
  "print_cursor_array kind_code raw api cursors =
     prints (printf (''======Printing cursor array of size %zu======'' @ NL) [Arg_Size (length cursors)]
       # map (print_cursor kind_code raw api) cursors)"

section \<open>Diagnostics\<close>

text \<open>The diagnostics of one unit; \<open>txt j\<close> is the library's text of number \<open>j\<close>.\<close>

fun diagnostic_events :: "bool \<Rightarrow> (nat \<Rightarrow> string) \<Rightarrow> nat \<Rightarrow> severity list \<Rightarrow> event list option" where
  "diagnostic_events silence txt j [] = Some []"
| "diagnostic_events silence txt j (d # ds) =
     prints [if d = CXDiagnostic_Error \<or> d = CXDiagnostic_Fatal
               then print_error (''Error: '' @ NL @ [TAB] @ ''%s'' @ NL) [Arg_Str (txt j)]
             else if d = CXDiagnostic_Warning \<and> \<not> silence
               then print_warn (''Warning: '' @ NL @ [TAB] @ ''%s'' @ NL) [Arg_Str (txt j)]
             else Some [],
             diagnostic_events silence txt (Suc j) ds]"

definition has_warning :: "severity list \<Rightarrow> bool" where
  "has_warning diags \<longleftrightarrow> list_ex (\<lambda>d. d = CXDiagnostic_Warning) diags"

definition unit_events :: "bool \<Rightarrow> (nat \<Rightarrow> string) \<Rightarrow> string \<Rightarrow> severity list \<Rightarrow> event list option" where
  "unit_events silence txt file diags =
     prints [diagnostic_events silence txt 0 diags,
             if has_warning diags \<and> silence
               then print_warn (''Suppressed compiler warnings for translation unit '' @ QUOTE @ ''%s'' @ QUOTE @ NL) [Arg_Str file]
               else Some [],
             if has_error diags
               then print_error (''Errors detected parsing translation unit '' @ QUOTE @ ''%s'' @ QUOTE @ NL) [Arg_Str file]
               else Some []]"

text \<open>The loop over the units from number \<open>i\<close> on, with as many file names: the error code, the
  number of units to dispose of at the end, and the messages.\<close>

fun check_units ::
  "bool \<Rightarrow> (nat \<Rightarrow> nat \<Rightarrow> string) \<Rightarrow> string list \<Rightarrow> nat \<Rightarrow> 'c tu option list \<Rightarrow>
   fault + prong_error \<times> nat \<times> event list" where
  "check_units silence txt files i [] = Inr (ERR_OK, i, [])"
| "check_units silence txt files i (None # us) = Inl Undefined"
| "check_units silence txt files i (Some u # us) =
     sbind (defined (unit_events silence (txt i) (files ! i) (tu_diagnostics u))) (\<lambda>ev.
       if has_error (tu_diagnostics u) then Inr (ERR_SYNTAX, i, ev)
       else sbind (check_units silence txt files (Suc i) us) (\<lambda>(ret, tu_count, ev'). Inr (ret, tu_count, ev @ ev')))"

end
