(* ===== verification/Whole_Run.thy ===== *)
theory Whole_Run
  imports Messages Program
begin

text \<open>
  \<open>main\<close> of \<open>src/prong.c\<close> with what \<open>prong_main\<close> of the theory Pipeline leaves out: everything
  it prints, and the resources it takes and gives back on the way to each of its exits.  The
  same stages decide; a run yields the exit code and the events in their order.  Output of the
  visitors and of the parsing threads is not among the events.
\<close>

section \<open>The run\<close>

text \<open>What the libraries add to \<open>'c world\<close>: whether loading a compilation database fails, and
  the texts of the diagnostics.\<close>

record console =
  db_fails :: "string \<Rightarrow> bool"
  diagnostic_text :: "nat \<Rightarrow> nat \<Rightarrow> string"

fun error_code :: "prong_error \<Rightarrow> int" where
  "error_code ERR_OK = 0"
| "error_code ERR_NOT_FOUND = 1"
| "error_code ERR_TU = 2"
| "error_code ERR_SYNTAX = 3"
| "error_code ERR_INVALID_ARG = 4"
| "error_code ERR_OUT_OF_MEMORY = 5"
| "error_code ERR_AOS_EMPTY = 6"
| "error_code ERR_IO = 7"

text \<open>\<open>argv[0]\<close> may be missing.\<close>

definition program_name :: "string list \<Rightarrow> string" where
  "program_name argv = (case argv of [] \<Rightarrow> ''(null)'' | p # _ \<Rightarrow> p)"

definition database_loaded :: "console \<Rightarrow> cmdline \<Rightarrow> bool" where
  "database_loaded con cl = (case cl_compdb_dir cl of None \<Rightarrow> False | Some dir \<Rightarrow> \<not> db_fails con dir)"

definition open_database :: "console \<Rightarrow> cmdline \<Rightarrow> event list option" where
  "open_database con cl =
     (case cl_compdb_dir cl of
        None \<Rightarrow> Some []
      | Some dir \<Rightarrow>
          prints [printf (''%s[info]%s compilation database directory: %s'' @ NL) [Arg_Str CLR_VAR, Arg_Str CLR_RESET, Arg_Str dir],
            if db_fails con dir
            then prints [print_error (''Couldn'' @ APOS @ ''t load compilation database at %s'' @ NL) [Arg_Str dir],
                         print_error (''Error code CXCompilationDatabase_CanNotLoadDatabase'' @ NL) []]
            else Some [Gain Compile_Db]])"

definition close_database :: "console \<Rightarrow> cmdline \<Rightarrow> event list" where
  "close_database con cl = (if database_loaded con cl then [Dispose Compile_Db] else [])"

text \<open>The structure of the program's data and what its fields point to.\<close>

definition priv_fields :: "string list" where
  "priv_fields = [''func_names'', ''file_names'', ''trace_var_names'', ''clang_args'', ''extra_args'', ''lock_pairs'',
     ''global_usrs'', ''ancestry_stack'', ''funcs'', ''touched_func_usrs'']"

definition prong_init_priv :: "event list" where
  "prong_init_priv = Gain Client_Data # map (\<lambda>f. Gain (Client_Field f)) priv_fields"

definition prong_free_priv :: "event list" where
  "prong_free_priv = map (\<lambda>f. Dispose (Client_Field f))
     [''func_names'', ''file_names'', ''trace_var_names'', ''clang_args'', ''extra_args'', ''lock_pairs'',
      ''global_usrs'', ''funcs'', ''touched_func_usrs'', ''ancestry_stack''] @ [Dispose Client_Data]"

text \<open>The units the threads leave behind.\<close>

definition parsed_units :: "'c tu option list \<Rightarrow> event list" where
  "parsed_units units = map (\<lambda>i. Gain (Parsed_Unit i)) (filter (\<lambda>i. units ! i \<noteq> None) [0..<length units])"

text \<open>\<open>free_tu_array\<close> disposes of the units; it does not free the array.\<close>

definition release_units :: "nat \<Rightarrow> event list" where
  "release_units tu_count = map (\<lambda>i. Dispose (Parsed_Unit i)) [0..<tu_count]"

definition done_line :: string where
  "done_line = CLR_VAR @ ''Done.'' @ CLR_RESET @ NL"

definition exit_with :: "prong_error \<Rightarrow> event list \<Rightarrow> prong_error \<times> event list" where
  "exit_with ret ev = (ret, ev @ [Write Stdout done_line])"

definition not_found_message :: "prong_error \<Rightarrow> event list option" where
  "not_found_message ret =
     (if ret = ERR_NOT_FOUND
      then print_error (''Could not find some functions you were looking for.'' @ NL) [] else Some [])"

definition reject_lock_pairs :: "lock_primitive_pair list \<Rightarrow> string list \<Rightarrow> prong_error \<Rightarrow> event list option" where
  "reject_lock_pairs junk user ret =
     prints [lock_pair_complaint user (lpair_data (init_lock_pair_array junk (num_default_pairs + length user))),
             print_error (''Bad lock pair syntax: %d'' @ NL) [Arg_Int (error_code ret)]]"

text \<open>From the allocation of the array of units to the label \<open>free_priv\<close>.\<close>

definition run_units ::
  "nat \<Rightarrow> 'c world \<Rightarrow> console \<Rightarrow> cmdline \<Rightarrow> lock_pair_arr \<Rightarrow> fault + prong_error \<times> event list" where
  "run_units n w con cl pairs =
     (let units = w_units w cl
      in sbind (defined (open_database con cl)) (\<lambda>db.
         let start = [Gain Unit_Array] @ db @ parsed_units units @ close_database con cl
         in sbind (check_units (arg_silence_warnings cl) (diagnostic_text con) (cl_file_names cl) 0 units) (\<lambda>(ret, tu_count, diags).
            if ret \<noteq> ERR_OK then Inr (ret, start @ diags @ release_units tu_count)
            else sbind (analyse n w cl pairs units) (\<lambda>(ret, out).
              sbind (defined (not_found_message ret)) (\<lambda>msg.
              Inr (ret, start @ diags @ msg @ [Write Stdout out] @ release_units tu_count))))))"

definition prong_run ::
  "nat \<Rightarrow> 'c world \<Rightarrow> console \<Rightarrow> string list \<Rightarrow> fault + prong_error \<times> event list" where
  "prong_run n w con argv =
     sbind (defined (print_usage (program_name argv))) (\<lambda>usage.
       if length argv < 2 then Inr (exit_with ERR_INVALID_ARG usage)
       else sbind (defined (process_args (w_glob w) (tl argv) prong_init_cmdline)) (\<lambda>(ret, cl).
         if ret \<noteq> ERR_OK then Inr (exit_with ret (prong_init_priv @ usage @ prong_free_priv))
         else sbind (defined (setup_lock_pairs (w_junk w) (cl_lock_pairs cl))) (\<lambda>(ret, pairs).
           let start = prong_init_priv @ [Gain Lock_Table]
           in if ret \<noteq> ERR_OK
           then sbind (defined (reject_lock_pairs (w_junk w) (cl_lock_pairs cl) ret)) (\<lambda>msg.
                Inr (exit_with ret (start @ msg @ [Dispose Lock_Table])))
           else sbind (defined (if arg_verbose cl then verbose_info cl pairs else Some [])) (\<lambda>msg.
             if arg_help cl
             then Inr (exit_with ERR_OK (start @ msg @ usage @ prong_free_priv @ [Dispose Lock_Table]))
             else sbind (run_units n w con cl pairs) (\<lambda>(ret, ev).
               Inr (exit_with ret (start @ msg @ ev @ prong_free_priv @ [Dispose Lock_Table])))))))"

section \<open>Printing succeeds\<close>

named_theorems printing

lemmas [printing] = printf_def print_debug_def print_verbose_def print_warn_def print_error_def QUOTE_def APOS_def
  NL_def TAB_def starts_with_def

definition only_output :: "event list option \<Rightarrow> bool" where
  "only_output p \<longleftrightarrow> (\<exists>ev. p = Some ev \<and> (\<forall>e \<in> set ev. \<exists>str s. e = Write str s))"

lemma only_output_simps [simp]:
  "only_output (Some []) = True" "only_output None = False"
  "only_output (Some (Write str s # ev)) = only_output (Some ev)"
  by (auto simp: only_output_def)

lemma prints_output: "(\<forall>p \<in> set ps. only_output p) \<Longrightarrow> only_output (prints ps)"
proof (induction ps)
  case (Cons p ps)
  then obtain ev1 ev2 where "p = Some ev1" "\<forall>e \<in> set ev1. \<exists>str s. e = Write str s"
    "prints ps = Some ev2" "\<forall>e \<in> set ev2. \<exists>str s. e = Write str s" by (auto simp: only_output_def)
  then show ?case by (auto simp: only_output_def)
qed simp

lemma usage_output: "only_output (print_usage prog)"
proof -
  have "\<forall>(fmt, args) \<in> set (usage_lines prog). only_output (printf fmt args)"
    by (simp add: usage_lines_def printing)
  then show ?thesis unfolding print_usage_def by (intro prints_output) auto
qed

lemma complaint_output: "only_output (lock_pair_complaint ss ps)"
  by (induction ss ps rule: lock_pair_complaint.induct) (auto simp: printing split: option.split)

lemma verbose_output: "only_output (verbose_info cl pairs)"
  unfolding verbose_info_def by (rule prints_output) (auto simp: info_def print_strings_def printing)

lemma diagnostics_output: "only_output (diagnostic_events silence txt j diags)"
proof (induction diags arbitrary: j)
  case (Cons d ds)
  show ?case unfolding diagnostic_events.simps
    by (rule prints_output) (use Cons in \<open>auto simp: printing\<close>)
qed simp

lemma unit_output: "only_output (unit_events silence txt file diags)"
  unfolding unit_events_def by (rule prints_output) (auto simp: diagnostics_output printing)

lemma not_found_output: "only_output (not_found_message ret)"
  by (auto simp: not_found_message_def printing)

lemma rejection_output: "only_output (reject_lock_pairs junk user ret)"
  unfolding reject_lock_pairs_def by (rule prints_output) (simp add: complaint_output, simp add: printing)

lemma database_output:
  "\<exists>ev. open_database con cl = Some ev \<and> (\<forall>e \<in> set ev. e = Gain Compile_Db \<or> (\<exists>str s. e = Write str s)) \<and>
    count_list ev (Gain Compile_Db) = (if database_loaded con cl then 1 else 0)"
  by (auto simp: open_database_def database_loaded_def printing split: option.split)

section \<open>Agreement with the stages alone\<close>

lemma check_units_agree: "check_diagnostics us = map_sum id fst (check_units silence txt files i us)"
proof (induction us arbitrary: i)
  case (Cons u us)
  show ?case
  proof (cases u)
    case (Some t)
    obtain ev where "unit_events silence (txt i) (files ! i) (tu_diagnostics t) = Some ev"
      using unit_output by (fastforce simp: only_output_def)
    with Some Cons [of "Suc i"] show ?thesis
      by (cases "check_units silence txt files (Suc i) us") (auto simp: sbind_def defined_def)
  qed simp
qed simp

lemma written_simps [simp]:
  "written str [] = ''''" "written str (ev @ ev') = written str ev @ written str ev'"
  "written str (Write str' s # ev) = (if str' = str then s else '''') @ written str ev"
  "written str (Gain r # ev) = written str ev" "written str (Dispose r # ev) = written str ev"
  by (simp_all add: written_def)

lemma written_priv [simp]: "written str prong_init_priv = ''''" "written str prong_free_priv = ''''"
  by (simp_all add: prong_init_priv_def prong_free_priv_def priv_fields_def)

lemma written_units [simp]: "written str (release_units k) = ''''"
  by (simp add: written_def release_units_def comp_def)

lemma sbind_output: "only_output p \<Longrightarrow> sbind (defined p) f = f (the p)"
  by (auto simp: only_output_def)

lemma info_output: "only_output (if b then verbose_info cl pairs else Some [])"
  by (simp add: verbose_output)

lemmas run_outputs = sbind_output [OF usage_output] sbind_output [OF rejection_output] sbind_output [OF info_output]
  sbind_output [OF unit_output] sbind_output [OF not_found_output]

text \<open>The two forms of the part behind the setup.\<close>

lemma run_units_agree:
  "case run_units n w con cl pairs of
     Inl flt \<Rightarrow> sbind (check_diagnostics (w_units w cl)) (\<lambda>ret.
       if ret \<noteq> ERR_OK then Inr (ret, '''') else analyse n w cl pairs (w_units w cl)) = Inl flt
   | Inr (ret, ev) \<Rightarrow> \<exists>before out. sbind (check_diagnostics (w_units w cl)) (\<lambda>ret.
       if ret \<noteq> ERR_OK then Inr (ret, '''') else analyse n w cl pairs (w_units w cl)) = Inr (ret, out) \<and>
       written Stdout ev = before @ out"
proof -
  obtain db where db: "open_database con cl = Some db" using database_output by blast
  note run = run_units_def Let_def db run_outputs
  note cu = check_units_agree [of "w_units w cl" "arg_silence_warnings cl" "diagnostic_text con" "cl_file_names cl" 0]
  show ?thesis
  proof (cases "check_units (arg_silence_warnings cl) (diagnostic_text con) (cl_file_names cl) 0 (w_units w cl)")
    case (Inl flt)
    with cu show ?thesis by (simp add: run)
  next
    case (Inr r)
    with cu show ?thesis by (cases r; cases "analyse n w cl pairs (w_units w cl)") (auto simp: run)
  qed
qed


section \<open>Resources\<close>

text \<open>The resources held after some events; \<open>None\<close> when one is obtained a second time, or
  disposed of while it is not held.\<close>

fun ledger :: "resource set \<Rightarrow> event list \<Rightarrow> resource set option" where
  "ledger own [] = Some own"
| "ledger own (Write str s # ev) = ledger own ev"
| "ledger own (Gain r # ev) = (if r \<in> own then None else ledger (insert r own) ev)"
| "ledger own (Dispose r # ev) = (if r \<in> own then ledger (own - {r}) ev else None)"

lemma ledger_append: "ledger own (ev @ ev') = Option.bind (ledger own ev) (\<lambda>own1. ledger own1 ev')"
  by (induction own ev rule: ledger.induct) auto

lemma ledger_output: "\<forall>e \<in> set ev. \<exists>str s. e = Write str s \<Longrightarrow> ledger own ev = Some own"
  by (induction ev) auto

lemma ledger_the: "only_output p \<Longrightarrow> ledger own (the p) = Some own"
  by (auto simp: only_output_def ledger_output)

lemma ledger_gain:
  "distinct rs \<Longrightarrow> own \<inter> set rs = {} \<Longrightarrow> ledger own (map Gain rs) = Some (own \<union> set rs)"
proof (induction rs arbitrary: own)
  case (Cons r rs)
  then have "insert r own \<inter> set rs = {}" by auto
  with Cons show ?case by simp
qed simp

lemma ledger_dispose:
  "distinct rs \<Longrightarrow> set rs \<subseteq> own \<Longrightarrow> ledger own (map Dispose rs) = Some (own - set rs)"
proof (induction rs arbitrary: own)
  case (Cons r rs)
  then have "set rs \<subseteq> own - {r}" by auto
  with Cons have "ledger (own - {r}) (map Dispose rs) = Some (own - {r} - set rs)" by simp
  with Cons.prems show ?case by (simp add: Diff_insert2 [symmetric])
qed simp

lemma ledger_gain_units:
  "distinct is \<Longrightarrow> own \<inter> Parsed_Unit ` set is = {} \<Longrightarrow>
    ledger own (map (\<lambda>i. Gain (Parsed_Unit i)) is) = Some (own \<union> Parsed_Unit ` set is)"
  using ledger_gain [of "map Parsed_Unit is" own] by (simp add: comp_def distinct_map inj_on_def)

lemma ledger_dispose_units:
  "distinct is \<Longrightarrow> Parsed_Unit ` set is \<subseteq> own \<Longrightarrow>
    ledger own (map (\<lambda>i. Dispose (Parsed_Unit i)) is) = Some (own - Parsed_Unit ` set is)"
  using ledger_dispose [of "map Parsed_Unit is" own] by (simp add: comp_def distinct_map inj_on_def)

lemmas run_ledger = ledger_append ledger_the [OF usage_output] ledger_the [OF rejection_output]
  ledger_the [OF info_output] ledger_the [OF verbose_output]

definition priv_resources :: "resource set" where
  "priv_resources = insert Client_Data (Client_Field ` set priv_fields)"

lemma priv_members [simp]: "Lock_Table \<notin> priv_resources" "Compile_Db \<notin> priv_resources" "Unit_Array \<notin> priv_resources"
  "Parsed_Unit i \<notin> priv_resources" "Client_Data \<in> priv_resources"
  by (auto simp: priv_resources_def)

lemma ledger_init_priv [simp]: "own \<inter> priv_resources = {} \<Longrightarrow> ledger own prong_init_priv = Some (own \<union> priv_resources)"
  using ledger_gain [of "Client_Data # map Client_Field priv_fields" own]
  by (simp add: prong_init_priv_def priv_resources_def priv_fields_def)

lemma ledger_free_priv [simp]: "priv_resources \<subseteq> own \<Longrightarrow> ledger own prong_free_priv = Some (own - priv_resources)"
proof -
  let ?rs = "map Client_Field [''func_names'', ''file_names'', ''trace_var_names'', ''clang_args'', ''extra_args'', ''lock_pairs'',
      ''global_usrs'', ''funcs'', ''touched_func_usrs'', ''ancestry_stack''] @ [Client_Data]"
  assume "priv_resources \<subseteq> own"
  moreover have "set ?rs = priv_resources" by (auto simp: priv_resources_def priv_fields_def)
  moreover have "prong_free_priv = map Dispose ?rs" by (simp add: prong_free_priv_def)
  ultimately show ?thesis using ledger_dispose [of ?rs own] by simp
qed

lemma priv_subset [simp]: "priv_resources \<subseteq> insert r priv_resources" "priv_resources \<subseteq> insert r (insert q (priv_resources \<union> rs))"
  by auto

text \<open>The units the loop over the diagnostics has passed are there; it ends behind the last
  one, or at the first that has an error.\<close>

lemma check_units_result:
  "check_units silence txt files i us = Inr (ret, k, ev) \<Longrightarrow>
    (\<forall>j < k - i. us ! j \<noteq> None \<and> \<not> has_error (tu_diagnostics (the (us ! j)))) \<and> (\<forall>e \<in> set ev. \<exists>str s. e = Write str s) \<and> i \<le> k \<and>
    (ret = ERR_OK \<and> k = i + length us \<or>
     ret = ERR_SYNTAX \<and> k < i + length us \<and> (\<exists>u. us ! (k - i) = Some u \<and> has_error (tu_diagnostics u)))"
proof (induction us arbitrary: i ev)
  case (Cons u us)
  then obtain t where t: "u = Some t" by (cases u) auto
  have out: "\<forall>e \<in> set (the (unit_events silence (txt i) (files ! i) (tu_diagnostics t))). \<exists>str s. e = Write str s"
    using unit_output [of silence "txt i" "files ! i" "tu_diagnostics t"] by (auto simp: only_output_def)
  show ?case
  proof (cases "has_error (tu_diagnostics t)")
    case True
    with Cons.prems t out show ?thesis by (auto simp: run_outputs)
  next
    case False
    with Cons.prems t obtain ev' where rec: "check_units silence txt files (Suc i) us = Inr (ret, k, ev')"
      "ev = the (unit_events silence (txt i) (files ! i) (tu_diagnostics t)) @ ev'"
      by (auto simp: run_outputs sbind_Inr)
    note ih = Cons.IH [OF rec(1)]
    then have k: "Suc i \<le> k" "k - i = Suc (k - Suc i)" by auto
    have "(u # us) ! j \<noteq> None \<and> \<not> has_error (tu_diagnostics (the ((u # us) ! j)))" if "j < k - i" for j
      using that ih k t False by (cases j) auto
    moreover have "\<forall>e \<in> set ev. \<exists>str s. e = Write str s" using ih out rec(2) by auto
    ultimately show ?thesis using ih k by auto
  qed
qed simp

definition unit_set :: "'c tu option list \<Rightarrow> resource set" where
  "unit_set units = Parsed_Unit ` {i. i < length units \<and> units ! i \<noteq> None}"

lemma start_ledger:
  assumes "Unit_Array \<notin> own" "Compile_Db \<notin> own" "\<forall>i. Parsed_Unit i \<notin> own"
  shows "ledger own ([Gain Unit_Array] @ the (open_database con cl) @ parsed_units units @ close_database con cl)
    = Some (insert Unit_Array (own \<union> unit_set units))"
proof -
  have units: "ledger own1 (parsed_units units) = Some (own1 \<union> unit_set units)" if "\<forall>i. Parsed_Unit i \<notin> own1" for own1
    using ledger_gain_units [of "filter (\<lambda>i. units ! i \<noteq> None) [0..<length units]" own1] that
    by (auto simp: parsed_units_def unit_set_def)
  have "ledger own1 (the (open_database con cl)) = Some (if database_loaded con cl then insert Compile_Db own1 else own1)"
    if "Compile_Db \<notin> own1" for own1
    using that by (auto simp: open_database_def database_loaded_def printing split: option.split)
  moreover have "Compile_Db \<notin> unit_set units" by (auto simp: unit_set_def)
  ultimately show ?thesis
    using assms by (auto simp: ledger_append units close_database_def)
qed

lemma run_units_ledger:
  assumes "run_units n w con cl pairs = Inr (ret, ev)" "Unit_Array \<notin> own" "Compile_Db \<notin> own" "\<forall>i. Parsed_Unit i \<notin> own"
  shows "\<exists>left. ledger own ev = Some (insert Unit_Array (own \<union> left)) \<and> left \<subseteq> unit_set (w_units w cl) \<and>
    (left \<noteq> {} \<longrightarrow> (\<exists>k u. w_units w cl ! k = Some u \<and> k < length (w_units w cl) \<and> has_error (tu_diagnostics u) \<and>
       (\<forall>j < k. Parsed_Unit j \<notin> left) \<and> ret = ERR_SYNTAX))"
proof -
  let ?us = "w_units w cl" and ?start = "[Gain Unit_Array] @ the (open_database con cl) @ parsed_units (w_units w cl) @ close_database con cl"
  obtain db where db: "open_database con cl = Some db" using database_output by blast
  obtain ret1 k diags where cu: "check_units (arg_silence_warnings cl) (diagnostic_text con) (cl_file_names cl) 0 ?us = Inr (ret1, k, diags)"
    using assms(1) db by (cases "check_units (arg_silence_warnings cl) (diagnostic_text con) (cl_file_names cl) 0 ?us")
      (auto simp: run_units_def Let_def)
  note res = check_units_result [OF cu]
  obtain mid where ev: "ev = ?start @ mid @ release_units k" "\<forall>e \<in> set mid. \<exists>str s. e = Write str s" "ret1 \<noteq> ERR_OK \<longrightarrow> ret = ret1"
  proof (cases "ret1 = ERR_OK")
    case True
    with assms(1) db cu obtain out where "ev = ?start @ (diags @ the (not_found_message ret) @ [Write Stdout out]) @ release_units k"
      by (auto simp: run_units_def Let_def sbind_Inr run_outputs)
    then show ?thesis using that res not_found_output [of ret] True by (fastforce simp: only_output_def)
  next
    case False
    with assms(1) db cu have "ev = ?start @ diags @ release_units k" "ret = ret1" by (auto simp: run_units_def Let_def)
    then show ?thesis using that res by blast
  qed
  have k: "Parsed_Unit ` {..<k} \<subseteq> unit_set ?us" using res by (auto simp: unit_set_def)
  have "ledger own ev = ledger (insert Unit_Array (own \<union> unit_set ?us)) (release_units k)"
    unfolding ev(1) by (subst ledger_append, subst start_ledger [OF assms(2-4)])
      (simp add: ledger_append ledger_output [OF ev(2)])
  also have "\<dots> = Some (insert Unit_Array (own \<union> unit_set ?us) - Parsed_Unit ` {..<k})"
    using ledger_dispose_units [of "[0..<k]" "insert Unit_Array (own \<union> unit_set ?us)"] k
    by (auto simp: release_units_def atLeast0LessThan)
  also have "insert Unit_Array (own \<union> unit_set ?us) - Parsed_Unit ` {..<k} = insert Unit_Array (own \<union> (unit_set ?us - Parsed_Unit ` {..<k}))"
    using assms(4) by auto
  finally have "ledger own ev = Some (insert Unit_Array (own \<union> (unit_set ?us - Parsed_Unit ` {..<k})))" .
  moreover have "\<exists>u. ?us ! k = Some u \<and> k < length ?us \<and> has_error (tu_diagnostics u) \<and> ret = ERR_SYNTAX"
    if "unit_set ?us - Parsed_Unit ` {..<k} \<noteq> {}"
    using that res ev(3) by (auto simp: unit_set_def)
  ultimately show ?thesis by (intro exI [of _ "unit_set ?us - Parsed_Unit ` {..<k}"]) blast
qed


text \<open>A run with three files of which the second has an error.\<close>

definition faulty_world :: "nat world" where
  "faulty_world = order_world\<lparr>w_units := (\<lambda>cl. [Some \<lparr>tu_cursor = 1, tu_diagnostics = [CXDiagnostic_Warning]\<rparr>,
     Some \<lparr>tu_cursor = 1, tu_diagnostics = [CXDiagnostic_Error, CXDiagnostic_Warning]\<rparr>, Some \<lparr>tu_cursor = 1, tu_diagnostics = []\<rparr>])\<rparr>"

definition faulty_argv :: "string list" where
  "faulty_argv = [''prong'', ''--files=a.c,b.c,c.c'', ''--functions=f()'', ''--silence-warnings'']"

definition faulty_console :: console where
  "faulty_console = \<lparr>db_fails = (\<lambda>_. False), diagnostic_text = (\<lambda>i j. if j = 0 then ''first'' else ''second'')\<rparr>"

lemma faulty_args:
  "process_args (w_glob faulty_world) (tl faulty_argv) prong_init_cmdline = Some (ERR_OK, prong_init_cmdline\<lparr>
     cl_file_names := [''a.c'', ''b.c'', ''c.c''], cl_func_names := [''f()''], arg_silence_warnings := True\<rparr>)"
  by (simp add: process_args_def process_arg_def starts_with_def split_comma_list_def split_semicolon_list_def faulty_argv_def
      list_entries_def is_blank_def glob_paths_def faulty_world_def order_world_def prong_init_cmdline_def)

lemma faulty_run:
  "\<exists>ev. prong_run 1 faulty_world faulty_console faulty_argv = Inr (ERR_SYNTAX, ev)"
  using faulty_args
  by (simp add: prong_run_def run_outputs run_units_def setup_lock_pairs_def exit_with_def Let_def prong_init_cmdline_def
      open_database_def faulty_world_def faulty_argv_def has_error_def)


section \<open>Diagnostics\<close>

definition num_errors :: "severity list \<Rightarrow> nat" where
  "num_errors diags = length (filter (\<lambda>d. d = CXDiagnostic_Error \<or> d = CXDiagnostic_Fatal) diags)"

definition num_warnings :: "severity list \<Rightarrow> nat" where
  "num_warnings diags = length (filter (\<lambda>d. d = CXDiagnostic_Warning) diags)"

definition error_text :: "string \<Rightarrow> string" where
  "error_text txt = ''Error: '' @ NL @ [TAB] @ txt @ NL"

lemma tags_differ: "WARN_TAG \<noteq> ERR_TAG"
  by (simp add: WARN_TAG_def ERR_TAG_def esc_seq_def)

definition tagged :: "string \<Rightarrow> event list \<Rightarrow> nat" where
  "tagged tag ev = count_list ev (Write Stderr tag)"

lemma tagged_simps [simp]:
  "tagged tag [] = 0" "tagged tag (ev @ ev') = tagged tag ev + tagged tag ev'"
  "tagged tag (Write str s # ev) = (if str = Stderr \<and> s = tag then Suc (tagged tag ev) else tagged tag ev)"
  by (simp_all add: tagged_def)

lemma diagnostic_tags:
  "diagnostic_events silence txt j diags = Some ev \<Longrightarrow>
    tagged ERR_TAG ev = num_errors diags \<and> tagged WARN_TAG ev = (if silence then 0 else num_warnings diags) \<and>
    (\<forall>i < length diags. diags ! i = CXDiagnostic_Error \<or> diags ! i = CXDiagnostic_Fatal \<longrightarrow>
       Write Stdout (error_text (txt (j + i))) \<in> set ev)"
proof (induction diags arbitrary: j ev)
  case (Cons d ds)
  obtain ev2 where ev2: "diagnostic_events silence txt (Suc j) ds = Some ev2"
    using diagnostics_output by (fastforce simp: only_output_def)
  note ih = Cons.IH [OF ev2]
  have "\<exists>ev1. ev = ev1 @ ev2 \<and> tagged ERR_TAG ev1 = num_errors [d] \<and>
    tagged WARN_TAG ev1 = (if silence then 0 else num_warnings [d]) \<and>
    (d = CXDiagnostic_Error \<or> d = CXDiagnostic_Fatal \<longrightarrow> Write Stdout (error_text (txt j)) \<in> set ev1)"
    using Cons.prems ev2
    by (cases d) (auto simp: printing num_errors_def num_warnings_def error_text_def tags_differ tags_differ [symmetric])
  then show ?case using ih by (auto simp: num_errors_def num_warnings_def nth_Cons split: nat.split)
qed (simp add: num_errors_def num_warnings_def)

text \<open>What one unit contributes to the tags.\<close>

definition unit_errors :: "severity list \<Rightarrow> nat" where
  "unit_errors diags = num_errors diags + (if has_error diags then 1 else 0)"

definition unit_warnings :: "bool \<Rightarrow> severity list \<Rightarrow> nat" where
  "unit_warnings silence diags = (if silence then if has_warning diags then 1 else 0 else num_warnings diags)"

definition errors_shown :: "(nat \<Rightarrow> string) \<Rightarrow> severity list \<Rightarrow> event list \<Rightarrow> bool" where
  "errors_shown txt diags ev \<longleftrightarrow>
     (\<forall>i < length diags. diags ! i = CXDiagnostic_Error \<or> diags ! i = CXDiagnostic_Fatal \<longrightarrow>
        Write Stdout (error_text (txt i)) \<in> set ev)"

lemma unit_tags:
  assumes "unit_events silence txt file diags = Some ev"
  shows "tagged ERR_TAG ev = unit_errors diags \<and> tagged WARN_TAG ev = unit_warnings silence diags \<and> errors_shown txt diags ev"
proof -
  obtain ev1 where ev1: "diagnostic_events silence txt 0 diags = Some ev1"
    using diagnostics_output by (fastforce simp: only_output_def)
  obtain ev2 where "ev = ev1 @ ev2" "tagged ERR_TAG ev2 = (if has_error diags then 1 else 0)"
    "tagged WARN_TAG ev2 = (if has_warning diags \<and> silence then 1 else 0)"
    using assms ev1 by (auto simp: unit_events_def printing tags_differ tags_differ [symmetric] split: if_splits)
  with diagnostic_tags [OF ev1] show ?thesis
    by (auto simp: unit_errors_def unit_warnings_def errors_shown_def)
qed

lemma units_tags:
  "check_units silence txt files i us = Inr (ret, k, ev) \<Longrightarrow>
    tagged ERR_TAG ev = sum_list (map (\<lambda>u. unit_errors (tu_diagnostics (the u))) (take (Suc (k - i)) us)) \<and>
    tagged WARN_TAG ev = sum_list (map (\<lambda>u. unit_warnings silence (tu_diagnostics (the u))) (take (Suc (k - i)) us)) \<and>
    (\<forall>j < length us. i + j \<le> k \<longrightarrow> errors_shown (txt (i + j)) (tu_diagnostics (the (us ! j))) ev)"
proof (induction us arbitrary: i ev)
  case (Cons u us)
  then obtain t where t: "u = Some t" by (cases u) auto
  obtain ev1 where ev1: "unit_events silence (txt i) (files ! i) (tu_diagnostics t) = Some ev1"
    using unit_output by (fastforce simp: only_output_def)
  note tags = unit_tags [OF ev1]
  show ?case
  proof (cases "has_error (tu_diagnostics t)")
    case True
    with Cons.prems t ev1 tags show ?thesis by auto
  next
    case False
    with Cons.prems t ev1 obtain ev2 where rec: "check_units silence txt files (Suc i) us = Inr (ret, k, ev2)" "ev = ev1 @ ev2"
      by (auto simp: sbind_Inr)
    have "Suc i \<le> k" using check_units_result [OF rec(1)] by blast
    then have k: "k - i = Suc (k - Suc i)" by simp
    have "errors_shown (txt (i + j)) (tu_diagnostics (the ((u # us) ! j))) ev" if "j < length (u # us)" "i + j \<le> k" for j
      using that Cons.IH [OF rec(1)] tags rec(2) t by (cases j) (auto simp: errors_shown_def)
    with Cons.IH [OF rec(1)] tags rec(2) t k show ?thesis by simp
  qed
qed simp

lemma silence_changes_no_result:
  "check_units silence txt files i us = Inr (ret, k, ev) \<Longrightarrow> \<exists>ev'. check_units (\<not> silence) txt files i us = Inr (ret, k, ev')"
proof (induction us arbitrary: i ev)
  case (Cons u us)
  then obtain t where "u = Some t" by (cases u) auto
  with Cons show ?case by (fastforce simp: run_outputs sbind_Inr split: if_splits)
qed simp

text \<open>C39: The check of the diagnostics.  It goes through the units until the first that has an
  error, and that one decides: with it the run fails, without any it goes on.  Every error of
  the units looked at is shown, with one message more for the unit that fails; every warning
  is shown or, with \<open>--silence-warnings\<close>, mentioned once for its unit, which changes nothing
  else.\<close>
theorem diagnostics_are_reported:
  assumes "check_units silence txt files 0 us = Inr (ret, k, ev)"
  shows "(if \<exists>u \<in> set us. has_error (tu_diagnostics (the u))
      then ret = ERR_SYNTAX \<and> k < length us \<and> has_error (tu_diagnostics (the (us ! k))) \<and>
        (\<forall>j < k. \<not> has_error (tu_diagnostics (the (us ! j))))
      else ret = ERR_OK \<and> k = length us) \<and>
    tagged ERR_TAG ev = sum_list (map (\<lambda>u. unit_errors (tu_diagnostics (the u))) (take (Suc k) us)) \<and>
    tagged WARN_TAG ev = sum_list (map (\<lambda>u. unit_warnings silence (tu_diagnostics (the u))) (take (Suc k) us)) \<and>
    (\<forall>i < length us. i \<le> k \<longrightarrow> errors_shown (txt i) (tu_diagnostics (the (us ! i))) ev) \<and>
    (\<exists>ev'. check_units (\<not> silence) txt files 0 us = Inr (ret, k, ev'))"
proof -
  note res = check_units_result [OF assms]
  have "if \<exists>u \<in> set us. has_error (tu_diagnostics (the u))
      then ret = ERR_SYNTAX \<and> k < length us \<and> has_error (tu_diagnostics (the (us ! k))) \<and>
        (\<forall>j < k. \<not> has_error (tu_diagnostics (the (us ! j))))
      else ret = ERR_OK \<and> k = length us"
  proof (cases "ret = ERR_OK")
    case True
    with res have "k = length us" "\<forall>j < length us. \<not> has_error (tu_diagnostics (the (us ! j)))" by auto
    with True show ?thesis by (auto simp: in_set_conv_nth)
  next
    case False
    with res obtain u where u: "ret = ERR_SYNTAX" "k < length us" "us ! k = Some u" "has_error (tu_diagnostics u)" by auto
    then have "\<exists>u \<in> set us. has_error (tu_diagnostics (the u))" by (metis nth_mem option.sel)
    with u res show ?thesis by simp
  qed
  with silence_changes_no_result [OF assms] units_tags [OF assms] show ?thesis by simp
qed

theorem diagnostics_are_reported_witness:
  "\<exists>k ev. check_units True (diagnostic_text faulty_console) [''a.c'', ''b.c'', ''c.c''] 0 (w_units faulty_world prong_init_cmdline)
      = Inr (ERR_SYNTAX, k, ev) \<and> k = 1 \<and> tagged ERR_TAG ev = 2 \<and> tagged WARN_TAG ev = 2 \<and>
    Write Stdout (error_text ''first'') \<in> set ev"
proof -
  obtain ev where ev: "check_units True (diagnostic_text faulty_console) [''a.c'', ''b.c'', ''c.c''] 0 (w_units faulty_world prong_init_cmdline)
      = Inr (ERR_SYNTAX, 1, ev)"
    by (simp add: faulty_world_def run_outputs has_error_def)
  note props = diagnostics_are_reported [OF ev]
  from props have "errors_shown (diagnostic_text faulty_console 1) [CXDiagnostic_Error, CXDiagnostic_Warning] ev"
    by (auto simp: faulty_world_def dest!: spec [where P = "\<lambda>i. i < Suc (Suc (Suc 0)) \<longrightarrow> _ i" and x = "Suc 0"])
  then have "Write Stdout (error_text ''first'') \<in> set ev" by (auto simp: errors_shown_def faulty_console_def)
  moreover from props have "tagged ERR_TAG ev = 2 \<and> tagged WARN_TAG ev = 2"
    by (simp add: faulty_world_def unit_errors_def unit_warnings_def num_errors_def num_warnings_def
        has_error_def has_warning_def numeral_2_eq_2)
  ultimately show ?thesis using ev by blast
qed

end
